(* ===== verification/Zab_Prelude.thy ===== *)
theory Zab_Prelude
  imports Main "HOL-Library.Word" "HOL-Library.Multiset"
begin

text \<open>
  Shared vocabulary of the development: the types of addresses and of fallible results, the
  generic facts on outcomes, on intrusive linked lists in a heap and on key-sorted association
  lists that the component theories use, and the theorem collections they extend.

  A C++ pointer or \<open>std::uintptr_t\<close> is a 64 bit word, the null pointer is 0.  What the source
  does by failing an assertion, calling \<open>abort()\<close> or dereferencing a null or dangling pointer is a
  value of \<open>fault\<close>; a loop whose end the code does not guarantee takes fuel and ends in
  \<open>Out_of_fuel\<close>.
\<close>

named_theorems zab_defs \<open>definitions that the component proofs unfold\<close>
named_theorems zab_inv \<open>preservation of the component invariants\<close>

unbundle bit_operations_syntax

section \<open>Outcomes\<close>

type_synonym addr = "64 word"
type_synonym u16 = "16 word"
type_synonym u64 = "64 word"

abbreviation (input) null :: addr where "null \<equiv> 0"

datatype fault =
    Assertion_failed
  | Aborted
  | Null_dereference
  | Bad_address
  | Uncaught_bad_access
  | Division_by_zero
  | Out_of_fuel

type_synonym 'a outcome = "fault + 'a"

fun bind_outcome :: "'a outcome \<Rightarrow> ('a \<Rightarrow> 'b outcome) \<Rightarrow> 'b outcome" where
  "bind_outcome (Inl e) f = Inl e"
| "bind_outcome (Inr x) f = f x"

definition ok :: "'a outcome \<Rightarrow> bool" where
  "ok r \<longleftrightarrow> (case r of Inl _ \<Rightarrow> False | Inr _ \<Rightarrow> True)"

lemma ok_simps [simp]: "\<not> ok (Inl e)" "ok (Inr x)"
  by (simp_all add: ok_def)

lemma ok_iff: "ok r \<longleftrightarrow> (\<exists>x. r = Inr x)"
  by (cases r) simp_all

lemma bind_outcome_eq_Inr [simp]:
  "bind_outcome r f = Inr y \<longleftrightarrow> (\<exists>x. r = Inr x \<and> f x = Inr y)"
  by (cases r) simp_all

lemma bind_outcome_assoc:
  "bind_outcome (bind_outcome r f) g = bind_outcome r (\<lambda>x. bind_outcome (f x) g)"
  by (cases r) simp_all

lemma bind_outcome_cong [fundef_cong]:
  "r = r' \<Longrightarrow> (\<And>x. r' = Inr x \<Longrightarrow> f x = g x) \<Longrightarrow> bind_outcome r f = bind_outcome r' g"
  by (cases r') simp_all

text \<open>The effect of a loop that performs one fallible call per element, in order.\<close>

fun fold_outcome :: "('a \<Rightarrow> 's \<Rightarrow> 's outcome) \<Rightarrow> 'a list \<Rightarrow> 's \<Rightarrow> 's outcome" where
  "fold_outcome f [] s = Inr s"
| "fold_outcome f (x # xs) s = bind_outcome (f x s) (fold_outcome f xs)"

lemma fold_outcome_append:
  "fold_outcome f (xs @ ys) s = bind_outcome (fold_outcome f xs s) (fold_outcome f ys)"
  by (induction xs arbitrary: s) (simp_all add: bind_outcome_assoc cong: bind_outcome_cong)

lemma fold_outcome_invariant:
  assumes "\<And>x s s'. x \<in> set xs \<Longrightarrow> P s \<Longrightarrow> f x s = Inr s' \<Longrightarrow> P s'"
    and "P s" and "fold_outcome f xs s = Inr s'"
  shows "P s'"
  using assms
proof (induction xs arbitrary: s)
  case (Cons x xs)
  then obtain t where "f x s = Inr t" and "fold_outcome f xs t = Inr s'" by auto
  with Cons show ?case by (metis list.set_intros)
qed simp

fun map_outcome :: "('a \<Rightarrow> 'b outcome) \<Rightarrow> 'a list \<Rightarrow> 'b list outcome" where
  "map_outcome f [] = Inr []"
| "map_outcome f (x # xs) =
     bind_outcome (f x) (\<lambda>y. bind_outcome (map_outcome f xs) (\<lambda>ys. Inr (y # ys)))"

lemma length_map_outcome: "map_outcome f xs = Inr ys \<Longrightarrow> length ys = length xs"
  by (induction xs arbitrary: ys) auto

lemma map_outcome_nth:
  "map_outcome f xs = Inr ys \<Longrightarrow> i < length xs \<Longrightarrow> f (xs ! i) = Inr (ys ! i)"
  by (induction xs arbitrary: ys i) (auto simp: nth_Cons split: nat.splits)

section \<open>Lists of queues\<close>

lemma mset_concat_update:
  "i < length xs \<Longrightarrow>
   mset (concat (map f (xs[i := y]))) + mset (f (xs ! i)) = mset (concat (map f xs)) + mset (f y)"
  by (induction xs arbitrary: i) (auto split: nat.splits simp: ac_simps)

section \<open>Intrusive linked lists\<close>

text \<open>
  The lock-free structures link their waiters through a next field.  \<open>chain nx p xs q\<close> says that
  following \<open>nx\<close> from \<open>p\<close> visits the nodes \<open>xs\<close> and ends at \<open>q\<close>, the terminator
  the structure uses (null, or a flag value); no node of the chain is the terminator.
\<close>

fun chain :: "(addr \<Rightarrow> addr option) \<Rightarrow> addr \<Rightarrow> addr list \<Rightarrow> addr \<Rightarrow> bool" where
  "chain nx p [] q \<longleftrightarrow> p = q"
| "chain nx p (a # as) q \<longleftrightarrow>
     p = a \<and> a \<noteq> q \<and> (case nx a of None \<Rightarrow> False | Some r \<Rightarrow> chain nx r as q)"

declare chain.simps(2) [simp del]

lemma chain_Cons [simp]:
  "chain nx p (a # as) q \<longleftrightarrow> p = a \<and> a \<noteq> q \<and> (\<exists>r. nx a = Some r \<and> chain nx r as q)"
  by (auto simp: chain.simps split: option.splits)

lemma chain_at_end [simp]: "chain nx q xs q \<longleftrightarrow> xs = []"
  by (cases xs) auto

lemma chain_not_end: "chain nx p xs q \<Longrightarrow> q \<notin> set xs"
  by (induction xs arbitrary: p) (auto split: option.splits)

lemma chain_upd_other [simp]:
  "a \<notin> set xs \<Longrightarrow> chain (nx(a := v)) p xs q = chain nx p xs q"
  by (induction xs arbitrary: p) (auto split: option.splits)

lemma chain_push:
  "chain nx p xs q \<Longrightarrow> a \<notin> set xs \<Longrightarrow> a \<noteq> q \<Longrightarrow> chain (nx(a := Some p)) a (a # xs) q"
  by simp

lemma chain_cong:
  "(\<And>a. a \<in> set xs \<Longrightarrow> nx a = ny a) \<Longrightarrow> chain nx p xs q = chain ny p xs q"
  by (induction xs arbitrary: p) auto

lemma chain_unique:
  "chain nx p xs q \<Longrightarrow> chain nx p ys q \<Longrightarrow> xs = ys"
proof (induction xs arbitrary: p ys)
  case Nil
  then show ?case by simp
next
  case (Cons a xs)
  then show ?case by (cases ys) (auto split: option.splits)
qed

lemma chain_append_suffix:
  "chain nx p (xs @ ys) q \<Longrightarrow> \<exists>r. chain nx r ys q"
  by (induction xs arbitrary: p) (auto split: option.splits)

lemma chain_distinct: "chain nx p xs q \<Longrightarrow> distinct xs"
proof (induction xs arbitrary: p)
  case (Cons a xs)
  then obtain r where r: "nx a = Some r" "chain nx r xs q"
    by (auto split: option.splits)
  have "a \<notin> set xs"
  proof
    assume "a \<in> set xs"
    then obtain us vs where xs: "xs = us @ a # vs" by (meson split_list)
    with r(2) obtain r' where "chain nx r' (a # vs) q"
      using chain_append_suffix by blast
    then have "chain nx r vs q" using r(1) by simp
    with r(2) have "xs = vs" by (rule chain_unique)
    with xs show False by simp
  qed
  with Cons r show ?case by auto
qed simp

section \<open>Collections without repetition\<close>

definition once :: "'a multiset \<Rightarrow> bool" where
  "once M \<longleftrightarrow> (\<forall>a. count M a \<le> 1)"

lemma once_empty [simp]: "once {#}"
  by (simp add: once_def)

lemma once_add_mset [simp]: "once (add_mset a M) \<longleftrightarrow> a \<notin># M \<and> once M"
proof
  assume o: "once (add_mset a M)"
  then have "count (add_mset a M) a \<le> 1" unfolding once_def by blast
  then have "a \<notin># M" by (simp add: not_in_iff)
  moreover have "count M b \<le> 1" for b
  proof -
    have "count (add_mset a M) b \<le> 1" using o unfolding once_def by blast
    then show ?thesis by (simp split: if_splits)
  qed
  ultimately show "a \<notin># M \<and> once M" by (simp add: once_def)
next
  assume "a \<notin># M \<and> once M"
  then show "once (add_mset a M)" by (auto simp: once_def not_in_iff)
qed

lemma once_unionD: "once (M + N) \<Longrightarrow> once M" "once (M + N) \<Longrightarrow> once N"
  unfolding once_def by (metis add_leD1 count_union, metis add_leD2 count_union)

lemma once_union_disjoint: "once (M + N) \<Longrightarrow> a \<in># M \<Longrightarrow> a \<notin># N"
proof
  assume "once (M + N)" "a \<in># M" "a \<in># N"
  then have "count (M + N) a \<le> 1" "0 < count M a" "0 < count N a"
    by (auto simp: once_def)
  then show False by simp
qed

section \<open>Association lists sorted by key\<close>

text \<open>
  \<open>std::map\<close> iterates in ascending key order; it is modelled by an association list with strictly
  ascending keys.
\<close>

abbreviation keys_of :: "('k \<times> 'v) list \<Rightarrow> 'k list" where
  "keys_of m \<equiv> map fst m"

abbreviation ascending :: "('k::linorder \<times> 'v) list \<Rightarrow> bool" where
  "ascending m \<equiv> sorted_wrt (<) (keys_of m)"

fun insert_key :: "'k::linorder \<Rightarrow> 'v \<Rightarrow> ('k \<times> 'v) list \<Rightarrow> ('k \<times> 'v) list" where
  "insert_key k v [] = [(k, v)]"
| "insert_key k v ((l, w) # m) =
     (if k < l then (k, v) # (l, w) # m
      else if k = l then (l, w) # m
      else (l, w) # insert_key k v m)"

fun update_key :: "'k \<Rightarrow> ('v \<Rightarrow> 'v) \<Rightarrow> ('k \<times> 'v) list \<Rightarrow> ('k \<times> 'v) list" where
  "update_key k f [] = []"
| "update_key k f ((l, w) # m) = (if k = l then (l, f w) # m else (l, w) # update_key k f m)"

lemma set_keys_insert_key [simp]: "set (keys_of (insert_key k v m)) = insert k (set (keys_of m))"
  by (induction m rule: insert_key.induct) auto

lemma keys_update_key [simp]: "keys_of (update_key k f m) = keys_of m"
  by (induction m) auto

lemma ascending_insert_key: "ascending m \<Longrightarrow> ascending (insert_key k v m)"
  by (induction m rule: insert_key.induct)
    (auto simp del: set_map simp flip: set_map simp: set_keys_insert_key)

lemma insert_key_not_Nil [simp]: "insert_key k v m \<noteq> []"
  by (cases m) (auto split: if_splits)

lemma map_of_insert_key:
  "map_of m k = None \<Longrightarrow> map_of (insert_key k v m) = (map_of m)(k \<mapsto> v)"
  by (induction m) (auto simp: fun_eq_iff split: if_splits)

lemma map_of_update_key:
  "map_of (update_key k f m) = (\<lambda>x. if x = k then map_option f (map_of m k) else map_of m x)"
  by (induction m) auto

lemma mset_insert_key:
  "map_of m k = None \<Longrightarrow> mset (insert_key k v m) = add_mset (k, v) (mset m)"
  by (induction m) (auto split: if_splits)

lemma insert_key_smallest:
  "ascending m \<Longrightarrow> (\<forall>l \<in> set (keys_of m). k < l) \<Longrightarrow> insert_key k v m = (k, v) # m"
  by (cases m) auto

lemma insert_key_head:
  "map_of m k = None \<Longrightarrow>
   fst (hd (insert_key k v m)) = (if m = [] \<or> k < fst (hd m) then k else fst (hd m))"
  by (cases m) (auto split: if_splits)

section \<open>Words\<close>

lemma unat_add_no_wrap:
  fixes a b :: "'a::len word"
  assumes "unat a + unat b < 2 ^ LENGTH('a)"
  shows "unat (a + b) = unat a + unat b"
  using assms by (simp add: unat_word_ariths)

lemma unat_sub_le:
  fixes a b :: "'a::len word"
  assumes "b \<le> a"
  shows "unat (a - b) = unat a - unat b"
  using assms by (rule unat_sub)

end
