(* ===== verification/Strong_Types.thy ===== *)
theory Strong_Types
  imports Zab_Prelude
begin

text \<open>
  \<open>includes/zab/strong_types.hpp\<close>: the thread ids (\<open>thread_t\<close>, a 16 bit id with the
  reserved value \<open>kAnyThread\<close>) and the relative delays (\<open>order_t\<close>, nanoseconds in 64 bits).
  The three-way comparisons of the source are the \<open>linorder\<close> instances; the arithmetic of
  \<open>order_t\<close> wraps at 64 bits as \<open>std::uint64_t\<close> does.
\<close>

section \<open>Thread ids\<close>

text \<open>The result of a three-way comparison.\<close>

datatype strong_ordering = Less | Equal | Greater

definition three_way :: "'a::linorder \<Rightarrow> 'a \<Rightarrow> strong_ordering" where
  "three_way a b = (if a < b then Less else if a = b then Equal else Greater)"

datatype thread_t = Thread_t (thread_id: u16)

definition kAnyThread :: u16 where
  "kAnyThread = 65535 - 1"

definition any_thread :: thread_t where
  "any_thread = Thread_t kAnyThread"

definition thread_in :: "u16 \<Rightarrow> thread_t" where
  "thread_in t = Thread_t t"

definition thread_any :: thread_t where
  "thread_any = Thread_t kAnyThread"

definition thread_eq_integral :: "thread_t \<Rightarrow> int \<Rightarrow> bool" where
  "thread_eq_integral t n \<longleftrightarrow> uint (thread_id t) = n"

definition thread_compare_integral :: "thread_t \<Rightarrow> int \<Rightarrow> strong_ordering" where
  "thread_compare_integral t n = three_way (uint (thread_id t)) n"

definition thread_less_integral :: "thread_t \<Rightarrow> int \<Rightarrow> bool" where
  "thread_less_integral t n \<longleftrightarrow> thread_compare_integral t n = Less"

definition thread_compare :: "thread_t \<Rightarrow> thread_t \<Rightarrow> strong_ordering" where
  "thread_compare a b = three_way (thread_id a) (thread_id b)"

lemma three_way_simps [simp]:
  "three_way a b = Less \<longleftrightarrow> a < b"
  "three_way a b = Equal \<longleftrightarrow> a = b"
  "three_way a b = Greater \<longleftrightarrow> b < a"
  by (auto simp: three_way_def)

instantiation thread_t :: linorder
begin

definition less_eq_thread_t :: "thread_t \<Rightarrow> thread_t \<Rightarrow> bool" where
  "less_eq_thread_t a b \<longleftrightarrow> thread_compare a b \<noteq> Greater"

definition less_thread_t :: "thread_t \<Rightarrow> thread_t \<Rightarrow> bool" where
  "less_thread_t a b \<longleftrightarrow> thread_compare a b = Less"

instance
  by standard (auto simp: less_eq_thread_t_def less_thread_t_def thread_compare_def thread_t.expand)

end

lemma kAnyThread_value [simp]: "unat kAnyThread = 65534"
  by (simp add: kAnyThread_def)

lemma thread_any_is_any_thread: "thread_any = any_thread"
  by (simp add: thread_any_def any_thread_def)

lemma thread_less_integral_nat:
  "thread_less_integral t (int n) \<longleftrightarrow> unat (thread_id t) < n"
  by (simp only: thread_less_integral_def thread_compare_integral_def three_way_simps uint_nat of_nat_less_iff)

section \<open>Delays\<close>

datatype order_t = Order_t (order_ns: u64)

definition order_compare :: "order_t \<Rightarrow> order_t \<Rightarrow> strong_ordering" where
  "order_compare a b = three_way (order_ns a) (order_ns b)"

definition order_compare_integral :: "order_t \<Rightarrow> u64 \<Rightarrow> strong_ordering" where
  "order_compare_integral a n = three_way (order_ns a) n"

definition order_add :: "order_t \<Rightarrow> order_t \<Rightarrow> order_t" where
  "order_add a b = Order_t (order_ns a + order_ns b)"

definition order_sub :: "order_t \<Rightarrow> order_t \<Rightarrow> order_t" where
  "order_sub a b = Order_t (order_ns a - order_ns b)"

instantiation order_t :: "{plus, minus, linorder}"
begin

definition plus_order_t :: "order_t \<Rightarrow> order_t \<Rightarrow> order_t" where
  "plus_order_t a b = order_add a b"

definition minus_order_t :: "order_t \<Rightarrow> order_t \<Rightarrow> order_t" where
  "minus_order_t a b = order_sub a b"

definition less_eq_order_t :: "order_t \<Rightarrow> order_t \<Rightarrow> bool" where
  "less_eq_order_t a b \<longleftrightarrow> order_compare a b \<noteq> Greater"

definition less_order_t :: "order_t \<Rightarrow> order_t \<Rightarrow> bool" where
  "less_order_t a b \<longleftrightarrow> order_compare a b = Less"

instance
  by standard (auto simp: less_eq_order_t_def less_order_t_def order_compare_def order_t.expand)

end

definition seconds :: "u64 \<Rightarrow> order_t" where
  "seconds n = Order_t (n * 1000000000)"

definition in_seconds :: "u64 \<Rightarrow> order_t" where
  "in_seconds n = seconds n"

definition milli :: "u64 \<Rightarrow> order_t" where
  "milli n = Order_t (n * 1000000)"

definition in_milli :: "u64 \<Rightarrow> order_t" where
  "in_milli n = milli n"

definition now :: order_t where
  "now = Order_t 0"

lemma seconds_exact:
  assumes "unat n * 1000000000 < 2 ^ 64"
  shows "unat (order_ns (in_seconds n)) = unat n * 1000000000"
  using assms by (simp add: in_seconds_def seconds_def unat_word_ariths)

lemma milli_exact:
  assumes "unat n * 1000000 < 2 ^ 64"
  shows "unat (order_ns (in_milli n)) = unat n * 1000000"
  using assms by (simp add: in_milli_def milli_def unat_word_ariths)

text \<open>A number of seconds or milliseconds is converted to nanoseconds exactly as long as the result fits in
  64 bits, that is up to 18446744073 seconds (about 584 years); beyond it the delay wraps around.\<close>

theorem delay_conversion_bounds:
  "(unat (order_ns (in_seconds n)) = unat n * 1000000000 \<longleftrightarrow> unat n \<le> 18446744073) \<and>
   (unat (order_ns (in_milli n)) = unat n * 1000000 \<longleftrightarrow> unat n \<le> 18446744073709)"
proof -
  have "unat (order_ns (in_seconds n)) < 2 ^ 64" and "unat (order_ns (in_milli n)) < 2 ^ 64"
    using unsigned_less [of "order_ns (in_seconds n)"] unsigned_less [of "order_ns (in_milli n)"] by auto
  then show ?thesis using seconds_exact [of n] milli_exact [of n] by auto
qed

lemma order_sub_add_cancel: "(a + b) - b = (a :: order_t)"
  by (cases a) (simp add: plus_order_t_def minus_order_t_def order_add_def order_sub_def)

end
