(* ===== verification/Events.thy ===== *)
theory Events
  imports Strong_Types
begin

text \<open>
  \<open>includes/zab/event.hpp\<close>: the two ways the library continues a computation, a C style
  callback with a context pointer (\<open>event\<close>) or a coroutine handle, their union
  \<open>tagged_event\<close>, and the events that carry a result (\<open>storage_event\<close>).

  Running foreign code is recorded as an \<open>action\<close>: \<open>Call f p\<close> is the call of the function
  pointer \<open>f\<close> on the context \<open>p\<close>, \<open>Resume h\<close> the resumption of the coroutine
  \<open>h\<close>.  The one callback the library itself makes, the lambda of
  \<open>create_generic_event(std::coroutine_handle<>)\<close>, is \<open>Cb_resume_coroutine\<close>; resuming through
  it does not test the handle for null.
\<close>

section \<open>Events and their execution\<close>

type_synonym coro = addr

datatype callback = Cb_resume_coroutine | Cb_user nat

record event =
  cb :: callback
  ctx :: addr

datatype tagged_event = Event_alt event | Coroutine_alt coro

datatype action = Call nat addr | Resume coro

definition is_coroutine :: "tagged_event \<Rightarrow> bool" where
  "is_coroutine e = (case e of Event_alt _ \<Rightarrow> False | Coroutine_alt _ \<Rightarrow> True)"

fun call_back :: "callback \<Rightarrow> addr \<Rightarrow> action list outcome" where
  "call_back Cb_resume_coroutine p = (if p = null then Inl Null_dereference else Inr [Resume p])"
| "call_back (Cb_user f) p = Inr [Call f p]"

definition execute_callback :: "event \<Rightarrow> action list outcome" where
  "execute_callback e = call_back (cb e) (ctx e)"

definition execute_coroutine :: "coro \<Rightarrow> action list outcome" where
  "execute_coroutine h = Inr (if h \<noteq> null then [Resume h] else [])"

fun execute_event :: "tagged_event \<Rightarrow> action list outcome" where
  "execute_event (Event_alt e) = execute_callback e"
| "execute_event (Coroutine_alt h) = execute_coroutine h"

definition create_generic_event :: "coro \<Rightarrow> event" where
  "create_generic_event h = \<lparr>cb = Cb_resume_coroutine, ctx = h\<rparr>"

fun get_event :: "tagged_event \<Rightarrow> event" where
  "get_event (Event_alt e) = e"
| "get_event (Coroutine_alt h) = create_generic_event h"

abbreviation resume_event :: "coro \<Rightarrow> tagged_event" where
  "resume_event h \<equiv> Event_alt (create_generic_event h)"

lemmas event_defs [zab_defs] =
  execute_callback_def execute_coroutine_def create_generic_event_def is_coroutine_def

lemma execute_resume_event [simp]:
  "execute_event (resume_event h) = (if h = null then Inl Null_dereference else Inr [Resume h])"
  by (simp add: event_defs)

lemma resume_event_inject [simp]: "resume_event h = resume_event h' \<longleftrightarrow> h = h'"
  by (simp add: event_defs)

lemma get_event_same_effect:
  assumes "e \<noteq> Coroutine_alt null"
  shows "execute_event (Event_alt (get_event e)) = execute_event e"
  using assms by (cases e) (simp_all add: event_defs)

section \<open>Events that carry a result\<close>

record 'r storage_event =
  handle :: tagged_event
  result :: 'r

text \<open>The callback of \<open>create_generic_event(storage_event<EventType>*)\<close>, run on the storage it
  was created for: it stores the result and executes the stored handle.\<close>

definition storage_callback ::
    "'r storage_event \<Rightarrow> 'r \<Rightarrow> ('r storage_event \<times> action list) outcome" where
  "storage_callback ce et =
     (let ce' = ce\<lparr>result := et\<rparr>
      in bind_outcome (execute_event (handle ce')) (\<lambda>acts. Inr (ce', acts)))"

lemma storage_callback_stores:
  "storage_callback ce et = Inr (ce', acts) \<Longrightarrow>
   result ce' = et \<and> handle ce' = handle ce \<and> execute_event (handle ce) = Inr acts"
  by (auto simp: storage_callback_def Let_def)

end
