(* ===== verification/Event_Loop.thy ===== *)
theory Event_Loop
  imports Events
begin

text \<open>
  \<open>includes/zab/event_loop.hpp\<close> and \<open>src/event_loop.cpp\<close>: one event loop, that is an
  io_uring with the operations that prepare requests on it, the awaitable forms of these
  operations, the completion loop \<open>run\<close>, and the user space queue with its eventfd
  (\<open>dispatch_user_event\<close>, \<open>wake\<close>, \<open>run_user_space\<close>).

  liburing, the kernel and the eventfd are not part of the repository.  What they answer is an
  input of the model: whether \<open>io_uring_get_sqe\<close> finds a free entry (an argument of every
  operation), the completions that arrive (\<open>cq\<close>), the value \<open>::write\<close> returns on the
  eventfd (the field \<open>efd_write_result\<close>).  \<open>wakes\<close> counts the wake-ups written to the
  eventfd and not yet read.
\<close>

section \<open>State\<close>

type_synonym io_event = "int storage_event"
type_synonym buffer = "addr \<times> u64"

datatype uring_op =
    Prep_openat int string int int
  | Prep_close int
  | Prep_read int buffer int
  | Prep_readv int addr int int
  | Prep_read_fixed int buffer int int
  | Prep_write int buffer int
  | Prep_writev int addr int int
  | Prep_write_fixed int buffer int int
  | Prep_recv int buffer int
  | Prep_send int buffer int
  | Prep_accept int addr addr int
  | Prep_connect int addr int
  | Prep_cancel addr

record event_loop =
  sq :: "(uring_op \<times> addr) list"
  submitted :: "(uring_op \<times> addr) list"
  cq :: "(addr \<times> int) list"
  write_handles :: "tagged_event list"
  read_handles :: "tagged_event list"
  loop_size :: u64
  user_space_event_fd :: int
  efd_write_result :: int
  wakes :: nat
  use_space_handle :: addr
  ring_fd :: int
  attached_wq :: "int option"

text \<open>An event loop together with the memory its requests refer to: the \<open>io_event\<close> objects
  (they live in the awaiting coroutine frames), the \<open>cancelation_token\<close> variables the callers
  pass by address, and the record of what has been executed.\<close>

record io_state =
  loop :: event_loop
  ios :: "addr \<rightharpoonup> io_event"
  tokens :: "addr \<rightharpoonup> addr"
  executed :: "action list"

definition kQueueSize :: nat where
  "kQueueSize = 4096"

definition init_event_loop :: "int \<Rightarrow> int option \<Rightarrow> int \<Rightarrow> int \<Rightarrow> event_loop" where
  "init_event_loop ring wq efd write_rc =
     \<lparr>sq = [], submitted = [], cq = [], write_handles = [], read_handles = [], loop_size = 0,
      user_space_event_fd = efd, efd_write_result = write_rc, wakes = 0, use_space_handle = null,
      ring_fd = ring, attached_wq = wq\<rparr>"

text \<open>\<open>initialise\<close>: both system calls must succeed, otherwise the process aborts.  The second
  form shares the worker pool of another ring.\<close>

definition initialise :: "int \<Rightarrow> int \<Rightarrow> int \<Rightarrow> int \<Rightarrow> event_loop outcome" where
  "initialise uring_rc ring efd write_rc =
     (if uring_rc < 0 then Inl Aborted
      else if efd < 0 then Inl Aborted
      else Inr (init_event_loop ring None efd write_rc))"

definition initialise_shared :: "int \<Rightarrow> int \<Rightarrow> int \<Rightarrow> int \<Rightarrow> int \<Rightarrow> event_loop outcome" where
  "initialise_shared io_fd_arg uring_rc ring efd write_rc =
     (if uring_rc < 0 then Inl Aborted
      else if efd < 0 then Inl Aborted
      else Inr (init_event_loop ring (Some io_fd_arg) efd write_rc))"

definition io_fd :: "event_loop \<Rightarrow> int" where
  "io_fd l = ring_fd l"

section \<open>Preparing requests\<close>

definition ENOENT :: int where "ENOENT = 2"
definition ENOMEM :: int where "ENOMEM = 12"
definition EALREADY :: int where "EALREADY = 114"

definition run_handle :: "tagged_event \<Rightarrow> io_state \<Rightarrow> io_state outcome" where
  "run_handle e s =
     bind_outcome (execute_event e) (\<lambda>acts. Inr (s\<lparr>executed := executed s @ acts\<rparr>))"

text \<open>Both \<open>do_op_impl\<close> and \<open>cancel_event\<close> on a full submission queue: report
  \<open>-ENOMEM\<close> through the token and execute its handle at once.\<close>

definition fail_no_sqe :: "addr \<Rightarrow> io_state \<Rightarrow> io_state outcome" where
  "fail_no_sqe tok s =
     (if tok = null then Inl Null_dereference
      else case ios s tok of
        None \<Rightarrow> Inl Bad_address
      | Some ev \<Rightarrow>
          run_handle (handle ev) (s\<lparr>ios := (ios s)(tok \<mapsto> ev\<lparr>result := - ENOMEM\<rparr>)\<rparr>))"

definition do_op_impl :: "bool \<Rightarrow> addr \<Rightarrow> uring_op \<Rightarrow> io_state \<Rightarrow> io_state outcome" where
  "do_op_impl sqe tok op s =
     (if sqe then Inr (s\<lparr>loop := (loop s)\<lparr>sq := sq (loop s) @ [(op, tok)]\<rparr>\<rparr>)
      else fail_no_sqe tok s)"

definition submit_pending_events :: "event_loop \<Rightarrow> event_loop" where
  "submit_pending_events l = l\<lparr>submitted := submitted l @ sq l, sq := []\<rparr>"

definition open_at :: "bool \<Rightarrow> addr \<Rightarrow> int \<Rightarrow> string \<Rightarrow> int \<Rightarrow> int \<Rightarrow> io_state \<Rightarrow> io_state outcome" where
  "open_at sqe tok dfd path flags mode s = do_op_impl sqe tok (Prep_openat dfd path flags mode) s"

definition close :: "bool \<Rightarrow> addr \<Rightarrow> int \<Rightarrow> io_state \<Rightarrow> io_state outcome" where
  "close sqe tok fd s = do_op_impl sqe tok (Prep_close fd) s"

definition read_op :: "bool \<Rightarrow> addr \<Rightarrow> int \<Rightarrow> buffer \<Rightarrow> int \<Rightarrow> io_state \<Rightarrow> io_state outcome" where
  "read_op sqe tok fd buf off s = do_op_impl sqe tok (Prep_read fd buf off) s"

definition read_v :: "bool \<Rightarrow> addr \<Rightarrow> int \<Rightarrow> addr \<Rightarrow> int \<Rightarrow> int \<Rightarrow> io_state \<Rightarrow> io_state outcome" where
  "read_v sqe tok fd iovecs nr_vecs off s = do_op_impl sqe tok (Prep_readv fd iovecs nr_vecs off) s"

definition fixed_read ::
    "bool \<Rightarrow> addr \<Rightarrow> int \<Rightarrow> buffer \<Rightarrow> int \<Rightarrow> int \<Rightarrow> io_state \<Rightarrow> io_state outcome" where
  "fixed_read sqe tok fd buf off buf_index s =
     do_op_impl sqe tok (Prep_read_fixed fd buf off buf_index) s"

definition write_op :: "bool \<Rightarrow> addr \<Rightarrow> int \<Rightarrow> buffer \<Rightarrow> int \<Rightarrow> io_state \<Rightarrow> io_state outcome" where
  "write_op sqe tok fd buf off s = do_op_impl sqe tok (Prep_write fd buf off) s"

definition write_v :: "bool \<Rightarrow> addr \<Rightarrow> int \<Rightarrow> addr \<Rightarrow> int \<Rightarrow> int \<Rightarrow> io_state \<Rightarrow> io_state outcome" where
  "write_v sqe tok fd iovecs nr_vecs off s = do_op_impl sqe tok (Prep_writev fd iovecs nr_vecs off) s"

definition fixed_write ::
    "bool \<Rightarrow> addr \<Rightarrow> int \<Rightarrow> buffer \<Rightarrow> int \<Rightarrow> int \<Rightarrow> io_state \<Rightarrow> io_state outcome" where
  "fixed_write sqe tok fd buf off buf_index s =
     do_op_impl sqe tok (Prep_write_fixed fd buf off buf_index) s"

definition recv :: "bool \<Rightarrow> addr \<Rightarrow> int \<Rightarrow> buffer \<Rightarrow> int \<Rightarrow> io_state \<Rightarrow> io_state outcome" where
  "recv sqe tok sockfd buf flags s = do_op_impl sqe tok (Prep_recv sockfd buf flags) s"

definition send :: "bool \<Rightarrow> addr \<Rightarrow> int \<Rightarrow> buffer \<Rightarrow> int \<Rightarrow> io_state \<Rightarrow> io_state outcome" where
  "send sqe tok sockfd buf flags s = do_op_impl sqe tok (Prep_send sockfd buf flags) s"

definition accept :: "bool \<Rightarrow> addr \<Rightarrow> int \<Rightarrow> addr \<Rightarrow> addr \<Rightarrow> int \<Rightarrow> io_state \<Rightarrow> io_state outcome" where
  "accept sqe tok fd address addrlen flags s =
     do_op_impl sqe tok (Prep_accept fd address addrlen flags) s"

definition connect :: "bool \<Rightarrow> addr \<Rightarrow> int \<Rightarrow> addr \<Rightarrow> int \<Rightarrow> io_state \<Rightarrow> io_state outcome" where
  "connect sqe tok fd address addrlen s = do_op_impl sqe tok (Prep_connect fd address addrlen) s"

definition cancel_event :: "bool \<Rightarrow> addr \<Rightarrow> addr \<Rightarrow> io_state \<Rightarrow> io_state outcome" where
  "cancel_event sqe tok key s =
     (if \<not> sqe then fail_no_sqe tok s
      else Inr (s\<lparr>loop := (loop s)\<lparr>sq := sq (loop s) @ [(Prep_cancel key, tok)]\<rparr>\<rparr>))"

datatype CancelResult = kDone | kNotFound | kTried | kFailed | kUnknown

definition cancel_code :: "int \<Rightarrow> CancelResult" where
  "cancel_code r =
     (if r = 0 then kDone
      else if r = - ENOENT then kNotFound
      else if r = - EALREADY then kTried
      else if r = - ENOMEM then kFailed
      else kUnknown)"

fun cancel_message :: "CancelResult \<Rightarrow> string" where
  "cancel_message kDone = ''The cancel was complete.''"
| "cancel_message kNotFound = ''Could not find an operation with that io_event*.''"
| "cancel_message kTried = ''We tried, but the operation could not be canceled.''"
| "cancel_message kFailed = ''We could not create the cancel request dues to an error.''"
| "cancel_message kUnknown = ''Something exception and unknown happened.''"

text \<open>The eventfd write that wakes another loop through the ring of \<open>from\<close>; its token is the
  null pointer.\<close>

definition wake_from :: "bool \<Rightarrow> event_loop \<Rightarrow> addr \<Rightarrow> io_state \<Rightarrow> io_state outcome" where
  "wake_from sqe self item from =
     do_op_impl sqe null (Prep_write (user_space_event_fd self) (item, 8) 0) from"

text \<open>The destructor: a user space coroutine that still waits is destroyed through its
  \<open>io_event\<close>, which must hold a coroutine handle.  The destroyed handle is the result.\<close>

definition destroy_event_loop :: "io_state \<Rightarrow> coro option outcome" where
  "destroy_event_loop s =
     (if use_space_handle (loop s) = null then Inr None
      else case ios s (use_space_handle (loop s)) of
        None \<Rightarrow> Inl Bad_address
      | Some ev \<Rightarrow> (case handle ev of Event_alt _ \<Rightarrow> Inl Uncaught_bad_access
                    | Coroutine_alt h \<Rightarrow> Inr (Some h)))"

section \<open>Awaitable operations\<close>

text \<open>The suspend and resume parts that every awaitable operation of the header has: the
  \<open>io_event\<close> of the lambda gets the awaiting handle, the caller's cancel token (when there is
  one) gets its address, and the operation is prepared on it; resuming returns the stored result.\<close>

definition io_suspend ::
    "addr \<Rightarrow> tagged_event \<Rightarrow> addr \<Rightarrow> (io_state \<Rightarrow> io_state outcome) \<Rightarrow> io_state \<Rightarrow> io_state outcome" where
  "io_suspend ret h ct op s =
     (let s1 = s\<lparr>ios := (ios s)(ret \<mapsto> \<lparr>handle = h, result = 0\<rparr>)\<rparr>;
          s2 = (if ct \<noteq> null then s1\<lparr>tokens := (tokens s1)(ct \<mapsto> ret)\<rparr> else s1)
      in op s2)"

definition io_resume :: "addr \<Rightarrow> io_state \<Rightarrow> int outcome" where
  "io_resume ret s = (case ios s ret of None \<Rightarrow> Inl Bad_address | Some ev \<Rightarrow> Inr (result ev))"

definition open_at_await where
  "open_at_await sqe ret h ct dfd path flags mode =
     io_suspend ret h ct (open_at sqe ret dfd path flags mode)"

definition close_await where
  "close_await sqe ret h ct fd = io_suspend ret h ct (close sqe ret fd)"

definition read_await where
  "read_await sqe ret h ct fd buf off = io_suspend ret h ct (read_op sqe ret fd buf off)"

definition fixed_read_await where
  "fixed_read_await sqe ret h ct fd buf off buf_index =
     io_suspend ret h ct (fixed_read sqe ret fd buf off buf_index)"

definition read_v_await where
  "read_v_await sqe ret h ct fd iovecs nr_vecs off =
     io_suspend ret h ct (read_v sqe ret fd iovecs nr_vecs off)"

definition write_await where
  "write_await sqe ret h ct fd buf off = io_suspend ret h ct (write_op sqe ret fd buf off)"

definition fixed_write_await where
  "fixed_write_await sqe ret h ct fd buf off buf_index =
     io_suspend ret h ct (fixed_write sqe ret fd buf off buf_index)"

definition write_v_await where
  "write_v_await sqe ret h ct fd iovecs nr_vecs off =
     io_suspend ret h ct (write_v sqe ret fd iovecs nr_vecs off)"

definition recv_await where
  "recv_await sqe ret h ct sockfd buf flags = io_suspend ret h ct (recv sqe ret sockfd buf flags)"

definition send_await where
  "send_await sqe ret h ct sockfd buf flags = io_suspend ret h ct (send sqe ret sockfd buf flags)"

definition accept_await where
  "accept_await sqe ret h ct sockfd address addrlen flags =
     io_suspend ret h ct (accept sqe ret sockfd address addrlen flags)"

definition connect_await where
  "connect_await sqe ret h ct sockfd address addrlen =
     io_suspend ret h ct (connect sqe ret sockfd address addrlen)"

text \<open>The cancel awaitable takes no cancel token, and its result is the \<open>CancelResult\<close>.\<close>

definition cancel_event_await where
  "cancel_event_await sqe ret h key = io_suspend ret h null (cancel_event sqe ret key)"

definition cancel_event_resume :: "addr \<Rightarrow> io_state \<Rightarrow> CancelResult outcome" where
  "cancel_event_resume ret s = bind_outcome (io_resume ret s) (\<lambda>r. Inr (cancel_code r))"

lemmas io_op_defs [zab_defs] =
  open_at_def close_def read_op_def read_v_def fixed_read_def write_op_def write_v_def
  fixed_write_def recv_def send_def accept_def connect_def

lemmas io_await_defs [zab_defs] =
  open_at_await_def close_await_def read_await_def fixed_read_await_def read_v_await_def
  write_await_def fixed_write_await_def write_v_await_def recv_await_def send_await_def
  accept_await_def connect_await_def cancel_event_await_def

section \<open>Completions\<close>

definition kMaxBatch :: nat where
  "kMaxBatch = 16"

text \<open>The first inner loop of \<open>run\<close>: store the result of every completion of the batch in the
  \<open>io_event\<close> its user data points to.\<close>

fun store_results :: "(addr \<times> int) list \<Rightarrow> (addr \<rightharpoonup> io_event) \<Rightarrow> (addr \<rightharpoonup> io_event) outcome" where
  "store_results [] h = Inr h"
| "store_results ((tok, res) # cs) h =
     (if tok = null then Inl Null_dereference
      else case h tok of
        None \<Rightarrow> Inl Bad_address
      | Some ev \<Rightarrow> store_results cs (h(tok \<mapsto> ev\<lparr>result := res\<rparr>)))"

text \<open>The second inner loop: execute the handles.  Executing one runs foreign code, the parameter
  \<open>exec\<close>, which may prepare requests, change the \<open>io_event\<close> objects or cause completions.\<close>

definition resume_token ::
    "(tagged_event \<Rightarrow> io_state \<Rightarrow> io_state outcome) \<Rightarrow> addr \<Rightarrow> io_state \<Rightarrow> io_state outcome" where
  "resume_token exec tok s =
     (case ios s tok of None \<Rightarrow> Inl Bad_address | Some ev \<Rightarrow> exec (handle ev) s)"

definition run_batch ::
    "(tagged_event \<Rightarrow> io_state \<Rightarrow> io_state outcome) \<Rightarrow> io_state \<Rightarrow> io_state outcome" where
  "run_batch exec s =
     (let batch = take kMaxBatch (cq (loop s))
      in bind_outcome (store_results batch (ios s)) (\<lambda>h.
         bind_outcome
           (fold_outcome (resume_token exec) (map fst batch)
              (s\<lparr>ios := h, loop := (loop s)\<lparr>cq := drop kMaxBatch (cq (loop s))\<rparr>\<rparr>)) (\<lambda>s'.
         Inr (s'\<lparr>loop := submit_pending_events (loop s')\<rparr>))))"

fun drain_completions ::
    "(tagged_event \<Rightarrow> io_state \<Rightarrow> io_state outcome) \<Rightarrow> nat \<Rightarrow> io_state \<Rightarrow> io_state outcome" where
  "drain_completions exec 0 s = Inl Out_of_fuel"
| "drain_completions exec (Suc n) s =
     (if cq (loop s) = [] then Inr s
      else bind_outcome (run_batch exec s) (drain_completions exec n))"

text \<open>One turn of the outer loop is what the environment offers: a stop request, a failing
  \<open>io_uring_wait_cqe\<close>, or completions.\<close>

datatype turn = Stop_requested | Wait_failed | Arrived "(addr \<times> int) list"

fun run_turns ::
    "(tagged_event \<Rightarrow> io_state \<Rightarrow> io_state outcome) \<Rightarrow> nat \<Rightarrow> turn list \<Rightarrow> io_state \<Rightarrow> io_state outcome" where
  "run_turns exec n [] s = Inr s"
| "run_turns exec n (Stop_requested # ts) s = Inr s"
| "run_turns exec n (Wait_failed # ts) s = Inr s"
| "run_turns exec n (Arrived cs # ts) s =
     bind_outcome (drain_completions exec n (s\<lparr>loop := (loop s)\<lparr>cq := cq (loop s) @ cs\<rparr>\<rparr>))
       (run_turns exec n ts)"

section \<open>The user space queue\<close>

definition wake :: "event_loop \<Rightarrow> event_loop" where
  "wake l = (if efd_write_result l < 8 then l else l\<lparr>wakes := Suc (wakes l)\<rparr>)"

text \<open>The part of \<open>dispatch_user_event\<close> under the spin lock, and the whole.\<close>

definition dispatch_locked :: "tagged_event \<Rightarrow> event_loop \<Rightarrow> event_loop \<times> bool" where
  "dispatch_locked e l =
     (let hs = write_handles l @ [e]
      in (l\<lparr>write_handles := hs, loop_size := loop_size l + 1\<rparr>, length hs = 1))"

definition dispatch_user_event :: "tagged_event \<Rightarrow> event_loop \<Rightarrow> event_loop" where
  "dispatch_user_event e l =
     (case dispatch_locked e l of (l', notify) \<Rightarrow> if notify then wake l' else l')"

definition event_size :: "event_loop \<Rightarrow> u64" where
  "event_size l = loop_size l"

text \<open>\<open>run_user_space\<close>: the swap under the lock, the loop over the read queue, and what happens
  when the awaited read of the eventfd returns.\<close>

definition swap_handles :: "event_loop \<Rightarrow> event_loop" where
  "swap_handles l =
     l\<lparr>read_handles := write_handles l, write_handles := read_handles l, loop_size := 0\<rparr>"

definition clear_read :: "event_loop \<Rightarrow> event_loop" where
  "clear_read l = l\<lparr>read_handles := []\<rparr>"

definition user_space_continue :: "bool \<Rightarrow> int \<Rightarrow> bool" where
  "user_space_continue stop_requested res = (\<not> res < 0 \<and> res = 8 \<and> \<not> stop_requested)"

datatype us_pc = Us_swap | Us_execute nat | Us_read | Us_done

record us_state =
  us_loop :: event_loop
  us_pc :: us_pc
  pending_notify :: nat
  dispatched :: "tagged_event list"
  ran :: "tagged_event list"

text \<open>The coroutine against any number of dispatching threads.  A dispatch is two steps, the
  insertion under the lock and, when it found the queue empty, the later write to the eventfd; a
  handler that dispatches to its own loop is a dispatch between two execute steps.\<close>

inductive us_step :: "us_state \<Rightarrow> us_state \<Rightarrow> bool" where
  us_dispatch: "dispatch_locked e (us_loop s) = (l, notify) \<Longrightarrow>
     us_step s (s\<lparr>us_loop := l, dispatched := dispatched s @ [e],
                  pending_notify := pending_notify s + (if notify then 1 else 0)\<rparr>)"
| us_notify: "pending_notify s = Suc n \<Longrightarrow>
     us_step s (s\<lparr>us_loop := wake (us_loop s), pending_notify := n\<rparr>)"
| us_swap: "us_pc s = Us_swap \<Longrightarrow>
     us_step s (s\<lparr>us_loop := swap_handles (us_loop s), us_pc := Us_execute 0\<rparr>)"
| us_execute: "us_pc s = Us_execute i \<Longrightarrow> i < length (read_handles (us_loop s)) \<Longrightarrow>
     us_step s (s\<lparr>us_pc := Us_execute (Suc i), ran := ran s @ [read_handles (us_loop s) ! i]\<rparr>)"
| us_clear: "us_pc s = Us_execute i \<Longrightarrow> i = length (read_handles (us_loop s)) \<Longrightarrow>
     us_step s (s\<lparr>us_loop := clear_read (us_loop s), us_pc := Us_read\<rparr>)"
| us_read: "us_pc s = Us_read \<Longrightarrow> 0 < wakes (us_loop s) \<Longrightarrow>
     us_step s (s\<lparr>us_loop := (us_loop s)\<lparr>wakes := 0\<rparr>,
                  us_pc := (if user_space_continue stop 8 then Us_swap else Us_done)\<rparr>)"
| us_read_error: "us_pc s = Us_read \<Longrightarrow> res \<noteq> 8 \<Longrightarrow>
     us_step s (s\<lparr>us_pc := (if user_space_continue stop res then Us_swap else Us_done)\<rparr>)"

definition us_init :: "event_loop \<Rightarrow> us_state" where
  "us_init l = \<lparr>us_loop = l, us_pc = Us_swap, pending_notify = 0, dispatched = write_handles l, ran = []\<rparr>"

inductive us_reachable :: "event_loop \<Rightarrow> us_state \<Rightarrow> bool" for l where
  us_start: "us_reachable l (us_init l)"
| us_next: "us_reachable l s \<Longrightarrow> us_step s t \<Longrightarrow> us_reachable l t"

lemmas user_queue_defs [zab_defs] =
  wake_def dispatch_locked_def swap_handles_def clear_read_def user_space_continue_def

section \<open>Requests and their completion\<close>

text \<open>The operation a request is prepared by.\<close>

fun perform :: "uring_op \<Rightarrow> bool \<Rightarrow> addr \<Rightarrow> io_state \<Rightarrow> io_state outcome" where
  "perform (Prep_openat dfd path flags mode) sqe tok = open_at sqe tok dfd path flags mode"
| "perform (Prep_close fd) sqe tok = close sqe tok fd"
| "perform (Prep_read fd buf off) sqe tok = read_op sqe tok fd buf off"
| "perform (Prep_readv fd v n off) sqe tok = read_v sqe tok fd v n off"
| "perform (Prep_read_fixed fd buf off i) sqe tok = fixed_read sqe tok fd buf off i"
| "perform (Prep_write fd buf off) sqe tok = write_op sqe tok fd buf off"
| "perform (Prep_writev fd v n off) sqe tok = write_v sqe tok fd v n off"
| "perform (Prep_write_fixed fd buf off i) sqe tok = fixed_write sqe tok fd buf off i"
| "perform (Prep_recv fd buf flags) sqe tok = recv sqe tok fd buf flags"
| "perform (Prep_send fd buf flags) sqe tok = send sqe tok fd buf flags"
| "perform (Prep_accept fd a n flags) sqe tok = accept sqe tok fd a n flags"
| "perform (Prep_connect fd a n) sqe tok = connect sqe tok fd a n"
| "perform (Prep_cancel key) sqe tok = cancel_event sqe tok key"

text \<open>What the awaitables rely on: an operation queues exactly its request, tagged with the
  token, or reports the full queue through the token.\<close>

locale io_operation =
  fixes op :: "bool \<Rightarrow> addr \<Rightarrow> io_state \<Rightarrow> io_state outcome"
    and request :: uring_op
  assumes queues: "op True tok s = Inr (s\<lparr>loop := (loop s)\<lparr>sq := sq (loop s) @ [(request, tok)]\<rparr>\<rparr>)"
    and full: "op False tok s = fail_no_sqe tok s"
begin

lemma suspend_queues:
  "\<exists>s'. io_suspend ret h ct (op True ret) s = Inr s' \<and>
     sq (loop s') = sq (loop s) @ [(request, ret)] \<and> cq (loop s') = cq (loop s) \<and>
     submitted (loop s') = submitted (loop s) \<and>
     ios s' = (ios s)(ret \<mapsto> \<lparr>handle = h, result = 0\<rparr>) \<and> executed s' = executed s \<and>
     (ct \<noteq> null \<longrightarrow> tokens s' ct = Some ret)"
  by (simp add: io_suspend_def Let_def queues)

lemma suspend_full:
  assumes "ret \<noteq> null" and "execute_event h = Inr acts"
  shows "\<exists>s'. io_suspend ret h ct (op False ret) s = Inr s' \<and> sq (loop s') = sq (loop s) \<and>
     io_resume ret s' = Inr (- ENOMEM) \<and> executed s' = executed s @ acts"
  using assms
  by (simp add: io_suspend_def Let_def full fail_no_sqe_def run_handle_def io_resume_def)

end

interpretation io: io_operation "perform req" req for req
  by (unfold_locales; cases req) (simp_all add: io_op_defs do_op_impl_def cancel_event_def)

lemma await_is_suspend:
  "open_at_await sqe ret h ct dfd path flags mode =
     io_suspend ret h ct (perform (Prep_openat dfd path flags mode) sqe ret)"
  "close_await sqe ret h ct fd = io_suspend ret h ct (perform (Prep_close fd) sqe ret)"
  "read_await sqe ret h ct fd buf off = io_suspend ret h ct (perform (Prep_read fd buf off) sqe ret)"
  "recv_await sqe ret h ct fd buf flags = io_suspend ret h ct (perform (Prep_recv fd buf flags) sqe ret)"
  "send_await sqe ret h ct fd buf flags = io_suspend ret h ct (perform (Prep_send fd buf flags) sqe ret)"
  "cancel_event_await sqe ret h key = io_suspend ret h null (perform (Prep_cancel key) sqe ret)"
  by (simp_all add: io_await_defs)

text \<open>A completion names an event that exists and can be executed.\<close>

definition completable :: "io_state \<Rightarrow> addr \<Rightarrow> bool" where
  "completable s tok \<longleftrightarrow> tok \<noteq> null \<and>
     (\<exists>ev acts. ios s tok = Some ev \<and> execute_event (handle ev) = Inr acts)"

definition token_actions :: "io_state \<Rightarrow> addr \<Rightarrow> action list" where
  "token_actions s tok =
     (case ios s tok of None \<Rightarrow> []
      | Some ev \<Rightarrow> (case execute_event (handle ev) of Inl _ \<Rightarrow> [] | Inr acts \<Rightarrow> acts))"

definition handles_of :: "(addr \<rightharpoonup> io_event) \<Rightarrow> addr \<rightharpoonup> tagged_event" where
  "handles_of h = (\<lambda>x. map_option handle (h x))"

lemma handles_of_result [simp]:
  "h tok = Some ev \<Longrightarrow> handles_of (h(tok \<mapsto> ev\<lparr>result := res\<rparr>)) = handles_of h"
  by (auto simp: handles_of_def)

lemma same_handles:
  assumes "handles_of (ios t) = handles_of (ios s)"
  shows "completable t = completable s" and "token_actions t = token_actions s"
proof -
  have h: "map_option handle (ios t x) = map_option handle (ios s x)" for x
    using assms by (simp add: handles_of_def fun_eq_iff)
  show "completable t = completable s"
    using h by (auto simp: completable_def fun_eq_iff) (metis (no_types) map_option_eq_Some)+
  show "token_actions t = token_actions s"
  proof
    fix x
    show "token_actions t x = token_actions s x"
      using h [of x] by (auto simp: token_actions_def split: option.splits)
  qed
qed

lemma store_results_total:
  "\<forall>tok \<in> fst ` set cs. tok \<noteq> null \<and> h tok \<noteq> None \<Longrightarrow>
   \<exists>h'. store_results cs h = Inr h' \<and> handles_of h' = handles_of h \<and>
     (\<forall>tok. tok \<notin> fst ` set cs \<longrightarrow> h' tok = h tok) \<and>
     (distinct (map fst cs) \<longrightarrow> (\<forall>(tok, res) \<in> set cs. map_option result (h' tok) = Some res))"
proof (induction cs arbitrary: h)
  case (Cons c cs)
  obtain tok res where c: "c = (tok, res)" by force
  with Cons.prems obtain ev where ev: "tok \<noteq> null" "h tok = Some ev" by auto
  let ?h = "h(tok \<mapsto> ev\<lparr>result := res\<rparr>)"
  from Cons.prems have "\<forall>t \<in> fst ` set cs. t \<noteq> null \<and> ?h t \<noteq> None" by auto
  from Cons.IH [OF this] obtain h' where h': "store_results cs ?h = Inr h'"
    "handles_of h' = handles_of ?h"
    "\<forall>t. t \<notin> fst ` set cs \<longrightarrow> h' t = ?h t"
    "distinct (map fst cs) \<longrightarrow> (\<forall>(t, r) \<in> set cs. map_option result (h' t) = Some r)"
    by blast
  with ev c show ?case by (auto simp: image_iff)
qed simp

lemma resume_tokens_total:
  "\<forall>tok \<in> set toks. completable s tok \<Longrightarrow>
   fold_outcome (resume_token run_handle) toks s =
     Inr (s\<lparr>executed := executed s @ concat (map (token_actions s) toks)\<rparr>)"
proof (induction toks arbitrary: s)
  case (Cons tok toks)
  then obtain ev acts where ev: "ios s tok = Some ev" "execute_event (handle ev) = Inr acts"
    by (auto simp: completable_def)
  let ?s = "s\<lparr>executed := executed s @ acts\<rparr>"
  have same: "completable ?s = completable s" "token_actions ?s = token_actions s"
    by (rule same_handles; simp)+
  from ev have "resume_token run_handle tok s = Inr ?s"
    by (simp add: resume_token_def run_handle_def)
  moreover have "token_actions s tok = acts" using ev by (simp add: token_actions_def)
  ultimately show ?case using Cons same by simp
qed simp

lemma run_batch_total:
  assumes "\<forall>tok \<in> fst ` set (cq (loop s)). completable s tok"
  shows "\<exists>t. run_batch run_handle s = Inr t \<and>
     cq (loop t) = drop kMaxBatch (cq (loop s)) \<and>
     executed t = executed s @ concat (map (token_actions s) (map fst (take kMaxBatch (cq (loop s))))) \<and>
     handles_of (ios t) = handles_of (ios s) \<and>
     sq (loop t) = [] \<and> submitted (loop t) = submitted (loop s) @ sq (loop s) \<and>
     (\<forall>tok. tok \<notin> fst ` set (take kMaxBatch (cq (loop s))) \<longrightarrow> ios t tok = ios s tok) \<and>
     (distinct (map fst (cq (loop s))) \<longrightarrow>
       (\<forall>(tok, res) \<in> set (take kMaxBatch (cq (loop s))). map_option result (ios t tok) = Some res))"
proof -
  let ?b = "take kMaxBatch (cq (loop s))"
  have sub: "fst ` set ?b \<subseteq> fst ` set (cq (loop s))" using set_take_subset by fast
  with assms have "\<forall>tok \<in> fst ` set ?b. tok \<noteq> null \<and> ios s tok \<noteq> None"
    by (fastforce simp: completable_def)
  from store_results_total [OF this] obtain h where h: "store_results ?b (ios s) = Inr h"
    "handles_of h = handles_of (ios s)"
    "\<forall>tok. tok \<notin> fst ` set ?b \<longrightarrow> h tok = ios s tok"
    "distinct (map fst ?b) \<longrightarrow> (\<forall>(tok, res) \<in> set ?b. map_option result (h tok) = Some res)"
    by blast
  let ?s = "s\<lparr>ios := h, loop := (loop s)\<lparr>cq := drop kMaxBatch (cq (loop s))\<rparr>\<rparr>"
  have same: "completable ?s = completable s" "token_actions ?s = token_actions s"
    by (rule same_handles; simp add: h(2))+
  have "\<forall>tok \<in> set (map fst ?b). completable ?s tok"
    using assms sub unfolding same set_map by blast
  from resume_tokens_total [OF this] h show ?thesis
    by (simp add: run_batch_def Let_def same submit_pending_events_def take_map [symmetric])
qed

lemma drain_completions_total:
  assumes "\<forall>tok \<in> fst ` set (cq (loop s)). completable s tok" and "length (cq (loop s)) < n"
  shows "\<exists>t. drain_completions run_handle n s = Inr t \<and> cq (loop t) = [] \<and>
     executed t = executed s @ concat (map (token_actions s) (map fst (cq (loop s))))"
  using assms
proof (induction n arbitrary: s)
  case (Suc n)
  show ?case
  proof (cases "cq (loop s) = []")
    case False
    from run_batch_total [OF Suc.prems(1)] obtain t where t: "run_batch run_handle s = Inr t"
      "cq (loop t) = drop kMaxBatch (cq (loop s))"
      "executed t = executed s @ concat (map (token_actions s) (map fst (take kMaxBatch (cq (loop s)))))"
      "handles_of (ios t) = handles_of (ios s)"
      by blast
    have "fst ` set (cq (loop t)) \<subseteq> fst ` set (cq (loop s))"
      unfolding t(2) using set_drop_subset by fast
    then have c: "\<forall>tok \<in> fst ` set (cq (loop t)). completable t tok"
      using Suc.prems(1) unfolding same_handles(1) [OF t(4)] by blast
    have "length (cq (loop t)) < n"
      using False Suc.prems(2) by (cases "cq (loop s)") (auto simp: t(2) kMaxBatch_def)
    from Suc.IH [OF c this] obtain u where u: "drain_completions run_handle n t = Inr u"
      "cq (loop u) = []"
      "executed u = executed t @ concat (map (token_actions s) (map fst (cq (loop t))))"
      unfolding same_handles(2) [OF t(4)] by blast
    have "map fst (cq (loop s)) =
        map fst (take kMaxBatch (cq (loop s))) @ map fst (drop kMaxBatch (cq (loop s)))"
      by (simp flip: map_append)
    with u t False show ?thesis by (simp flip: map_append concat_append)
  qed simp
qed simp

section \<open>Invariant of the user space queue\<close>

definition us_unread :: "us_state \<Rightarrow> tagged_event list" where
  "us_unread s = (case us_pc s of Us_execute i \<Rightarrow> drop i (read_handles (us_loop s)) | _ \<Rightarrow> [])"

definition us_queue_inv :: "us_state \<Rightarrow> bool" where
  "us_queue_inv s \<longleftrightarrow>
     loop_size (us_loop s) = of_nat (length (write_handles (us_loop s))) \<and>
     (case us_pc s of Us_execute i \<Rightarrow> i \<le> length (read_handles (us_loop s))
      | _ \<Rightarrow> read_handles (us_loop s) = []) \<and>
     dispatched s = ran s @ us_unread s @ write_handles (us_loop s)"

definition us_wake_inv :: "us_state \<Rightarrow> bool" where
  "us_wake_inv s \<longleftrightarrow>
     efd_write_result (us_loop s) = 8 \<and>
     (write_handles (us_loop s) \<noteq> [] \<longrightarrow>
        us_pc s = Us_swap \<or> us_pc s = Us_done \<or> 0 < pending_notify s \<or> 0 < wakes (us_loop s))"

definition loop_wf :: "event_loop \<Rightarrow> bool" where
  "loop_wf l \<longleftrightarrow> read_handles l = [] \<and> loop_size l = of_nat (length (write_handles l))"

lemma us_step_queue_inv [zab_inv]: "us_step s t \<Longrightarrow> us_queue_inv s \<Longrightarrow> us_queue_inv t"
proof (induction rule: us_step.induct)
  case (us_dispatch e s l notify)
  then show ?case
    by (auto simp: us_queue_inv_def us_unread_def user_queue_defs Let_def split: us_pc.splits)
next
  case (us_notify s n)
  then show ?case
    by (auto simp: us_queue_inv_def us_unread_def user_queue_defs split: us_pc.splits)
next
  case (us_execute s i)
  then show ?case by (auto simp: us_queue_inv_def us_unread_def Cons_nth_drop_Suc)
qed (auto simp: us_queue_inv_def us_unread_def user_queue_defs)

lemma us_step_wake_inv [zab_inv]: "us_step s t \<Longrightarrow> us_wake_inv s \<Longrightarrow> us_queue_inv s \<Longrightarrow> us_wake_inv t"
  by (induction rule: us_step.induct)
    (auto simp: us_wake_inv_def us_queue_inv_def user_queue_defs Let_def split: if_splits)

lemma us_init_inv: "loop_wf l \<Longrightarrow> us_queue_inv (us_init l)"
  by (simp add: loop_wf_def us_queue_inv_def us_init_def us_unread_def)

lemma us_reachable_queue_inv: "us_reachable l s \<Longrightarrow> loop_wf l \<Longrightarrow> us_queue_inv s"
  by (induction rule: us_reachable.induct) (auto intro: us_init_inv us_step_queue_inv)

lemma us_reachable_wake_inv:
  "us_reachable l s \<Longrightarrow> loop_wf l \<Longrightarrow> efd_write_result l = 8 \<Longrightarrow> us_wake_inv s"
proof (induction rule: us_reachable.induct)
  case us_start
  then show ?case by (simp add: us_wake_inv_def us_init_def)
next
  case (us_next s t)
  then show ?case using us_step_wake_inv us_reachable_queue_inv by blast
qed

text \<open>From every state the coroutine can, without any further dispatch, execute what is queued.\<close>

lemma us_execute_all:
  assumes "us_pc s = Us_execute i" and "i \<le> length (read_handles (us_loop s))"
  shows "us_step\<^sup>*\<^sup>* s (s\<lparr>us_loop := clear_read (us_loop s), us_pc := Us_read,
                          ran := ran s @ drop i (read_handles (us_loop s))\<rparr>)"
  using assms
proof (induction "length (read_handles (us_loop s)) - i" arbitrary: i s)
  case 0
  then have "i = length (read_handles (us_loop s))" by simp
  with us_step.us_clear [OF 0(2)] show ?case by (simp add: r_into_rtranclp)
next
  case (Suc k)
  let ?t = "s\<lparr>us_pc := Us_execute (Suc i), ran := ran s @ [read_handles (us_loop s) ! i]\<rparr>"
  from Suc have i: "i < length (read_handles (us_loop s))" by simp
  have "us_step\<^sup>*\<^sup>* ?t (?t\<lparr>us_loop := clear_read (us_loop ?t), us_pc := Us_read,
                          ran := ran ?t @ drop (Suc i) (read_handles (us_loop ?t))\<rparr>)"
    by (rule Suc.hyps(1)) (use Suc i in auto)
  moreover have "us_step s ?t" using Suc.prems(1) i by (rule us_step.us_execute)
  ultimately show ?case using i by (simp add: converse_rtranclp_into_rtranclp Cons_nth_drop_Suc)
qed

lemma us_drain_from_swap:
  assumes "us_pc s = Us_swap" and "us_queue_inv s"
  shows "\<exists>t. us_step\<^sup>*\<^sup>* s t \<and> dispatched t = dispatched s \<and> ran t = dispatched s"
proof -
  let ?t = "s\<lparr>us_loop := swap_handles (us_loop s), us_pc := Us_execute 0\<rparr>"
  have "us_step s ?t" using assms(1) by (rule us_step.us_swap)
  moreover have "us_step\<^sup>*\<^sup>* ?t (?t\<lparr>us_loop := clear_read (us_loop ?t),
      us_pc := Us_read, ran := ran ?t @ drop 0 (read_handles (us_loop ?t))\<rparr>)"
    by (rule us_execute_all) simp_all
  ultimately have "us_step\<^sup>*\<^sup>* s (?t\<lparr>us_loop := clear_read (us_loop ?t),
      us_pc := Us_read, ran := ran ?t @ drop 0 (read_handles (us_loop ?t))\<rparr>)"
    by (rule converse_rtranclp_into_rtranclp)
  then show ?thesis using assms
    by (intro exI conjI) (auto simp: us_queue_inv_def us_unread_def swap_handles_def)
qed

lemma us_drain_from_read:
  assumes "us_pc s = Us_read" and "us_queue_inv s" and "us_wake_inv s"
  shows "\<exists>t. us_step\<^sup>*\<^sup>* s t \<and> dispatched t = dispatched s \<and> ran t = dispatched s"
proof (cases "write_handles (us_loop s) = []")
  case True
  then have "ran s = dispatched s" using assms by (simp add: us_queue_inv_def us_unread_def)
  then show ?thesis by blast
next
  case False
  have "\<exists>u. us_step\<^sup>*\<^sup>* s u \<and> 0 < wakes (us_loop u) \<and> us_pc u = Us_read \<and> us_queue_inv u \<and>
    dispatched u = dispatched s"
  proof (cases "0 < wakes (us_loop s)")
    case True
    with assms show ?thesis by blast
  next
    case w: False
    with False assms obtain n where n: "pending_notify s = Suc n"
      by (auto simp: us_wake_inv_def gr0_conv_Suc)
    let ?u = "s\<lparr>us_loop := wake (us_loop s), pending_notify := n\<rparr>"
    from n have "us_step s ?u" by (rule us_step.us_notify)
    moreover from this have "us_queue_inv ?u" using assms(2) by (rule us_step_queue_inv)
    ultimately show ?thesis using assms
      by (intro exI [of _ ?u]) (auto simp: us_wake_inv_def wake_def)
  qed
  then obtain u where u: "us_step\<^sup>*\<^sup>* s u" "0 < wakes (us_loop u)" "us_pc u = Us_read"
    "us_queue_inv u" "dispatched u = dispatched s" by blast
  let ?v = "u\<lparr>us_loop := (us_loop u)\<lparr>wakes := 0\<rparr>, us_pc := Us_swap\<rparr>"
  have "us_step u (u\<lparr>us_loop := (us_loop u)\<lparr>wakes := 0\<rparr>,
      us_pc := (if user_space_continue False 8 then Us_swap else Us_done)\<rparr>)"
    using u(3,2) by (rule us_step.us_read)
  then have uv: "us_step u ?v" by (simp add: user_space_continue_def)
  then have "us_queue_inv ?v" using u(4) by (rule us_step_queue_inv)
  then obtain t where "us_step\<^sup>*\<^sup>* ?v t" "dispatched t = dispatched ?v" "ran t = dispatched ?v"
    using us_drain_from_swap [of ?v] by auto
  with u uv show ?thesis by (intro exI [of _ t]) auto
qed

lemma us_drain:
  assumes "us_pc s \<noteq> Us_done" and "us_queue_inv s" and "us_wake_inv s"
  shows "\<exists>t. us_step\<^sup>*\<^sup>* s t \<and> dispatched t = dispatched s \<and> ran t = dispatched s"
proof (cases "us_pc s")
  case (Us_execute i)
  let ?u = "s\<lparr>us_loop := clear_read (us_loop s), us_pc := Us_read,
                ran := ran s @ drop i (read_handles (us_loop s))\<rparr>"
  from Us_execute assms have su: "us_step\<^sup>*\<^sup>* s ?u"
    by (intro us_execute_all) (auto simp: us_queue_inv_def)
  have "us_queue_inv ?u" "us_wake_inv ?u"
    using assms Us_execute
    by (auto simp: us_queue_inv_def us_unread_def us_wake_inv_def clear_read_def)
  then obtain t where "us_step\<^sup>*\<^sup>* ?u t" "dispatched t = dispatched ?u" "ran t = dispatched ?u"
    using us_drain_from_read [of ?u] by auto
  with su show ?thesis by (intro exI [of _ t]) auto
qed (use assms us_drain_from_swap us_drain_from_read in auto)

section \<open>Properties\<close>

text \<open>C10: every operation of the event loop, awaited while a submission entry is free, queues
  exactly its request with the address of the awaiting \<open>io_event\<close> as user data; when the kernel
  completes it with \<open>r\<close>, one batch of the completion loop resumes the awaiting handle once and the
  awaited value is \<open>r\<close>.\<close>

theorem io_await_completion:
  assumes "ret \<noteq> null" and "execute_event h = Inr acts" and "cq (loop s) = []"
    and "io_suspend ret h ct (perform req True ret) s = Inr s1"
  shows "sq (loop s1) = sq (loop s) @ [(req, ret)] \<and>
     (\<exists>t. run_batch run_handle (s1\<lparr>loop := (loop s1)\<lparr>cq := [(ret, r)]\<rparr>\<rparr>) = Inr t \<and>
           executed t = executed s @ acts \<and> io_resume ret t = Inr r)"
proof -
  from io.suspend_queues [of ret h ct req s] assms(4)
  have s1: "sq (loop s1) = sq (loop s) @ [(req, ret)]" "ios s1 ret = Some \<lparr>handle = h, result = 0\<rparr>" "executed s1 = executed s" by auto
  let ?s = "s1\<lparr>loop := (loop s1)\<lparr>cq := [(ret, r)]\<rparr>\<rparr>"
  have "\<forall>tok \<in> fst ` set (cq (loop ?s)). completable ?s tok"
    using s1 assms by (simp add: completable_def)
  from run_batch_total [OF this] obtain t where t: "run_batch run_handle ?s = Inr t"
    "executed t = executed s1 @ token_actions ?s ret" "map_option result (ios t ret) = Some r"
    by (auto simp: kMaxBatch_def)
  moreover have "token_actions ?s ret = acts" using s1 assms by (simp add: token_actions_def)
  ultimately show ?thesis
    using s1 by (auto simp: io_resume_def)
qed

text \<open>C11: awaited while the submission queue is full, the same operation queues nothing, stores
  \<open>-ENOMEM\<close> as the awaited value and resumes the awaiting handle at once, so no awaiter is lost.\<close>

theorem io_await_full_queue:
  assumes "ret \<noteq> null" and "execute_event h = Inr acts"
  shows "\<exists>s'. io_suspend ret h ct (perform req False ret) s = Inr s' \<and>
     sq (loop s') = sq (loop s) \<and> executed s' = executed s @ acts \<and>
     io_resume ret s' = Inr (- ENOMEM) \<and> cancel_code (- ENOMEM) = kFailed"
  using io.suspend_full [OF assms, of ct req s]
  by (auto simp: cancel_code_def ENOMEM_def ENOENT_def EALREADY_def)

text \<open>The completion loop ends once it has as many rounds as there are completions, empties the
  completion queue, and executes the handle of every completion exactly once, in order of
  arrival.\<close>

theorem completions_delivered_once_in_order:
  assumes "\<forall>tok \<in> fst ` set (cq (loop s)). completable s tok" and "length (cq (loop s)) < n"
  shows "\<exists>t. drain_completions run_handle n s = Inr t \<and> cq (loop t) = [] \<and>
     executed t = executed s @ concat (map (token_actions s) (map fst (cq (loop s))))"
  using assms by (rule drain_completions_total)

text \<open>C2: in every interleaving of the user space coroutine with dispatching threads, the events
  executed so far are the first events dispatched, in the order of dispatch: none is lost,
  duplicated or overtaken; the published size is the length of the write queue.\<close>

theorem user_events_fifo:
  assumes "us_reachable l s" and "loop_wf l"
  shows "dispatched s = ran s @ us_unread s @ write_handles (us_loop s) \<and>
     event_size (us_loop s) = of_nat (length (write_handles (us_loop s)))"
  using us_reachable_queue_inv [OF assms] by (simp_all add: us_queue_inv_def event_size_def)

text \<open>C1: no wake-up is lost: as long as the eventfd accepts writes, a coroutine that sleeps in the
  eventfd read with events queued has a wake-up written or about to be written, and from every
  state before the loop stops all events dispatched so far can be executed without a further
  dispatch.\<close>

theorem no_lost_wakeup:
  assumes "us_reachable l s" and "loop_wf l" and "efd_write_result l = 8"
  shows "(us_pc s = Us_read \<and> write_handles (us_loop s) \<noteq> [] \<longrightarrow>
            0 < pending_notify s \<or> 0 < wakes (us_loop s)) \<and>
     (us_pc s \<noteq> Us_done \<longrightarrow>
        (\<exists>t. us_step\<^sup>*\<^sup>* s t \<and> dispatched t = dispatched s \<and> ran t = dispatched s))"
  using us_reachable_wake_inv [OF assms] us_reachable_queue_inv [OF assms(1,2)] us_drain [of s]
  by (auto simp: us_wake_inv_def)

text \<open>Waking another loop through a ring (\<open>wake(event_loop&)\<close>) tags its request with the
  null pointer, which the completion loop dereferences: the completion of such a request always
  faults, and so does the call itself when the submission queue is full.\<close>

theorem wake_from_completion_faults:
  assumes "wake_from True self item s = Inr s1"
  shows "sq (loop s1) = sq (loop s) @ [(Prep_write (user_space_event_fd self) (item, 8) 0, null)] \<and>
     run_batch exec (s1\<lparr>loop := (loop s1)\<lparr>cq := (snd (last (sq (loop s1))), r) # cs\<rparr>\<rparr>) =
       Inl Null_dereference \<and>
     wake_from False self item s = Inl Null_dereference"
  using assms
  by (auto simp: wake_from_def do_op_impl_def run_batch_def Let_def kMaxBatch_def fail_no_sqe_def)

section \<open>Witnesses\<close>

definition demo_loop :: event_loop where
  "demo_loop = init_event_loop 4 None 5 8"

definition demo_io :: io_state where
  "demo_io = \<lparr>loop = demo_loop, ios = Map.empty, tokens = Map.empty, executed = []\<rparr>"

lemmas demo_io_defs = demo_io_def demo_loop_def init_event_loop_def

theorem io_await_completion_witness:
  "\<exists>s1 t. read_await True 64 (Coroutine_alt 8) 0 3 (128, 16) 0 demo_io = Inr s1 \<and>
     sq (loop s1) = [(Prep_read 3 (128, 16) 0, 64)] \<and>
     run_batch run_handle (s1\<lparr>loop := (loop s1)\<lparr>cq := [(64, 7)]\<rparr>\<rparr>) = Inr t \<and>
     executed t = [Resume 8] \<and> io_resume 64 t = Inr 7"
proof -
  obtain s1 where s1: "io_suspend 64 (Coroutine_alt 8) 0 (perform (Prep_read 3 (128, 16) 0) True 64)
      demo_io = Inr s1"
    using io.suspend_queues by blast
  have "(64 :: addr) \<noteq> null" "execute_event (Coroutine_alt 8) = Inr [Resume 8]"
    "cq (loop demo_io) = []" by (simp_all add: event_defs demo_io_defs)
  from io_await_completion [OF this s1, of 7] s1 show ?thesis
    by (auto simp: await_is_suspend demo_io_defs)
qed

theorem io_await_full_queue_witness:
  "\<exists>s'. recv_await False 64 (Coroutine_alt 8) 0 3 (128, 16) 0 demo_io = Inr s' \<and>
     sq (loop s') = [] \<and> executed s' = [Resume 8] \<and> io_resume 64 s' = Inr (- 12)"
  using io_await_full_queue [of 64 "Coroutine_alt 8" "[Resume 8]" 0 "Prep_recv 3 (128, 16) 0" demo_io]
  by (auto simp: await_is_suspend event_defs demo_io_defs ENOMEM_def)

definition demo_cq :: io_state where
  "demo_cq = demo_io\<lparr>loop := demo_loop\<lparr>cq := [(64, 1), (72, 2), (64, 3)]\<rparr>,
     ios := [64 \<mapsto> \<lparr>handle = Coroutine_alt 8, result = 0\<rparr>,
             72 \<mapsto> \<lparr>handle = resume_event 16, result = 0\<rparr>]\<rparr>"

theorem completions_delivered_once_in_order_witness:
  "\<exists>t. drain_completions run_handle 4 demo_cq = Inr t \<and> cq (loop t) = [] \<and>
     executed t = [Resume 8, Resume 16, Resume 8]"
proof -
  have "\<forall>tok \<in> fst ` set (cq (loop demo_cq)). completable demo_cq tok"
    by (simp add: demo_cq_def completable_def event_defs)
  moreover have "length (cq (loop demo_cq)) < 4" by (simp add: demo_cq_def)
  ultimately have "\<exists>t. drain_completions run_handle 4 demo_cq = Inr t \<and> cq (loop t) = [] \<and>
     executed t = executed demo_cq @ concat (map (token_actions demo_cq) (map fst (cq (loop demo_cq))))"
    by (rule completions_delivered_once_in_order)
  then show ?thesis
    by (simp add: demo_cq_def demo_io_defs token_actions_def event_defs)
qed

text \<open>A run in which an event is dispatched to a sleeping loop.\<close>

definition demo_us :: us_state where
  "demo_us = \<lparr>us_loop = demo_loop\<lparr>write_handles := [Coroutine_alt 8], loop_size := 1\<rparr>,
     us_pc = Us_read, pending_notify = 1, dispatched = [Coroutine_alt 8], ran = []\<rparr>"

lemma demo_us_reachable: "us_reachable demo_loop demo_us"
proof -
  let ?l = demo_loop
  let ?s1 = "(us_init ?l)\<lparr>us_loop := swap_handles ?l, us_pc := Us_execute 0\<rparr>"
  have "us_step (us_init ?l) ((us_init ?l)\<lparr>us_loop := swap_handles (us_loop (us_init ?l)),
      us_pc := Us_execute 0\<rparr>)"
    by (rule us_step.us_swap) (simp add: us_init_def)
  then have "us_reachable ?l ?s1"
    using us_reachable.us_next [OF us_reachable.us_start] by (simp add: us_init_def)
  moreover have "us_step ?s1 (?s1\<lparr>us_loop := clear_read (us_loop ?s1), us_pc := Us_read\<rparr>)"
    by (rule us_step.us_clear) (simp_all add: demo_io_defs swap_handles_def)
  ultimately have s2: "us_reachable ?l (?s1\<lparr>us_loop := clear_read (us_loop ?s1), us_pc := Us_read\<rparr>)"
    by (rule us_reachable.us_next)
  have "us_reachable ?l (us_init ?l\<lparr>us_pc := Us_read\<rparr>)"
    using s2 by (simp add: us_init_def demo_io_defs swap_handles_def clear_read_def)
  from us_reachable.us_next [OF this us_step.us_dispatch [of "Coroutine_alt 8"]]
  show ?thesis
    by (simp add: us_init_def demo_io_defs demo_us_def dispatch_locked_def)
qed

lemma demo_loop_wf: "loop_wf demo_loop" "efd_write_result demo_loop = 8"
  by (simp_all add: loop_wf_def demo_io_defs)

theorem user_events_fifo_witness:
  "dispatched demo_us = ran demo_us @ us_unread demo_us @ [Coroutine_alt 8] \<and>
   event_size (us_loop demo_us) = 1"
  using user_events_fifo [OF demo_us_reachable demo_loop_wf(1)]
  by (simp add: demo_us_def us_unread_def)

theorem no_lost_wakeup_witness:
  "0 < pending_notify demo_us \<and>
   (\<exists>t. us_step\<^sup>*\<^sup>* demo_us t \<and> dispatched t = [Coroutine_alt 8] \<and> ran t = [Coroutine_alt 8])"
  using no_lost_wakeup [OF demo_us_reachable demo_loop_wf]
  by (simp add: demo_us_def demo_io_defs)

theorem wake_from_completion_faults_witness:
  "\<exists>s1. wake_from True demo_loop 200 demo_io = Inr s1 \<and>
     run_batch run_handle (s1\<lparr>loop := (loop s1)\<lparr>cq := [(null, 8)]\<rparr>\<rparr>) = Inl Null_dereference"
proof -
  obtain s1 where s1: "wake_from True demo_loop 200 demo_io = Inr s1"
    by (simp add: wake_from_def do_op_impl_def)
  from wake_from_completion_faults [OF this, of run_handle 8 "[]"] s1 show ?thesis by auto
qed

end
