(* ===== verification/Timer_Service.thy ===== *)
theory Timer_Service
  imports Events
begin

text \<open>
  \<open>includes/zab/timer_service.hpp\<close> and \<open>src/timer_service.cpp\<close>: the per-thread timer that
  resumes events after a delay.  \<open>waiting\<close> is the \<open>std::map\<close> from sleep marks to the events
  that wait for them, \<open>current\<close> the service's own clock, which only moves when the timerfd
  expires; all times are 64 bit nanoseconds and wrap as in the source.

  The timerfd is the kernel's: \<open>timer_spec\<close> is the setting last passed to
  \<open>timerfd_settime\<close>, \<open>settime_rc\<close> what that call returns, and the value read from the
  descriptor and the setting reported by \<open>timerfd_gettime\<close> are arguments of the step that
  handles an expiration.  The engine's \<open>thread_resume\<close> is the argument \<open>resume\<close>.
\<close>

section \<open>State\<close>

record itimerspec =
  it_value_sec :: u64
  it_value_nsec :: u64
  it_interval_sec :: u64
  it_interval_nsec :: u64

type_synonym bucket = "(tagged_event \<times> thread_t) list"

record timer_service =
  waiting :: "(u64 \<times> bucket) list"
  read_buffer :: u64
  current :: u64
  timer_fd :: int
  timer_spec :: itimerspec
  settime_rc :: int

definition kNanoInSeconds :: u64 where
  "kNanoInSeconds = 1000000000"

definition disarmed :: itimerspec where
  "disarmed = \<lparr>it_value_sec = 0, it_value_nsec = 0, it_interval_sec = 0, it_interval_nsec = 0\<rparr>"

definition init_timer_service :: "int \<Rightarrow> timer_service" where
  "init_timer_service rc =
     \<lparr>waiting = [], read_buffer = 0, current = 0, timer_fd = 0, timer_spec = disarmed, settime_rc = rc\<rparr>"

section \<open>Operations\<close>

definition timerfd_settime :: "itimerspec \<Rightarrow> timer_service \<Rightarrow> timer_service outcome" where
  "timerfd_settime spec t = (if settime_rc t < 0 then Inl Aborted else Inr (t\<lparr>timer_spec := spec\<rparr>))"

definition timer_setting :: "u64 \<Rightarrow> itimerspec" where
  "timer_setting ns =
     \<lparr>it_value_sec = ns div kNanoInSeconds, it_value_nsec = ns mod kNanoInSeconds,
      it_interval_sec = ns div kNanoInSeconds, it_interval_nsec = ns mod kNanoInSeconds\<rparr>"

definition change_timer :: "u64 \<Rightarrow> timer_service \<Rightarrow> timer_service outcome" where
  "change_timer ns t = timerfd_settime (timer_setting ns) t"

text \<open>\<open>wait(_handle, _nano_seconds, _thread)\<close>, called on the thread \<open>cur\<close>.\<close>

definition wait :: "thread_t \<Rightarrow> tagged_event \<Rightarrow> u64 \<Rightarrow> thread_t \<Rightarrow> timer_service \<Rightarrow> timer_service outcome" where
  "wait cur h ns thread t =
     (let sleep_mark = current t + ns
      in case map_of (waiting t) sleep_mark of
        None \<Rightarrow>
          (let m = insert_key sleep_mark [(h, cur)] (waiting t);
               change_rate = (fst (hd m) = sleep_mark);
               t' = t\<lparr>waiting := m\<rparr>
           in if change_rate then change_timer ns t' else Inr t')
      | Some _ \<Rightarrow> Inr (t\<lparr>waiting := update_key sleep_mark (\<lambda>hs. hs @ [(h, thread)]) (waiting t)\<rparr>))"

text \<open>\<open>wait(_handle, _nano_seconds)\<close>.\<close>

definition wait_here :: "thread_t \<Rightarrow> tagged_event \<Rightarrow> u64 \<Rightarrow> timer_service \<Rightarrow> timer_service outcome" where
  "wait_here cur h ns t = wait cur h ns cur t"

definition interval_ns :: "itimerspec \<Rightarrow> u64" where
  "interval_ns spec = it_interval_sec spec * kNanoInSeconds + it_interval_nsec spec"

text \<open>The two nested loops of \<open>run\<close>: resume the buckets whose mark has passed, in order, and
  erase them.\<close>

fun expire :: "(tagged_event \<Rightarrow> thread_t \<Rightarrow> 'e \<Rightarrow> 'e outcome) \<Rightarrow> u64 \<Rightarrow> (u64 \<times> bucket) list \<Rightarrow> 'e \<Rightarrow>
    ((u64 \<times> bucket) list \<times> 'e) outcome" where
  "expire resume now_ns [] e = Inr ([], e)"
| "expire resume now_ns ((k, hs) # m) e =
     (if k \<le> now_ns
      then bind_outcome (fold_outcome (\<lambda>(h, th). resume h th) hs e) (expire resume now_ns m)
      else Inr ((k, hs) # m, e))"

text \<open>\<open>run\<close> up to the loop: the descriptor is created once.\<close>

definition run_start :: "int \<Rightarrow> timer_service \<Rightarrow> timer_service outcome" where
  "run_start create_rc t =
     (if timer_fd t = 0
      then (if create_rc = -1 then Inl Aborted else Inr (t\<lparr>timer_fd := create_rc\<rparr>))
      else Inr t)"

text \<open>One turn of the loop of \<open>run\<close>, after the awaited read returned \<open>rc\<close> with
  \<open>buf\<close> expirations; \<open>None\<close> when the loop is left.\<close>

definition run_turn :: "(tagged_event \<Rightarrow> thread_t \<Rightarrow> 'e \<Rightarrow> 'e outcome) \<Rightarrow> int \<Rightarrow> u64 \<Rightarrow> int \<Rightarrow> itimerspec \<Rightarrow>
    timer_service \<Rightarrow> 'e \<Rightarrow> (timer_service \<times> 'e) option outcome" where
  "run_turn resume rc buf gettime_rc current_spec t e =
     (if rc \<noteq> 8 then Inr None
      else let t0 = t\<lparr>read_buffer := buf\<rparr>
      in if buf = 0 then Inr (Some (t0, e))
      else if gettime_rc < 0 then Inl Aborted
      else let cur = current t0 + interval_ns current_spec * buf
      in bind_outcome (expire resume cur (waiting t0) e) (\<lambda>(m, e').
           let t1 = t0\<lparr>current := cur, waiting := m\<rparr>
           in if m = []
              then bind_outcome (timerfd_settime disarmed (t1\<lparr>current := 0\<rparr>)) (\<lambda>t2. Inr (Some (t2, e')))
              else bind_outcome (change_timer (fst (hd m) - cur) t1) (\<lambda>t2. Inr (Some (t2, e')))))"

lemmas timer_defs [zab_defs] =
  wait_def wait_here_def change_timer_def timerfd_settime_def run_turn_def

section \<open>The setting of the timer\<close>

lemma interval_of_setting [simp]: "interval_ns (timer_setting ns) = ns"
  by (simp add: interval_ns_def timer_setting_def kNanoInSeconds_def word_mod_div_equality)

lemma interval_disarmed [simp]: "interval_ns disarmed = 0"
  by (simp add: interval_ns_def disarmed_def)

section \<open>Invariant\<close>

text \<open>
  The marks are strictly ascending and lie in the future of the service's clock, no bucket is
  empty, and while anything waits the timer is armed with exactly the distance to the first mark
  (so it is never disarmed); an idle service has reset its clock.
\<close>

definition timer_inv :: "timer_service \<Rightarrow> bool" where
  "timer_inv t \<longleftrightarrow>
     ascending (waiting t) \<and>
     (\<forall>(k, hs) \<in> set (waiting t). current t < k \<and> hs \<noteq> []) \<and>
     (if waiting t = [] then current t = 0
      else interval_ns (timer_spec t) = fst (hd (waiting t)) - current t)"

lemma timer_inv_init: "timer_inv (init_timer_service rc)"
  by (simp add: timer_inv_def init_timer_service_def)

lemma future_mark:
  fixes c ns :: u64
  assumes "ns \<noteq> 0" and "unat c + unat ns < 2 ^ 64"
  shows "c < c + ns"
proof -
  have "unat (c + ns) = unat c + unat ns" using assms(2) by (intro unat_add_no_wrap) simp
  moreover have "0 < unat ns" using assms(1) by (simp add: unat_gt_0)
  ultimately show ?thesis by (simp add: word_less_nat_alt)
qed

lemma map_of_None_keys: "map_of m k = None \<longleftrightarrow> k \<notin> set (keys_of m)"
  by (simp add: map_of_eq_None_iff)

lemma insert_key_all:
  assumes "map_of m k = None"
  shows "(\<forall>x \<in> set (insert_key k v m). P x) \<longleftrightarrow> P (k, v) \<and> (\<forall>x \<in> set m. P x)"
proof -
  have "set (insert_key k v m) = insert (k, v) (set m)"
    using assms by (induction m) (auto split: if_splits)
  then show ?thesis by simp
qed

lemma set_update_keyD:
  "x \<in> set (update_key k f m) \<Longrightarrow> x \<in> set m \<or> (\<exists>v. x = (k, f v) \<and> (k, v) \<in> set m)"
proof (induction m)
  case (Cons b m)
  obtain l w where "b = (l, w)" by force
  with Cons show ?case by (cases "k = l") auto
qed simp

lemma hd_update_key: "m \<noteq> [] \<Longrightarrow> fst (hd (update_key k f m)) = fst (hd m)"
  by (cases m) auto

lemma update_key_Nil [simp]: "update_key k f m = [] \<longleftrightarrow> m = []"
  by (cases m) (auto split: if_splits)

lemma wait_inv [zab_inv]:
  assumes inv: "timer_inv t" and ns: "ns \<noteq> 0" "unat (current t) + unat ns < 2 ^ 64"
    and w: "wait cur h ns thread t = Inr t'"
  shows "timer_inv t'"
proof (cases "map_of (waiting t) (current t + ns)")
  case None
  let ?k = "current t + ns" and ?m = "insert_key (current t + ns) [(h, cur)] (waiting t)"
  have lt: "current t < ?k" by (rule future_mark [OF ns])
  have asc: "ascending ?m" using inv by (intro ascending_insert_key) (simp add: timer_inv_def)
  have all: "\<forall>(k, hs) \<in> set ?m. current t < k \<and> hs \<noteq> []"
    using inv lt unfolding timer_inv_def insert_key_all [OF None] by auto
  show ?thesis
  proof (cases "fst (hd ?m) = ?k")
    case True
    with w None have "t' = t\<lparr>waiting := ?m, timer_spec := timer_setting ns\<rparr>"
      by (auto simp: timer_defs Let_def split: if_splits)
    with asc all True show ?thesis by (simp add: timer_inv_def)
  next
    case False
    then have "waiting t \<noteq> []" "fst (hd ?m) = fst (hd (waiting t))"
      using insert_key_head [OF None] by (auto split: if_splits)
    moreover from False w None have "t' = t\<lparr>waiting := ?m\<rparr>" by (simp add: timer_defs Let_def)
    ultimately show ?thesis using asc all inv by (simp add: timer_inv_def)
  qed
next
  case (Some hs)
  let ?m = "update_key (current t + ns) (\<lambda>hs. hs @ [(h, thread)]) (waiting t)"
  have "waiting t \<noteq> []" using Some by auto
  moreover have "t' = t\<lparr>waiting := ?m\<rparr>" using Some w by (simp add: timer_defs Let_def)
  moreover have "\<forall>(k, hs) \<in> set ?m. current t < k \<and> hs \<noteq> []"
    using inv by (fastforce simp: timer_inv_def dest: set_update_keyD)
  ultimately show ?thesis using inv by (auto simp: timer_inv_def hd_update_key)
qed

lemma timer_armed:
  assumes "timer_inv t" and "waiting t \<noteq> []"
  shows "interval_ns (timer_spec t) \<noteq> 0"
proof -
  have "hd (waiting t) \<in> set (waiting t)" using assms(2) by simp
  then have "current t < fst (hd (waiting t))" using assms(1) by (auto simp: timer_inv_def)
  with assms show ?thesis by (auto simp: timer_inv_def)
qed

section \<open>Expiration\<close>

lemma ascending_filter: "ascending m \<Longrightarrow> ascending (filter P m)"
  by (simp add: sorted_wrt_map sorted_wrt_filter)

lemma expire_spec:
  "ascending m \<Longrightarrow>
   expire resume c m e =
     bind_outcome (fold_outcome (\<lambda>(h, th). resume h th)
         (concat (map snd (filter (\<lambda>(k, _). k \<le> c) m))) e)
       (\<lambda>e'. Inr (filter (\<lambda>(k, _). c < k) m, e'))"
proof (induction m arbitrary: e)
  case (Cons b m)
  obtain k hs where b: "b = (k, hs)" by force
  show ?case
  proof (cases "k \<le> c")
    case True
    then have "\<not> c < k" by simp
    with True Cons b show ?thesis
      by (simp add: fold_outcome_append bind_outcome_assoc cong: bind_outcome_cong)
  next
    case False
    with Cons.prems b have "\<forall>x \<in> set m. c < fst x" by auto
    then have "filter (\<lambda>(k, _). k \<le> c) m = []" "filter (\<lambda>(k, _). c < k) m = m"
      by (auto simp: filter_empty_conv filter_id_conv split: prod.splits)
    with False b show ?thesis by simp
  qed
qed simp

lemma run_turn_inv [zab_inv]:
  assumes inv: "timer_inv t" and "buf = 0 \<or> 0 \<le> grc"
    and r: "run_turn resume rc buf grc spec t e = Inr (Some (t', e'))"
  shows "timer_inv t'"
proof (cases "buf = 0")
  case True
  with r inv show ?thesis by (auto simp: run_turn_def timer_inv_def split: if_splits)
next
  case False
  let ?c = "current t + interval_ns spec * buf"
  let ?m = "filter (\<lambda>(k, _). ?c < k) (waiting t)"
  have asc: "ascending (waiting t)" using inv by (simp add: timer_inv_def)
  then have asc': "ascending ?m" by (rule ascending_filter)
  from False r asc have t': "t' = (if ?m = [] then t\<lparr>read_buffer := buf, waiting := [], current := 0, timer_spec := disarmed\<rparr>
      else t\<lparr>read_buffer := buf, waiting := ?m, current := ?c, timer_spec := timer_setting (fst (hd ?m) - ?c)\<rparr>)"
    by (auto simp: timer_defs Let_def expire_spec split: if_splits)
  have "\<forall>(k, hs) \<in> set ?m. ?c < k \<and> hs \<noteq> []" using inv by (auto simp: timer_inv_def)
  with t' asc' show ?thesis by (auto simp: timer_inv_def)
qed

lemma due_first_bucket:
  assumes "timer_inv t" and "waiting t = (k, hs) # m"
  shows "current t + interval_ns (timer_spec t) = k"
    and "filter (\<lambda>(l, _). l \<le> k) (waiting t) = [(k, hs)]"
    and "filter (\<lambda>(l, _). k < l) (waiting t) = m"
proof -
  have "\<forall>x \<in> set m. k < fst x" using assms by (auto simp: timer_inv_def)
  then have "filter (\<lambda>(l, _). l \<le> k) m = []" "filter (\<lambda>(l, _). k < l) m = m"
    by (auto simp: filter_empty_conv filter_id_conv split: prod.splits)
  then show "filter (\<lambda>(l, _). l \<le> k) (waiting t) = [(k, hs)]"
    and "filter (\<lambda>(l, _). k < l) (waiting t) = m"
    by (simp_all add: assms(2))
  show "current t + interval_ns (timer_spec t) = k" using assms by (simp add: timer_inv_def)
qed

section \<open>Properties\<close>

text \<open>Waiting for a delay that is neither zero nor overflows the clock, and handling an
  expiration, keep the invariant of the timer service; in particular whenever an event waits the
  timer is armed, with a non-zero interval that ends at the first sleep mark.\<close>

theorem timer_invariant_kept:
  assumes "timer_inv t"
  shows "(ns \<noteq> 0 \<and> unat (current t) + unat ns < 2 ^ 64 \<and> wait cur h ns thread t = Inr t1 \<longrightarrow>
            timer_inv t1 \<and> waiting t1 \<noteq> [] \<and> interval_ns (timer_spec t1) \<noteq> 0) \<and>
     (0 \<le> grc \<and> run_turn resume rc buf grc spec t e = Inr (Some (t2, e2)) \<longrightarrow>
            timer_inv t2 \<and> (waiting t2 \<noteq> [] \<longrightarrow> interval_ns (timer_spec t2) \<noteq> 0))"
proof (intro conjI impI; elim conjE)
  assume ns: "ns \<noteq> 0" "unat (current t) + unat ns < 2 ^ 64" and w: "wait cur h ns thread t = Inr t1"
  show t1: "timer_inv t1" by (rule wait_inv [OF assms ns w])
  show "waiting t1 \<noteq> []"
    using w by (auto simp: timer_defs Let_def split: option.splits if_splits)
  with t1 show "interval_ns (timer_spec t1) \<noteq> 0" by (rule timer_armed)
next
  assume g: "0 \<le> grc" and r: "run_turn resume rc buf grc spec t e = Inr (Some (t2, e2))"
  show t2: "timer_inv t2" by (rule run_turn_inv [OF assms _ r]) (simp add: g)
  assume "waiting t2 \<noteq> []"
  with t2 show "interval_ns (timer_spec t2) \<noteq> 0" by (rule timer_armed)
qed

lemma run_turn_first_mark:
  assumes "timer_inv t" and "waiting t = (k, hs) # m" and "0 \<le> grc" and "0 \<le> settime_rc t"
  shows "run_turn resume 8 1 grc (timer_spec t) t e =
     bind_outcome (fold_outcome (\<lambda>(h, th). resume h th) hs e) (\<lambda>e'.
       Inr (Some (if m = []
         then t\<lparr>read_buffer := 1, waiting := [], current := 0, timer_spec := disarmed\<rparr>
         else t\<lparr>read_buffer := 1, current := k, waiting := m,
                timer_spec := timer_setting (fst (hd m) - k)\<rparr>, e')))"
proof -
  have "ascending (waiting t)" using assms(1) by (simp add: timer_inv_def)
  with due_first_bucket [OF assms(1,2)] assms(3,4) show ?thesis
    by (simp add: timer_defs Let_def expire_spec bind_outcome_assoc cong: bind_outcome_cong)
qed

text \<open>One expiration of the timer resumes exactly the events of the first sleep mark, in the
  order they were registered, removes them, and re-arms the timer for the distance to the next
  mark, or disarms it and resets the clock when nothing waits any more.\<close>

theorem timer_expiration:
  assumes "timer_inv t" and "waiting t = (k, hs) # m" and "0 \<le> grc" and "0 \<le> settime_rc t"
  shows "run_turn resume 8 1 grc (timer_spec t) t e =
     bind_outcome (fold_outcome (\<lambda>(h, th). resume h th) hs e) (\<lambda>e'.
       Inr (Some (if m = []
         then t\<lparr>read_buffer := 1, waiting := [], current := 0, timer_spec := disarmed\<rparr>
         else t\<lparr>read_buffer := 1, current := k, waiting := m,
                timer_spec := timer_setting (fst (hd m) - k)\<rparr>, e')))"
  using assms by (rule run_turn_first_mark)

text \<open>An event registered for a sleep mark that no other event has is stored with the thread
  that called \<open>wait\<close>; the requested thread is stored only for events that share an existing
  mark.\<close>

theorem wait_thread_of_fresh_mark:
  assumes "0 \<le> settime_rc t"
  shows "\<exists>t'. wait cur h ns thread t = Inr t' \<and>
     map_of (waiting t') (current t + ns) =
       Some (case map_of (waiting t) (current t + ns) of
               None \<Rightarrow> [(h, cur)] | Some hs \<Rightarrow> hs @ [(h, thread)])"
  using assms
  by (auto simp: timer_defs Let_def map_of_insert_key map_of_update_key split: option.splits)

text \<open>A clock for the kernel's timer: an operation of the service at an absolute time, and the
  absolute times at which events are resumed.\<close>

datatype timed = Timed_wait tagged_event u64 | Timed_expiration

fun timed_run :: "thread_t \<Rightarrow> (nat \<times> timed) list \<Rightarrow> timer_service \<Rightarrow> (nat \<times> tagged_event) list \<Rightarrow>
    (timer_service \<times> (nat \<times> tagged_event) list) outcome" where
  "timed_run cur [] t log = Inr (t, log)"
| "timed_run cur ((at, Timed_wait h ns) # xs) t log =
     bind_outcome (wait_here cur h ns t) (\<lambda>t'. timed_run cur xs t' log)"
| "timed_run cur ((at, Timed_expiration) # xs) t log =
     bind_outcome (run_turn (\<lambda>h th l. Inr (l @ [(at, h)])) 8 1 0 (timer_spec t) t log)
       (\<lambda>r. case r of None \<Rightarrow> Inr (t, log) | Some (t', log') \<Rightarrow> timed_run cur xs t' log')"

text \<open>The clock of the service stands still between expirations, so an event can be resumed
  too early.  With the timer armed at time 0 for 100 ns, an event that asks at time 90 for 200 ns is
  resumed at time 200, after 110 ns.\<close>

theorem wait_can_resume_early:
  "timed_run (Thread_t 0)
     [(0, Timed_wait (Coroutine_alt 8) 100), (90, Timed_wait (Coroutine_alt 16) 200),
      (100, Timed_expiration), (200, Timed_expiration)] (init_timer_service 0) [] =
   Inr ((init_timer_service 0)\<lparr>read_buffer := 1\<rparr>, [(100, Coroutine_alt 8), (200, Coroutine_alt 16)]) \<and>
   200 < 90 + (200 :: nat)"
  by (simp add: timer_defs Let_def init_timer_service_def timer_setting_def interval_ns_def
      kNanoInSeconds_def disarmed_def)

section \<open>Witnesses\<close>

definition demo_timer :: timer_service where
  "demo_timer = (init_timer_service 0)\<lparr>waiting := [(5, [(Coroutine_alt 8, Thread_t 0)]),
     (9, [(Coroutine_alt 16, Thread_t 1)])], timer_spec := timer_setting 5\<rparr>"

lemma demo_timer_inv: "timer_inv demo_timer"
  by (simp add: timer_inv_def demo_timer_def init_timer_service_def)

theorem timer_invariant_kept_witness:
  "\<exists>t1. wait (Thread_t 0) (Coroutine_alt 24) 3 (Thread_t 0) demo_timer = Inr t1 \<and> timer_inv t1 \<and>
     waiting t1 \<noteq> [] \<and> interval_ns (timer_spec t1) \<noteq> 0"
proof -
  let ?w = "wait (Thread_t 0) (Coroutine_alt 24) 3 (Thread_t 0) demo_timer"
  have "(3 :: u64) \<noteq> 0" "unat (current demo_timer) + unat (3 :: u64) < 2 ^ 64"
    by (simp_all add: demo_timer_def init_timer_service_def)
  moreover obtain t1 where "?w = Inr t1"
    by (simp add: demo_timer_def init_timer_service_def timer_defs Let_def)
  ultimately show ?thesis
    using timer_invariant_kept [OF demo_timer_inv, of 3 "Thread_t 0" "Coroutine_alt 24" "Thread_t 0" t1
      0 "\<lambda>h th u. Inr u" 8 0 disarmed "()" t1 "()"]
    by simp
qed

theorem timer_expiration_witness:
  "run_turn (\<lambda>h th l. Inr (l @ [h])) 8 1 0 (timer_spec demo_timer) demo_timer [] =
   Inr (Some (demo_timer\<lparr>read_buffer := 1, waiting := [(9, [(Coroutine_alt 16, Thread_t 1)])],
     current := 5, timer_spec := timer_setting 4\<rparr>, [Coroutine_alt 8]))"
  using timer_expiration [OF demo_timer_inv, of 5 "[(Coroutine_alt 8, Thread_t 0)]"
      "[(9, [(Coroutine_alt 16, Thread_t 1)])]" 0 "\<lambda>h th l. Inr (l @ [h])" "[]"]
  by (simp add: demo_timer_def init_timer_service_def)

theorem wait_thread_of_fresh_mark_witness:
  "\<exists>t'. wait (Thread_t 0) (Coroutine_alt 8) 7 (Thread_t 3) (init_timer_service 0) = Inr t' \<and>
     map_of (waiting t') 7 = Some [(Coroutine_alt 8, Thread_t 0)]"
  using wait_thread_of_fresh_mark [of "init_timer_service 0" "Thread_t 0" "Coroutine_alt 8" 7 "Thread_t 3"]
  by (simp add: init_timer_service_def)

end
