(* ===== verification/Resume_Interface.thy ===== *)
theory Resume_Interface
  imports Events
begin

text \<open>
  The interface between the engine and everything that resumes through it (timers, pause tokens,
  semaphores, barriers): a call that queues an event for a thread.  \<open>accepts\<close> says for which
  threads the engine can take an event, \<open>room\<close> how many more it can count, \<open>queued\<close> is the
  collection of events accepted and not yet run.
\<close>

locale resume_service =
  fixes resume :: "tagged_event \<Rightarrow> thread_t \<Rightarrow> 'e \<Rightarrow> 'e outcome"
    and accepts :: "'e \<Rightarrow> thread_t \<Rightarrow> bool"
    and room :: "'e \<Rightarrow> nat"
    and queued :: "'e \<Rightarrow> tagged_event multiset"
  assumes resume_law: "accepts e th \<Longrightarrow> 0 < room e \<Longrightarrow>
     \<exists>e'. resume h th e = Inr e' \<and> queued e' = add_mset h (queued e) \<and>
       accepts e' = accepts e \<and> room e \<le> Suc (room e')"
begin

lemma resume_total:
  assumes "accepts e th" and "0 < room e"
  obtains e' where "resume h th e = Inr e'" and "queued e' = add_mset h (queued e)"
    and "accepts e' = accepts e" and "room e \<le> Suc (room e')"
  using resume_law [OF assms] by blast

text \<open>Resuming a list of waiters queues exactly their events.\<close>

lemma resume_all:
  assumes "\<forall>(h, th) \<in> set ws. accepts e th" and "length ws \<le> room e"
  shows "\<exists>e'. fold_outcome (\<lambda>(h, th). resume h th) ws e = Inr e' \<and>
     queued e' = queued e + mset (map fst ws) \<and> accepts e' = accepts e \<and>
     room e \<le> length ws + room e'"
  using assms
proof (induction ws arbitrary: e)
  case (Cons w ws)
  obtain h th where w: "w = (h, th)" by force
  with Cons.prems have "accepts e th" "0 < room e" by auto
  from resume_total [OF this] obtain e1 where e1: "resume h th e = Inr e1"
    "queued e1 = add_mset h (queued e)" "accepts e1 = accepts e" "room e \<le> Suc (room e1)"
    by blast
  with Cons.prems have "\<forall>(h, th) \<in> set ws. accepts e1 th" "length ws \<le> room e1" by auto
  from Cons.IH [OF this] obtain e2 where
    "fold_outcome (\<lambda>(h, th). resume h th) ws e1 = Inr e2"
    "queued e2 = queued e1 + mset (map fst ws)" "accepts e2 = accepts e1"
    "room e1 \<le> length ws + room e2" by blast
  with e1 w show ?case by auto
qed simp

end

end
