(* ===== verification/Engine.thy ===== *)
theory Engine
  imports Event_Loop Timer_Service Resume_Interface
begin

text \<open>
  \<open>includes/zab/engine.hpp\<close>, \<open>src/engine.cpp\<close>, \<open>includes/zab/yield.hpp\<close>,
  \<open>includes/zab/pause.hpp\<close> and \<open>src/pause.cpp\<close>: the engine, one event loop and one timer
  service per worker thread, and the ways to continue a computation on a worker.

  The thread-local \<open>this_thead_\<close> of the calling thread is the argument \<open>cur\<close>.  The number of
  cores the machine reports, and the answers of the kernel when the rings are created, are
  arguments.  A failing \<open>assert\<close> is \<open>Assertion_failed\<close>, indexing a vector out of range
  \<open>Bad_address\<close>.
\<close>

section \<open>Configuration\<close>

datatype thread_option = kAny | kAtLeast | kExact

record configs =
  threads :: u16
  opt :: thread_option
  affinity_set :: bool
  affinity_offset :: u16

definition default_configs :: configs where
  "default_configs = \<lparr>threads = 1, opt = kAtLeast, affinity_set = True, affinity_offset = 0\<rparr>"

definition core_count :: "32 word \<Rightarrow> 32 word \<Rightarrow> u16" where
  "core_count hardware_concurrency cpuinfo =
     (let count = (if hardware_concurrency = 0 then cpuinfo else hardware_concurrency);
          count = (if count > 65535 then 65535 else count)
      in ucast count)"

definition validate :: "u16 \<Rightarrow> configs \<Rightarrow> configs" where
  "validate cores c =
     (let c1 = (if opt c = kAny then c\<lparr>threads := cores\<rparr>
                else if opt c = kAtLeast then c\<lparr>threads := max cores (threads c)\<rparr>
                else c)
      in if threads c1 = 0 then c1\<lparr>threads := 1\<rparr> else c1)"

section \<open>State\<close>

text \<open>\<open>workers\<close> holds, per \<open>std::jthread\<close>, whether its stop has been requested.\<close>

record engine =
  loops :: "event_loop list"
  timers :: "timer_service list"
  workers :: "bool list"
  engine_configs :: configs

type_synonym ring_answer = "int \<times> int \<times> int \<times> int"

text \<open>The constructor: the first loop owns the worker pool the others attach to.\<close>

definition make_engine :: "u16 \<Rightarrow> configs \<Rightarrow> ring_answer list \<Rightarrow> engine outcome" where
  "make_engine cores c answers =
     (let c' = validate cores c
      in case take (unat (threads c')) answers of
        [] \<Rightarrow> Inl Bad_address
      | (rc, ring, efd, wrc) # rest \<Rightarrow>
          bind_outcome (initialise rc ring efd wrc) (\<lambda>l0.
          bind_outcome (map_outcome (\<lambda>(rc, ring, efd, wrc).
                          initialise_shared (io_fd l0) rc ring efd wrc) rest) (\<lambda>ls.
          Inr \<lparr>loops = l0 # ls, timers = [], workers = [], engine_configs = c'\<rparr>)))"

definition number_of_workers :: "engine \<Rightarrow> u16" where
  "number_of_workers e = of_nat (length (loops e))"

text \<open>The processor a worker is bound to.\<close>

definition set_worker_affinity :: "u16 \<Rightarrow> thread_t \<Rightarrow> engine \<Rightarrow> nat option outcome" where
  "set_worker_affinity cores th e =
     (if unat (thread_id th) < length (workers e)
      then (if cores = 0 then Inl Division_by_zero
            else Inr (Some ((unat (thread_id th) + unat (affinity_offset (engine_configs e))) mod unat cores)))
      else Inr None)"

section \<open>Resuming\<close>

fun any_thread_loop :: "event_loop list \<Rightarrow> u16 \<Rightarrow> u64 \<Rightarrow> thread_t \<Rightarrow> thread_t" where
  "any_thread_loop [] cur min_size th = th"
| "any_thread_loop (el # els) cur min_size th =
     (let es = event_size el
      in if es = 0 then Thread_t cur
         else if es < min_size then any_thread_loop els (cur + 1) es (Thread_t cur)
         else any_thread_loop els (cur + 1) min_size th)"

definition get_any_thread :: "engine \<Rightarrow> thread_t" where
  "get_any_thread e = any_thread_loop (loops e) 0 (- 1) thread_any"

definition resolve_thread :: "thread_t \<Rightarrow> engine \<Rightarrow> thread_t" where
  "resolve_thread th e = (if thread_id th = kAnyThread then get_any_thread e else th)"

definition thread_resume :: "tagged_event \<Rightarrow> thread_t \<Rightarrow> engine \<Rightarrow> engine outcome" where
  "thread_resume h th e =
     (let i = unat (thread_id (resolve_thread th e))
      in if i < length (loops e)
         then Inr (e\<lparr>loops := (loops e)[i := dispatch_user_event h (loops e ! i)]\<rparr>)
         else Inl Assertion_failed)"

definition resume :: "thread_t \<Rightarrow> tagged_event \<Rightarrow> engine \<Rightarrow> engine outcome" where
  "resume cur h e = thread_resume h cur e"

definition delayed_resume :: "thread_t \<Rightarrow> tagged_event \<Rightarrow> order_t \<Rightarrow> thread_t \<Rightarrow> engine \<Rightarrow> engine outcome" where
  "delayed_resume cur h ord th e =
     (let th' = resolve_thread th e
      in if order_ns ord \<noteq> 0
         then (if cur = thread_any then Inl Assertion_failed
               else let i = unat (thread_id cur)
               in if i < length (timers e)
                  then bind_outcome (wait cur h (order_ns ord) th' (timers e ! i))
                         (\<lambda>t. Inr (e\<lparr>timers := (timers e)[i := t]\<rparr>))
                  else Inl Bad_address)
         else thread_resume h th' e)"

definition delayed_resume_here :: "thread_t \<Rightarrow> tagged_event \<Rightarrow> order_t \<Rightarrow> engine \<Rightarrow> engine outcome" where
  "delayed_resume_here cur h ord e = delayed_resume cur h ord cur e"

text \<open>The suspend parts of the three \<open>yield\<close> awaitables, and of \<open>unpause\<close>.\<close>

definition yield :: "thread_t \<Rightarrow> tagged_event \<Rightarrow> engine \<Rightarrow> engine outcome" where
  "yield cur h e = resume cur (Event_alt (get_event h)) e"

definition yield_in :: "tagged_event \<Rightarrow> thread_t \<Rightarrow> engine \<Rightarrow> engine outcome" where
  "yield_in h th e = thread_resume (Event_alt (get_event h)) th e"

definition yield_ordered :: "thread_t \<Rightarrow> tagged_event \<Rightarrow> order_t \<Rightarrow> thread_t \<Rightarrow> engine \<Rightarrow> engine outcome" where
  "yield_ordered cur h ord th e = delayed_resume cur (Event_alt (get_event h)) ord th e"

record pause_pack =
  pack_thread :: thread_t
  pack_data :: int
  pack_handle :: tagged_event

definition unpause_ordered :: "thread_t \<Rightarrow> pause_pack \<Rightarrow> order_t \<Rightarrow> engine \<Rightarrow> engine outcome" where
  "unpause_ordered cur pp ord e =
     delayed_resume cur (Event_alt (get_event (pack_handle pp))) ord (pack_thread pp) e"

definition unpause :: "pause_pack \<Rightarrow> engine \<Rightarrow> engine outcome" where
  "unpause pp e = thread_resume (Event_alt (get_event (pack_handle pp))) (pack_thread pp) e"

text \<open>The \<open>pause\<close> awaitable: suspending stores the handle in the pack and calls the function on
  it; resuming returns the pack with a null handle.\<close>

definition pause_suspend ::
    "(pause_pack \<Rightarrow> 's \<Rightarrow> (pause_pack \<times> 's) outcome) \<Rightarrow> tagged_event \<Rightarrow> pause_pack \<Rightarrow> 's \<Rightarrow> (pause_pack \<times> 's) outcome" where
  "pause_suspend func h pp s = func (pp\<lparr>pack_handle := h\<rparr>) s"

definition pause_resume :: "pause_pack \<Rightarrow> pause_pack" where
  "pause_resume pp = pp\<lparr>pack_handle := Coroutine_alt null\<rparr>"

text \<open>\<open>execute\<close> starts the coroutine \<open>do_function\<close> (its frame is \<open>frame\<close>), which yields
  first and runs the function when it is resumed.\<close>

definition execute :: "thread_t \<Rightarrow> coro \<Rightarrow> order_t \<Rightarrow> thread_t \<Rightarrow> engine \<Rightarrow> engine outcome" where
  "execute cur frame ord th e = yield_ordered cur (Coroutine_alt frame) ord th e"

section \<open>Running and stopping\<close>

definition start_workers :: "int \<Rightarrow> engine \<Rightarrow> engine" where
  "start_workers settime e =
     (let n = unat (threads (engine_configs e))
      in e\<lparr>timers := timers e @ replicate n (init_timer_service settime),
           workers := workers e @ replicate n False\<rparr>)"

definition finish_workers :: "engine \<Rightarrow> engine" where
  "finish_workers e = e\<lparr>workers := [], timers := []\<rparr>"

text \<open>Requesting the stop of a thread runs its stop callback, the loop's \<open>wake\<close>, the first
  time.\<close>

fun stop_loops :: "bool list \<Rightarrow> event_loop list \<Rightarrow> event_loop list" where
  "stop_loops (w # ws) (l # ls) = (if w then l else wake l) # stop_loops ws ls"
| "stop_loops [] ls = ls"
| "stop_loops ws [] = []"

definition stop_workers :: "engine \<Rightarrow> engine" where
  "stop_workers e =
     e\<lparr>loops := stop_loops (workers e) (loops e), workers := map (\<lambda>_. True) (workers e)\<rparr>"

text \<open>One turn of the timer of the worker \<open>i\<close>.\<close>

definition timer_turn :: "nat \<Rightarrow> int \<Rightarrow> u64 \<Rightarrow> int \<Rightarrow> itimerspec \<Rightarrow> engine \<Rightarrow> engine option outcome" where
  "timer_turn i rc buf grc spec e =
     (if i < length (timers e)
      then bind_outcome (run_turn thread_resume rc buf grc spec (timers e ! i) e)
             (\<lambda>r. Inr (map_option (\<lambda>(t, e'). e'\<lparr>timers := (timers e')[i := t]\<rparr>) r))
      else Inl Bad_address)"

lemmas engine_defs [zab_defs] =
  thread_resume_def resume_def delayed_resume_def delayed_resume_here_def resolve_thread_def
  yield_def yield_in_def yield_ordered_def unpause_def unpause_ordered_def execute_def

section \<open>Choosing a loop\<close>

lemma dispatch_simps [simp]:
  "write_handles (dispatch_user_event h l) = write_handles l @ [h]"
  "loop_size (dispatch_user_event h l) = loop_size l + 1"
  "read_handles (dispatch_user_event h l) = read_handles l"
  "efd_write_result (dispatch_user_event h l) = efd_write_result l"
  by (simp_all add: dispatch_user_event_def user_queue_defs Let_def)

lemma any_thread_loop_least:
  assumes "unat cur + length els \<le> 2 ^ 16"
    and "\<exists>el \<in> set els. event_size el < min_size"
  shows "\<exists>i < length els. any_thread_loop els cur min_size th = Thread_t (cur + of_nat i) \<and>
     (\<forall>el \<in> set els. event_size (els ! i) \<le> event_size el)"
  using assms
proof (induction els arbitrary: cur min_size th)
  case (Cons el els)
  let ?es = "event_size el"
  show ?case
  proof (cases "?es = 0")
    case True
    then show ?thesis by (intro exI [of _ 0]) simp
  next
    case nz: False
    define m where "m = (if ?es < min_size then ?es else min_size)"
    define th' where "th' = (if ?es < min_size then Thread_t cur else th)"
    have step: "any_thread_loop (el # els) cur min_size th = any_thread_loop els (cur + 1) m th'"
      using nz by (simp add: Let_def m_def th'_def)
    have nxt: "unat (cur + 1) + length els \<le> 2 ^ 16 \<or> els = []"
    proof (cases els)
      case (Cons a as)
      then have "unat cur + unat (1 :: u16) < 2 ^ 16" using Cons.prems(1) by simp
      then have "unat (cur + 1) = unat cur + unat (1 :: u16)" by (intro unat_add_no_wrap) simp
      then show ?thesis using Cons.prems(1) by simp
    qed simp
    show ?thesis
    proof (cases "\<exists>x \<in> set els. event_size x < m")
      case True
      then have "els \<noteq> []" by auto
      with nxt Cons.IH [OF _ True] obtain i where i: "i < length els"
        "any_thread_loop els (cur + 1) m th' = Thread_t (cur + 1 + of_nat i)"
        "\<forall>x \<in> set els. event_size (els ! i) \<le> event_size x" by blast
      from True i(3) have "event_size (els ! i) < m" by (meson le_less_trans)
      then have "event_size (els ! i) \<le> ?es" by (auto simp: m_def split: if_splits)
      with i step show ?thesis by (intro exI [of _ "Suc i"]) (simp add: add.assoc)
    next
      case False
      then have stay: "any_thread_loop els c m t = t" if "m \<noteq> 0" for c t
        using that
        by (induction els arbitrary: c) (auto simp: Let_def not_less word_le_0_iff)
      have lt: "?es < min_size" using Cons.prems(2) False by (auto simp: m_def split: if_splits)
      have "m \<noteq> 0" using nz lt by (simp add: m_def)
      with stay step lt have "any_thread_loop (el # els) cur min_size th = Thread_t cur"
        by (simp add: th'_def)
      moreover have "\<forall>x \<in> set els. ?es \<le> event_size x" using False lt by (auto simp: m_def not_less)
      ultimately show ?thesis by (intro exI [of _ 0]) simp
    qed
  qed
qed simp

lemma unat_of_nat_u16: "n < 2 ^ 16 \<Longrightarrow> unat (of_nat n :: u16) = n"
  by (simp add: unat_of_nat)

section \<open>The engine as resume service\<close>

definition accepts :: "engine \<Rightarrow> thread_t \<Rightarrow> bool" where
  "accepts e th \<longleftrightarrow> loops e \<noteq> [] \<and> length (loops e) \<le> 65534 \<and>
     (thread_id th = kAnyThread \<or> unat (thread_id th) < length (loops e))"

definition room :: "engine \<Rightarrow> nat" where
  "room e = 2 ^ 64 - 1 - foldr max (map (unat \<circ> event_size) (loops e)) 0"

definition queued :: "engine \<Rightarrow> tagged_event multiset" where
  "queued e = mset (concat (map write_handles (loops e)))"

lemma foldr_max_ge: "x \<in> set xs \<Longrightarrow> x \<le> foldr max xs (0::nat)"
  by (induction xs) auto

lemma foldr_max_update: "i < length xs \<Longrightarrow> foldr max (xs[i := y]) (0::nat) \<le> max y (foldr max xs 0)"
  by (induction xs arbitrary: i) (auto split: nat.splits simp: max.coboundedI2 max.left_commute)

lemma get_any_thread_least:
  assumes "loops e \<noteq> []" and "length (loops e) \<le> 65534" and "0 < room e"
  shows "\<exists>i < length (loops e). get_any_thread e = Thread_t (of_nat i) \<and>
     (\<forall>el \<in> set (loops e). event_size (loops e ! i) \<le> event_size el)"
proof -
  have small: "unat (event_size el) < 2 ^ 64 - 1" if "el \<in> set (loops e)" for el
    using foldr_max_ge [of "unat (event_size el)" "map (unat \<circ> event_size) (loops e)"] that assms(3)
    by (auto simp: room_def)
  have "event_size el < (- 1 :: u64)" if "el \<in> set (loops e)" for el
    using small [OF that] by (simp add: word_less_nat_alt unsigned_minus_1_eq_mask mask_eq_exp_minus_1)
  then have "\<exists>el \<in> set (loops e). event_size el < (- 1 :: u64)" using assms(1) by (cases "loops e") auto
  from any_thread_loop_least [OF _ this, of 0 thread_any] assms(2) show ?thesis
    by (simp add: get_any_thread_def)
qed

lemma resolve_thread_in_range:
  assumes "accepts e th" and "0 < room e"
  shows "unat (thread_id (resolve_thread th e)) < length (loops e)"
proof (cases "thread_id th = kAnyThread")
  case True
  from get_any_thread_least [of e] assms obtain i where
    "i < length (loops e)" "get_any_thread e = Thread_t (of_nat i)"
    by (auto simp: accepts_def)
  with True assms show ?thesis
    by (simp add: resolve_thread_def accepts_def unat_of_nat_u16)
qed (use assms in \<open>auto simp: resolve_thread_def accepts_def\<close>)

interpretation eng: resume_service thread_resume accepts room queued
proof
  fix e th h
  assume acc: "accepts e th" and r: "0 < room e"
  let ?i = "unat (thread_id (resolve_thread th e))"
  let ?l = "loops e ! ?i" and ?l' = "dispatch_user_event h (loops e ! ?i)"
  let ?e = "e\<lparr>loops := (loops e)[?i := ?l']\<rparr>"
  have i: "?i < length (loops e)" by (rule resolve_thread_in_range [OF acc r])
  then have "thread_resume h th e = Inr ?e" by (simp add: thread_resume_def Let_def)
  moreover have "queued ?e = add_mset h (queued e)"
    using mset_concat_update [OF i, of write_handles ?l'] by (simp add: queued_def)
  moreover have "accepts ?e = accepts e" by (auto simp: accepts_def fun_eq_iff)
  moreover have "room e \<le> Suc (room ?e)"
  proof -
    let ?xs = "map (unat \<circ> event_size) (loops e)"
    have mem: "unat (event_size ?l) \<le> foldr max ?xs 0" using i by (intro foldr_max_ge) auto
    have "unat (event_size ?l') \<le> Suc (unat (event_size ?l))"
      by (simp add: event_size_def unat_word_ariths mod_le_divisor mod_less_eq_dividend [THEN order_trans])
    then have "foldr max (map (unat \<circ> event_size) (loops ?e)) 0 \<le> Suc (foldr max ?xs 0)"
      using foldr_max_update [of ?i ?xs "unat (event_size ?l')"] i mem by (simp add: map_update)
    then show ?thesis by (simp add: room_def)
  qed
  ultimately show "\<exists>e'. thread_resume h th e = Inr e' \<and> queued e' = add_mset h (queued e) \<and>
      accepts e' = accepts e \<and> room e \<le> Suc (room e')" by blast
qed

section \<open>Construction and stopping\<close>

lemma validate_threads:
  "threads (validate cores c) =
     (let n = (case opt c of kAny \<Rightarrow> cores | kAtLeast \<Rightarrow> max cores (threads c) | kExact \<Rightarrow> threads c)
      in if n = 0 then 1 else n)"
  by (cases "opt c") (simp_all add: validate_def Let_def)

lemma stop_loops_nth:
  "i < length ls \<Longrightarrow> stop_loops ws ls ! i =
     (if i < length ws \<and> \<not> ws ! i then wake (ls ! i) else ls ! i)"
  by (induction ws ls arbitrary: i rule: stop_loops.induct) (auto simp: nth_Cons split: nat.splits)

lemma length_stop_loops [simp]: "length (stop_loops ws ls) = length ls"
  by (induction ws ls rule: stop_loops.induct) auto

lemma stop_loops_stopped [simp]: "stop_loops (map (\<lambda>_. True) ws) ls = ls"
  by (rule nth_equalityI) (auto simp: stop_loops_nth)

lemma attached_wq_initialise:
  "initialise rc ring efd wrc = Inr l \<Longrightarrow> attached_wq l = None"
  "initialise_shared fd rc ring efd wrc = Inr l \<Longrightarrow> attached_wq l = Some fd"
  by (auto simp: initialise_def initialise_shared_def init_event_loop_def split: if_splits)

section \<open>Properties\<close>

text \<open>Resuming an event on an accepted thread succeeds and appends the event to the queue of
  exactly one loop: the loop of that thread, or, for \<open>kAnyThread\<close>, a loop with the fewest queued
  events; every other loop is unchanged.\<close>

theorem thread_resume_target:
  assumes "accepts e th" and "0 < room e"
  shows "\<exists>i < length (loops e).
     thread_resume h th e = Inr (e\<lparr>loops := (loops e)[i := dispatch_user_event h (loops e ! i)]\<rparr>) \<and>
     (if thread_id th = kAnyThread
      then \<forall>el \<in> set (loops e). event_size (loops e ! i) \<le> event_size el
      else i = unat (thread_id th))"
proof (cases "thread_id th = kAnyThread")
  case True
  from assms have "loops e \<noteq> []" "length (loops e) \<le> 65534" by (simp_all add: accepts_def)
  from get_any_thread_least [OF this assms(2)] obtain i where i: "i < length (loops e)"
    "get_any_thread e = Thread_t (of_nat i)"
    "\<forall>el \<in> set (loops e). event_size (loops e ! i) \<le> event_size el" by blast
  moreover have "unat (of_nat i :: u16) = i"
    using i assms by (intro unat_of_nat_u16) (simp add: accepts_def)
  ultimately show ?thesis using True
    by (intro exI [of _ i]) (simp add: thread_resume_def resolve_thread_def Let_def)
next
  case False
  with assms show ?thesis
    by (intro exI [of _ "unat (thread_id th)"])
      (simp add: thread_resume_def resolve_thread_def Let_def accepts_def)
qed

text \<open>Resuming any list of events through the engine, as the synchronisation primitives do,
  queues exactly these events, each once.\<close>

theorem thread_resume_all_queued:
  assumes "\<forall>(h, th) \<in> set ws. accepts e th" and "length ws \<le> room e"
  shows "\<exists>e'. fold_outcome (\<lambda>(h, th). thread_resume h th) ws e = Inr e' \<and>
     queued e' = queued e + mset (map fst ws)"
  using eng.resume_all [OF assms] by blast

text \<open>A delayed resume on an idle timer ignores the requested thread: whatever \<open>th\<close> is, the
  expiration queues the event on the loop of the thread that asked for the delay.\<close>

theorem delayed_resume_ignores_thread:
  assumes "order_ns ord \<noteq> 0" and "cur \<noteq> thread_any" and "i = unat (thread_id cur)"
    and "i < length (timers e)" and "i < length (loops e)"
    and "timers e ! i = init_timer_service 0"
  shows "\<exists>e1. delayed_resume cur h ord th e = Inr e1 \<and>
     timer_turn i 8 1 0 (timer_spec (timers e1 ! i)) e1 =
       Inr (Some (e\<lparr>loops := (loops e)[i := dispatch_user_event h (loops e ! i)],
                    timers := (timers e)[i := (init_timer_service 0)\<lparr>read_buffer := 1\<rparr>]\<rparr>))"
proof -
  let ?t = "(init_timer_service 0)\<lparr>waiting := [(order_ns ord, [(h, cur)])], timer_spec := timer_setting (order_ns ord)\<rparr>"
  let ?e1 = "e\<lparr>timers := (timers e)[i := ?t]\<rparr>"
  have t: "wait cur h (order_ns ord) th' (init_timer_service 0) = Inr ?t" for th'
    by (simp add: timer_defs Let_def init_timer_service_def)
  have "delayed_resume cur h ord th e = Inr ?e1"
    using assms t by (simp add: delayed_resume_def Let_def)
  moreover have inv: "timer_inv ?t"
    using assms(1) by (simp add: timer_inv_def init_timer_service_def word_gt_0)
  have "run_turn thread_resume 8 1 0 (timer_spec ?t) ?t ?e1 =
      Inr (Some ((init_timer_service 0)\<lparr>read_buffer := 1\<rparr>,
                 ?e1\<lparr>loops := (loops e)[i := dispatch_user_event h (loops e ! i)]\<rparr>))"
  proof -
    have "thread_resume h cur ?e1 = Inr (?e1\<lparr>loops := (loops e)[i := dispatch_user_event h (loops e ! i)]\<rparr>)"
    proof -
      have "thread_id cur \<noteq> kAnyThread" using assms(2) by (cases cur) (simp add: thread_any_def)
      with assms(3,5) show ?thesis by (simp add: thread_resume_def resolve_thread_def Let_def)
    qed
    with run_turn_first_mark [OF inv, of "order_ns ord" "[(h, cur)]" "[]" 0 thread_resume ?e1]
    show ?thesis by (simp add: init_timer_service_def)
  qed
  ultimately show ?thesis using assms(4)
    by (intro exI [of _ ?e1]) (simp add: timer_turn_def)
qed

text \<open>The number of worker threads follows the configured option and is never zero, and a
  constructed engine has one event loop per thread, of which every loop but the first attaches to
  the ring of the first.\<close>

theorem make_engine_loops:
  assumes "make_engine cores c answers = Inr e"
    and "unat (threads (validate cores c)) \<le> length answers"
  shows "threads (validate cores c) \<noteq> 0 \<and> length (loops e) = unat (threads (validate cores c)) \<and>
     attached_wq (loops e ! 0) = None \<and>
     (\<forall>i. 0 < i \<and> i < length (loops e) \<longrightarrow> attached_wq (loops e ! i) = Some (io_fd (loops e ! 0)))"
proof -
  let ?n = "unat (threads (validate cores c))"
  have nz: "threads (validate cores c) \<noteq> 0" by (simp add: validate_threads Let_def)
  from assms obtain a rest l0 ls where
    r: "take ?n answers = a # rest"
    and l0: "(case a of (rc, ring, efd, wrc) \<Rightarrow> initialise rc ring efd wrc) = Inr l0"
    and ls: "map_outcome (\<lambda>(rc, ring, efd, wrc). initialise_shared (io_fd l0) rc ring efd wrc) rest = Inr ls"
    and e: "loops e = l0 # ls"
    by (auto simp: make_engine_def Let_def split: list.splits)
  have "length (take ?n answers) = ?n" using assms(2) by simp
  then have len: "length (loops e) = ?n" using r e length_map_outcome [OF ls] by simp
  have first: "attached_wq l0 = None"
    using l0 by (auto dest: attached_wq_initialise split: prod.splits)
  have "attached_wq (ls ! j) = Some (io_fd l0)" if "j < length ls" for j
    using map_outcome_nth [OF ls, of j] that length_map_outcome [OF ls]
    by (auto dest: attached_wq_initialise split: prod.splits)
  with nz len first e show ?thesis by (auto simp: nth_Cons split: nat.splits)
qed

text \<open>Stopping the engine writes a wake-up to the loop of every worker that was still running,
  so that none stays asleep, and leaves the queues untouched; stopping again changes nothing.\<close>

theorem stop_wakes_running_workers:
  assumes "\<forall>l \<in> set (loops e). efd_write_result l = 8"
    and "length (workers e) = length (loops e)"
  shows "(\<forall>i < length (loops e). \<not> workers e ! i \<longrightarrow> 0 < wakes (loops (stop_workers e) ! i)) \<and>
     queued (stop_workers e) = queued e \<and> stop_workers (stop_workers e) = stop_workers e"
proof -
  have "map write_handles (stop_loops (workers e) (loops e)) = map write_handles (loops e)"
    by (rule nth_equalityI) (auto simp: stop_loops_nth wake_def)
  then show ?thesis using assms
    by (auto simp: stop_workers_def queued_def stop_loops_nth wake_def comp_def)
qed

section \<open>Witnesses\<close>

definition demo_engine :: engine where
  "demo_engine = \<lparr>loops = [demo_loop\<lparr>write_handles := [Coroutine_alt 8], loop_size := 1\<rparr>, demo_loop],
     timers = replicate 2 (init_timer_service 0), workers = [False, False],
     engine_configs = default_configs\<rparr>"

lemma demo_engine_accepts: "accepts demo_engine (Thread_t 0)" "accepts demo_engine thread_any"
  by (simp_all add: accepts_def demo_engine_def thread_any_def)

lemma demo_engine_room: "2 \<le> room demo_engine"
  by (simp add: room_def demo_engine_def event_size_def demo_io_defs)

theorem thread_resume_target_witness:
  "\<exists>i < length (loops demo_engine).
     thread_resume (Coroutine_alt 16) thread_any demo_engine =
       Inr (demo_engine\<lparr>loops := (loops demo_engine)[i :=
              dispatch_user_event (Coroutine_alt 16) (loops demo_engine ! i)]\<rparr>) \<and>
     (\<forall>el \<in> set (loops demo_engine). event_size (loops demo_engine ! i) \<le> event_size el)"
  using thread_resume_target [OF demo_engine_accepts(2), of "Coroutine_alt 16"] demo_engine_room
  by (simp add: thread_any_def)

theorem thread_resume_all_queued_witness:
  "\<exists>e'. fold_outcome (\<lambda>(h, th). thread_resume h th)
       [(Coroutine_alt 16, thread_any), (Coroutine_alt 24, Thread_t 0)] demo_engine = Inr e' \<and>
     queued e' = {#Coroutine_alt 8, Coroutine_alt 16, Coroutine_alt 24#}"
  using thread_resume_all_queued
    [of "[(Coroutine_alt 16, thread_any), (Coroutine_alt 24, Thread_t 0)]" demo_engine]
    demo_engine_accepts demo_engine_room
  by (simp add: queued_def demo_engine_def demo_io_defs add_mset_commute)

theorem delayed_resume_ignores_thread_witness:
  "\<exists>e1. delayed_resume (Thread_t 0) (Coroutine_alt 16) (in_seconds 2) (Thread_t 1) demo_engine = Inr e1 \<and>
     timer_turn 0 8 1 0 (timer_spec (timers e1 ! 0)) e1 =
       Inr (Some (demo_engine\<lparr>loops := (loops demo_engine)[0 :=
                      dispatch_user_event (Coroutine_alt 16) (loops demo_engine ! 0)],
                    timers := (timers demo_engine)[0 := (init_timer_service 0)\<lparr>read_buffer := 1\<rparr>]\<rparr>))"
  by (rule delayed_resume_ignores_thread)
    (simp_all add: in_seconds_def seconds_def thread_any_def demo_engine_def kAnyThread_def)

theorem make_engine_loops_witness:
  "\<exists>e. make_engine 0 (default_configs\<lparr>threads := 2\<rparr>) [(0, 3, 4, 8), (0, 5, 6, 8)] = Inr e \<and>
     length (loops e) = 2 \<and> attached_wq (loops e ! 1) = Some (io_fd (loops e ! 0))"
proof -
  let ?c = "default_configs\<lparr>threads := 2\<rparr>"
  have v: "threads (validate 0 ?c) = 2" by (simp add: validate_threads default_configs_def)
  obtain e where e: "make_engine 0 ?c [(0, 3, 4, 8), (0, 5, 6, 8)] = Inr e"
    using v by (simp add: make_engine_def Let_def initialise_def initialise_shared_def take_Cons')
  from make_engine_loops [OF e] v e show ?thesis by auto
qed

theorem stop_wakes_running_workers_witness:
  "0 < wakes (loops (stop_workers demo_engine) ! 1) \<and> queued (stop_workers demo_engine) = {#Coroutine_alt 8#}"
proof -
  have "\<forall>l \<in> set (loops demo_engine). efd_write_result l = 8"
    "length (workers demo_engine) = length (loops demo_engine)"
    by (simp_all add: demo_engine_def demo_io_defs)
  from stop_wakes_running_workers [OF this] show ?thesis
    by (auto simp: demo_engine_def queued_def demo_io_defs)
qed

end
