(* ===== verification/Lock_Interface.thy ===== *)
theory Lock_Interface
  imports Resume_Interface
begin

text \<open>
  The contract of a lock that coroutines wait for: the specification is \<open>None\<close> (free) or
  \<open>Some q\<close> (taken, with the waiters \<open>q\<close> in the order of their arrival).  A release hands the
  lock to the first waiter or frees it.  The locale states what an implementation promises for each
  operation, and that it then implements every sequence of operations of the specification.
\<close>

datatype 'w lock_op = Try | Wait 'w | Release

text \<open>The specification of one operation: the reply, the new state and the waiter that was handed the
  lock, if any; \<open>None\<close> when a free lock is released.\<close>

type_synonym 'w lock_spec = "'w list option"

fun spec_step :: "'w lock_op \<Rightarrow> 'w lock_spec \<Rightarrow> (bool \<times> 'w lock_spec \<times> 'w list) option" where
  "spec_step Try None = Some (True, Some [], [])"
| "spec_step Try (Some q) = Some (False, Some q, [])"
| "spec_step (Wait w) None = Some (False, Some [], [])"
| "spec_step (Wait w) (Some q) = Some (True, Some (q @ [w]), [])"
| "spec_step Release None = None"
| "spec_step Release (Some []) = Some (True, None, [])"
| "spec_step Release (Some (w # q)) = Some (True, Some q, [w])"

fun spec_run :: "'w lock_op list \<Rightarrow> 'w lock_spec \<Rightarrow> (bool list \<times> 'w lock_spec \<times> 'w list) option" where
  "spec_run [] q = Some ([], q, [])"
| "spec_run (x # xs) q =
     (case spec_step x q of
        None \<Rightarrow> None
      | Some (b, q1, g) \<Rightarrow>
          (case spec_run xs q1 of None \<Rightarrow> None | Some (bs, q2, gs) \<Rightarrow> Some (b # bs, q2, g @ gs)))"

text \<open>The waiters that a sequence of operations leaves suspended, in order.\<close>

fun suspended_by :: "'w lock_op list \<Rightarrow> bool list \<Rightarrow> 'w list" where
  "suspended_by (Wait w # xs) (b # bs) = (if b then w # suspended_by xs bs else suspended_by xs bs)"
| "suspended_by (_ # xs) (_ # bs) = suspended_by xs bs"
| "suspended_by _ _ = []"

abbreviation queue_of :: "'w lock_spec \<Rightarrow> 'w list" where
  "queue_of q \<equiv> (case q of None \<Rightarrow> [] | Some ws \<Rightarrow> ws)"

lemma spec_step_fifo:
  "spec_step x q = Some (b, q1, g) \<Longrightarrow> queue_of q @ suspended_by [x] [b] = g @ queue_of q1"
  by (induction x q rule: spec_step.induct) auto

lemma suspended_by_Cons: "suspended_by (x # xs) (b # bs) = suspended_by [x] [b] @ suspended_by xs bs"
  by (cases x) auto

text \<open>The specification is first in, first out: the waiters handed the lock, followed by those still
  waiting, are the initial ones followed by those that suspended, in order.\<close>

lemma spec_run_fifo:
  "spec_run xs q = Some (bs, q', gs) \<Longrightarrow> queue_of q @ suspended_by xs bs = gs @ queue_of q'"
proof (induction xs arbitrary: q bs gs)
  case (Cons x xs)
  from Cons.prems obtain b q1 g bs1 gs1 where 1: "spec_step x q = Some (b, q1, g)"
    "spec_run xs q1 = Some (bs1, q', gs1)" "bs = b # bs1" "gs = g @ gs1"
    by (auto split: option.splits prod.splits)
  have "queue_of q @ suspended_by (x # xs) bs = (queue_of q @ suspended_by [x] [b]) @ suspended_by xs bs1"
    unfolding 1(3) by (subst suspended_by_Cons) simp
  with spec_step_fifo [OF 1(1)] Cons.IH [OF 1(2)] 1 show ?case by simp
qed simp

text \<open>Running the operations of an implementation.\<close>

fun lock_step ::
  "('s \<Rightarrow> 's \<times> bool) \<Rightarrow> ('w \<Rightarrow> 's \<Rightarrow> ('s \<times> bool) outcome) \<Rightarrow> ('s \<Rightarrow> 's outcome) \<Rightarrow>
   'w lock_op \<Rightarrow> 's \<Rightarrow> ('s \<times> bool) outcome" where
  "lock_step try_op wait_op release_op Try s = Inr (try_op s)"
| "lock_step try_op wait_op release_op (Wait w) s = wait_op w s"
| "lock_step try_op wait_op release_op Release s = bind_outcome (release_op s) (\<lambda>s'. Inr (s', True))"

fun lock_run ::
  "('s \<Rightarrow> 's \<times> bool) \<Rightarrow> ('w \<Rightarrow> 's \<Rightarrow> ('s \<times> bool) outcome) \<Rightarrow> ('s \<Rightarrow> 's outcome) \<Rightarrow>
   'w lock_op list \<Rightarrow> 's \<Rightarrow> ('s \<times> bool list) outcome" where
  "lock_run try_op wait_op release_op [] s = Inr (s, [])"
| "lock_run try_op wait_op release_op (x # xs) s =
     bind_outcome (lock_step try_op wait_op release_op x s) (\<lambda>(s1, b).
       bind_outcome (lock_run try_op wait_op release_op xs s1) (\<lambda>(s2, bs). Inr (s2, b # bs)))"

text \<open>A sequence of operations that the specification allows, in which the waiters are admissible
  for the queue they meet and at most \<open>k\<close> are waiting at any time.\<close>

fun admits :: "('w \<Rightarrow> 'w list \<Rightarrow> bool) \<Rightarrow> nat \<Rightarrow> 'w lock_op list \<Rightarrow> 'w lock_spec \<Rightarrow> bool" where
  "admits adm k [] q = True"
| "admits adm k (x # xs) q =
     ((case x of Wait w \<Rightarrow> 0 < k \<and> adm w (queue_of q) | _ \<Rightarrow> True) \<and>
      (case spec_step x q of
         None \<Rightarrow> False
       | Some (b, q1, g) \<Rightarrow> admits adm (case x of Wait _ \<Rightarrow> k - 1 | _ \<Rightarrow> k) xs q1))"

locale fifo_lock =
  fixes try_op :: "'s \<Rightarrow> 's \<times> bool"
    and wait_op :: "'w \<Rightarrow> 's \<Rightarrow> ('s \<times> bool) outcome"
    and release_op :: "'s \<Rightarrow> 's outcome"
    and rep :: "'s \<Rightarrow> 'w lock_spec \<Rightarrow> bool"
    and adm :: "'s \<Rightarrow> 'w \<Rightarrow> 'w list \<Rightarrow> bool"
    and capacity :: "'s \<Rightarrow> nat"
    and sent :: "'s \<Rightarrow> tagged_event multiset"
    and wake :: "'w \<Rightarrow> tagged_event"
  assumes try_law: "rep s q \<Longrightarrow> \<exists>s'. try_op s = (s', q = None) \<and> rep s' (Some (queue_of q)) \<and>
       adm s' = adm s \<and> capacity s' = capacity s \<and> sent s' = sent s"
    and wait_law: "rep s q \<Longrightarrow> adm s w (queue_of q) \<Longrightarrow> length (queue_of q) < capacity s \<Longrightarrow>
       \<exists>s'. wait_op w s = Inr (s', q \<noteq> None) \<and> rep s' (if q = None then Some [] else Some (queue_of q @ [w])) \<and>
         adm s' = adm s \<and> capacity s' = capacity s \<and> sent s' = sent s"
    and release_last: "rep s (Some []) \<Longrightarrow> \<exists>s'. release_op s = Inr s' \<and> rep s' None \<and>
       adm s' = adm s \<and> capacity s' = capacity s \<and> sent s' = sent s"
    and release_next: "rep s (Some (w # ws)) \<Longrightarrow> \<exists>s'. release_op s = Inr s' \<and> rep s' (Some ws) \<and>
       adm s' = adm s \<and> capacity s \<le> Suc (capacity s') \<and> sent s' = add_mset (wake w) (sent s)"
begin

lemma step_refines:
  assumes "rep s q" and "spec_step x q = Some (b, q1, g)"
    and "case x of Wait w \<Rightarrow> adm s w (queue_of q) \<and> length (queue_of q) < capacity s | _ \<Rightarrow> True"
  shows "\<exists>s1. lock_step try_op wait_op release_op x s = Inr (s1, b) \<and> rep s1 q1 \<and> adm s1 = adm s \<and>
     capacity s \<le> length g + capacity s1 \<and> sent s1 = sent s + mset (map wake g)"
proof (cases x)
  case Try
  with try_law [OF assms(1)] assms(2) show ?thesis by (cases q) auto
next
  case (Wait w)
  with wait_law [OF assms(1), of w] assms(2,3) show ?thesis by (cases q) auto
next
  case Release
  then obtain ws where q: "q = Some ws" using assms(2) by (cases q) auto
  show ?thesis
  proof (cases ws)
    case Nil
    with Release q release_last [of s] assms show ?thesis by auto
  next
    case (Cons w ws')
    with Release q release_next [of s w ws'] assms show ?thesis by auto
  qed
qed

lemma run_refines:
  assumes "rep s q" and "admits (adm s) k xs q" and "length (queue_of q) + k \<le> capacity s"
  shows "\<exists>s' bs q' gs. lock_run try_op wait_op release_op xs s = Inr (s', bs) \<and>
     spec_run xs q = Some (bs, q', gs) \<and> rep s' q' \<and> sent s' = sent s + mset (map wake gs)"
  using assms
proof (induction xs arbitrary: s q k)
  case (Cons x xs)
  let ?k = "case x of Wait _ \<Rightarrow> k - 1 | _ \<Rightarrow> k"
  from Cons.prems(2) obtain b q1 g where x: "spec_step x q = Some (b, q1, g)" "admits (adm s) ?k xs q1"
    by (auto split: option.splits prod.splits)
  have "case x of Wait w \<Rightarrow> adm s w (queue_of q) \<and> length (queue_of q) < capacity s | _ \<Rightarrow> True"
    using Cons.prems(2,3) by (cases x) auto
  from step_refines [OF Cons.prems(1) x(1) this] obtain s1 where s1:
    "lock_step try_op wait_op release_op x s = Inr (s1, b)" "rep s1 q1" "adm s1 = adm s"
    "capacity s \<le> length g + capacity s1" "sent s1 = sent s + mset (map wake g)" by blast
  have "length (queue_of q) + length (suspended_by [x] [b]) = length g + length (queue_of q1)"
    using arg_cong [OF spec_step_fifo [OF x(1)], of length] by simp
  then have "length (queue_of q1) + ?k \<le> capacity s1"
    using Cons.prems(2,3) s1(4) by (cases x) (auto split: if_splits)
  from Cons.IH [OF s1(2) _ this] x(2) s1(3) obtain s' bs q' gs where
    "lock_run try_op wait_op release_op xs s1 = Inr (s', bs)" "spec_run xs q1 = Some (bs, q', gs)"
    "rep s' q'" "sent s' = sent s1 + mset (map wake gs)" by auto
  with x s1 show ?case by auto
qed auto

end

end
