(* ===== verification/Async_Semaphore.thy ===== *)
theory Async_Semaphore
  imports Engine Lock_Interface
begin

text \<open>
  \<open>includes/zab/async_semaphore.hpp\<close>, the binary semaphore \<open>async_counting_semaphore<1>\<close>.  The
  atomic \<open>resuming_\<close> is 0 (free), \<open>kLockFlag\<close> (taken, nobody has queued since the last
  transfer) or the address of the most recent waiter, whose links end in \<open>kLockFlag\<close>.  The holder
  keeps in \<open>transfer_\<close> the waiters that it took from there, reversed into the order of arrival,
  linked and terminated by null.
\<close>

section \<open>Waiters\<close>

record waiter =
  w_thread :: thread_t
  w_next :: addr
  w_handle :: coro

definition new_waiter :: "thread_t \<Rightarrow> waiter" where
  "new_waiter cur = \<lparr>w_thread = cur, w_next = null, w_handle = null\<rparr>"

definition waiter_next :: "(addr \<rightharpoonup> waiter) \<Rightarrow> addr \<Rightarrow> addr option" where
  "waiter_next h = (\<lambda>a. map_option w_next (h a))"

lemma waiter_next_Some [simp]:
  "waiter_next h a = Some r \<longleftrightarrow> (\<exists>w. h a = Some w \<and> w_next w = r)"
  by (simp add: waiter_next_def)

lemma waiter_next_upd [simp]: "waiter_next (h(a := v)) = (waiter_next h)(a := map_option w_next v)"
  by (auto simp: waiter_next_def)

text \<open>The loop that reverses the captured waiters, \<open>do ... while (next && ...)\<close>; \<open>stop\<close> is the
  negation of its condition.\<close>

fun reverse_waiters ::
  "nat \<Rightarrow> (addr \<Rightarrow> bool) \<Rightarrow> addr \<Rightarrow> addr \<Rightarrow> (addr \<rightharpoonup> waiter) \<Rightarrow> ((addr \<rightharpoonup> waiter) \<times> addr) outcome" where
  "reverse_waiters 0 stop p head h = Inl Out_of_fuel"
| "reverse_waiters (Suc n) stop p head h =
     (if p = null then Inl Null_dereference
      else case h p of
        None \<Rightarrow> Inl Bad_address
      | Some w \<Rightarrow>
          let temp = w_next w; h' = h(p \<mapsto> w\<lparr>w_next := head\<rparr>)
          in if stop temp then Inr (h', p) else reverse_waiters n stop temp p h')"

text \<open>What the waiters of a list are, apart from their links.\<close>

definition wake_of :: "waiter \<Rightarrow> thread_t \<times> coro" where
  "wake_of w = (w_thread w, w_handle w)"

definition same_waiters :: "(addr \<rightharpoonup> waiter) \<Rightarrow> (addr \<rightharpoonup> waiter) \<Rightarrow> bool" where
  "same_waiters h h' \<longleftrightarrow> (\<forall>a. map_option wake_of (h a) = map_option wake_of (h' a))"

lemma same_waiters_refl [simp]: "same_waiters h h"
  by (simp add: same_waiters_def)

lemma same_waiters_trans: "same_waiters h h' \<Longrightarrow> same_waiters h' h'' \<Longrightarrow> same_waiters h h''"
  by (simp add: same_waiters_def)

lemma same_waiters_link: "h a = Some w \<Longrightarrow> same_waiters h (h(a \<mapsto> w\<lparr>w_next := p\<rparr>))"
  by (simp add: same_waiters_def wake_of_def)

lemma same_waiters_dom: "same_waiters h h' \<Longrightarrow> h a = None \<longleftrightarrow> h' a = None"
  unfolding same_waiters_def by (metis map_option_is_None)

text \<open>Reversal of \<open>x # xs\<close> onto \<open>ys\<close>; one iteration per waiter.\<close>

lemma reverse_waiters_chain:
  assumes "chain (waiter_next h) p (x # xs) q" and "stop q" and "\<forall>a \<in> set (x # xs). \<not> stop a \<and> a \<noteq> 0"
    and "chain (waiter_next h) head ys 0" and "set (x # xs) \<inter> set ys = {}" and "length (x # xs) \<le> n"
  shows "\<exists>h' r. reverse_waiters n stop p head h = Inr (h', r) \<and>
     chain (waiter_next h') r (rev (x # xs) @ ys) 0 \<and> same_waiters h h' \<and>
     (\<forall>a. a \<notin> set (x # xs) \<longrightarrow> h' a = h a)"
  using assms
proof (induction xs arbitrary: x p head ys h n)
  case Nil
  then obtain w where w: "h x = Some w" "w_next w = q" "p = x" by auto
  obtain m where m: "n = Suc m" using Nil.prems(6) by (cases n) auto
  have "chain (waiter_next (h(x \<mapsto> w\<lparr>w_next := head\<rparr>))) x (x # ys) 0" using Nil.prems by simp
  moreover have "reverse_waiters n stop p head h = Inr (h(x \<mapsto> w\<lparr>w_next := head\<rparr>), x)"
    using w m Nil.prems(2,3) by (simp add: Let_def)
  ultimately show ?case using w by (auto intro!: same_waiters_link)
next
  case (Cons y xs)
  then obtain w where w: "h x = Some w" "w_next w = y" "p = x" "chain (waiter_next h) y (y # xs) q" by auto
  obtain m where m: "n = Suc m" "length (y # xs) \<le> m" using Cons.prems(6) by (cases n) auto
  let ?h = "h(x \<mapsto> w\<lparr>w_next := head\<rparr>)"
  have dx: "x \<notin> set (y # xs)" using chain_distinct [OF Cons.prems(1)] by simp
  have c1: "chain (waiter_next ?h) y (y # xs) q"
    unfolding waiter_next_upd using w(4) by (simp only: chain_upd_other [OF dx])
  have c2: "chain (waiter_next ?h) x (x # ys) 0" using Cons.prems(3,4,5) by simp
  have d: "set (y # xs) \<inter> set (x # ys) = {}" using Cons.prems(5) dx by auto
  have ns: "\<forall>a \<in> set (y # xs). \<not> stop a \<and> a \<noteq> 0" using Cons.prems(3) by simp
  from Cons.IH [OF c1 Cons.prems(2) ns c2 d m(2)] obtain h' r where
    r: "reverse_waiters m stop y x ?h = Inr (h', r)"
      "chain (waiter_next h') r (rev (y # xs) @ x # ys) 0" "same_waiters ?h h'"
      "\<forall>a. a \<notin> set (y # xs) \<longrightarrow> h' a = ?h a" by blast
  have "reverse_waiters n stop p head h = Inr (h', r)"
    using r(1) w m Cons.prems(3) by (simp add: Let_def)
  moreover have "same_waiters h h'" using same_waiters_link [of h x w head, OF w(1)] r(3) same_waiters_trans by blast
  moreover have "\<forall>a. a \<notin> set (x # y # xs) \<longrightarrow> h' a = h a" using r(4) by auto
  ultimately show ?case using r(2) by auto
qed

section \<open>The binary semaphore\<close>

record binary_semaphore =
  b_resuming :: addr
  b_transfer :: addr
  b_waiters :: "addr \<rightharpoonup> waiter"
  b_engine :: engine

definition kLockFlag :: addr where
  "kLockFlag = 1"

definition make_binary_semaphore :: "engine \<Rightarrow> bool \<Rightarrow> binary_semaphore" where
  "make_binary_semaphore e unlocked =
     \<lparr>b_resuming = (if unlocked then 0 else kLockFlag), b_transfer = null, b_waiters = Map.empty,
      b_engine = e\<rparr>"

definition try_aquire :: "binary_semaphore \<Rightarrow> binary_semaphore \<times> bool" where
  "try_aquire s = (if b_resuming s = 0 then (s\<lparr>b_resuming := kLockFlag\<rparr>, True) else (s, False))"

text \<open>\<open>suspend\<close>; the list says which attempts of the weak exchange fail spuriously.\<close>

fun suspend :: "bool list \<Rightarrow> addr \<Rightarrow> binary_semaphore \<Rightarrow> (binary_semaphore \<times> bool) outcome" where
  "suspend fs a s =
     (if b_resuming s = 0
      then (case fs of
              True # fs' \<Rightarrow> suspend fs' a s
            | _ \<Rightarrow> Inr (s\<lparr>b_resuming := kLockFlag\<rparr>, False))
      else case b_waiters s a of
             None \<Rightarrow> Inl Bad_address
           | Some w \<Rightarrow>
               let s' = s\<lparr>b_waiters := (b_waiters s)(a \<mapsto> w\<lparr>w_next := b_resuming s\<rparr>)\<rparr>
               in (case fs of
                     True # fs' \<Rightarrow> suspend fs' a s'
                   | _ \<Rightarrow> Inr (s'\<lparr>b_resuming := a\<rparr>, True)))"

declare suspend.simps [simp del]

text \<open>The awaiter: \<open>await_ready\<close> tries to take the semaphore, \<open>await_suspend\<close> stores the handle and
  queues the waiter at \<open>a\<close>.  The result says whether the coroutine stays suspended.\<close>

definition sem_await ::
  "bool list \<Rightarrow> thread_t \<Rightarrow> addr \<Rightarrow> coro \<Rightarrow> binary_semaphore \<Rightarrow> (binary_semaphore \<times> bool) outcome" where
  "sem_await fs cur a co s =
     (let s0 = s\<lparr>b_waiters := (b_waiters s)(a \<mapsto> new_waiter cur)\<rparr>;
          (s1, ready) = try_aquire s0
      in if ready then Inr (s1, False)
         else suspend fs a (s1\<lparr>b_waiters := (b_waiters s1)(a \<mapsto> (new_waiter cur)\<lparr>w_handle := co\<rparr>)\<rparr>))"

definition lock_stop :: "addr \<Rightarrow> bool" where
  "lock_stop p \<longleftrightarrow> p = null \<or> p = kLockFlag"

definition hand_over :: "addr \<Rightarrow> binary_semaphore \<Rightarrow> binary_semaphore outcome" where
  "hand_over head s =
     (case b_waiters s head of
        None \<Rightarrow> Inl Bad_address
      | Some w \<Rightarrow>
          let s' = s\<lparr>b_transfer := w_next w\<rparr>
          in if w_handle w \<noteq> null
             then bind_outcome (thread_resume (resume_event (w_handle w)) (w_thread w) (b_engine s'))
                    (\<lambda>e. Inr (s'\<lparr>b_engine := e\<rparr>))
             else Inr s')"

definition release :: "nat \<Rightarrow> binary_semaphore \<Rightarrow> binary_semaphore outcome" where
  "release n s =
     (let head = b_transfer s
      in if head = null
         then (if b_resuming s = kLockFlag then Inr (s\<lparr>b_resuming := 0\<rparr>)
               else bind_outcome (reverse_waiters n lock_stop (b_resuming s) head (b_waiters s))
                 (\<lambda>(h, head'). hand_over head' (s\<lparr>b_resuming := kLockFlag, b_waiters := h\<rparr>)))
         else hand_over head s)"

section \<open>The queue it represents\<close>

text \<open>A waiter of the specification: its address, the thread it is resumed on, its coroutine.\<close>

type_synonym sem_waiter = "addr \<times> thread_t \<times> coro"

definition good_waiter :: "(addr \<rightharpoonup> waiter) \<Rightarrow> sem_waiter \<Rightarrow> bool" where
  "good_waiter h = (\<lambda>(a, th, co). map_option wake_of (h a) = Some (th, co) \<and>
     a \<noteq> 0 \<and> a AND kLockFlag = 0 \<and> co \<noteq> 0)"

text \<open>\<open>sem_rep s None\<close>: free.  \<open>sem_rep s (Some q)\<close>: taken, and \<open>q\<close> waits in this order.\<close>

definition taken_rep :: "binary_semaphore \<Rightarrow> addr list \<Rightarrow> addr list \<Rightarrow> bool" where
  "taken_rep s xs ys \<longleftrightarrow> chain (waiter_next (b_waiters s)) (b_transfer s) xs 0 \<and>
     chain (waiter_next (b_waiters s)) (b_resuming s) ys kLockFlag \<and> set xs \<inter> set ys = {}"

definition sem_rep :: "binary_semaphore \<Rightarrow> sem_waiter lock_spec \<Rightarrow> bool" where
  "sem_rep s q \<longleftrightarrow>
     (case q of
        None \<Rightarrow> b_resuming s = 0 \<and> b_transfer s = 0
      | Some ws \<Rightarrow> (\<exists>xs ys. map fst ws = xs @ rev ys \<and> taken_rep s xs ys) \<and>
          (\<forall>w \<in> set ws. good_waiter (b_waiters s) w \<and> accepts (b_engine s) (fst (snd w))) \<and>
          length ws \<le> room (b_engine s))"

definition sem_adm :: "binary_semaphore \<Rightarrow> sem_waiter \<Rightarrow> sem_waiter list \<Rightarrow> bool" where
  "sem_adm s w q \<longleftrightarrow> (case w of (a, th, co) \<Rightarrow>
     a \<noteq> 0 \<and> a AND kLockFlag = 0 \<and> co \<noteq> 0 \<and> accepts (b_engine s) th \<and> a \<notin> set (map fst q))"

lemma kLockFlag_not_0 [simp]: "kLockFlag \<noteq> 0" "0 \<noteq> kLockFlag"
  by (simp_all add: kLockFlag_def)

lemma lock_flag_not_aligned: "a AND kLockFlag = 0 \<Longrightarrow> a \<noteq> kLockFlag"
  by (auto simp: kLockFlag_def)

lemma good_waiter_same: "same_waiters h h' \<Longrightarrow> good_waiter h = good_waiter h'"
  by (auto simp: good_waiter_def same_waiters_def fun_eq_iff)

lemma good_waiter_upd: "fst w \<noteq> a \<Longrightarrow> good_waiter (h(a := v)) w = good_waiter h w"
  by (auto simp: good_waiter_def split: prod.splits)

lemma taken_rep_upd:
  "taken_rep s xs ys \<Longrightarrow> a \<notin> set xs \<union> set ys \<Longrightarrow>
   taken_rep (s\<lparr>b_waiters := (b_waiters s)(a := v)\<rparr>) xs ys"
  by (simp add: taken_rep_def)

lemma taken_resuming: "taken_rep s xs ys \<Longrightarrow> \<forall>a \<in> set ys. a \<noteq> 0 \<Longrightarrow> b_resuming s \<noteq> 0"
  by (cases ys) (auto simp: taken_rep_def)

lemma suspend_free: "b_resuming s = 0 \<Longrightarrow> suspend fs a s = Inr (s\<lparr>b_resuming := kLockFlag\<rparr>, False)"
proof (induction fs)
  case Nil
  then show ?case by (subst suspend.simps) simp
next
  case (Cons f fs)
  then show ?case by (subst suspend.simps) (cases f; simp)
qed

lemma suspend_taken:
  assumes "b_resuming s \<noteq> 0" and "b_waiters s a = Some w"
  shows "suspend fs a s =
     Inr (s\<lparr>b_waiters := (b_waiters s)(a \<mapsto> w\<lparr>w_next := b_resuming s\<rparr>), b_resuming := a\<rparr>, True)"
  using assms
proof (induction fs arbitrary: s w)
  case Nil
  then show ?case by (subst suspend.simps) (simp add: Let_def)
next
  case (Cons f fs)
  let ?s = "s\<lparr>b_waiters := (b_waiters s)(a \<mapsto> w\<lparr>w_next := b_resuming s\<rparr>)\<rparr>"
  have "suspend fs a ?s = Inr (?s\<lparr>b_resuming := a\<rparr>, True)"
    by (subst Cons.IH [of ?s "w\<lparr>w_next := b_resuming s\<rparr>"]) (use Cons.prems in simp_all)
  with Cons.prems show ?case by (subst suspend.simps) (cases f; simp add: Let_def del: fun_upd_apply)
qed

lemma sem_rep_takenI:
  "map fst ws = xs @ rev ys \<Longrightarrow> taken_rep s xs ys \<Longrightarrow>
   \<forall>w \<in> set ws. good_waiter (b_waiters s) w \<Longrightarrow> \<forall>w \<in> set ws. accepts (b_engine s) (fst (snd w)) \<Longrightarrow>
   length ws \<le> room (b_engine s) \<Longrightarrow> sem_rep s (Some ws)"
  by (auto simp: sem_rep_def)

lemma sem_rep_taken_resuming: "sem_rep s (Some ws) \<Longrightarrow> b_resuming s \<noteq> 0"
proof -
  assume r: "sem_rep s (Some ws)"
  then obtain xs ys where q: "map fst ws = xs @ rev ys" "taken_rep s xs ys" by (auto simp: sem_rep_def)
  have "\<forall>w \<in> set ws. fst w \<noteq> 0" using r by (auto simp: sem_rep_def good_waiter_def)
  then have "\<forall>a \<in> set (map fst ws). a \<noteq> 0" by simp
  then show ?thesis using q by (intro taken_resuming [OF q(2)]) auto
qed

lemma sem_try_law:
  "sem_rep s q \<Longrightarrow> \<exists>s'. try_aquire s = (s', q = None) \<and> sem_rep s' (Some (queue_of q)) \<and>
     sem_adm s' = sem_adm s \<and> room (b_engine s') = room (b_engine s) \<and> queued (b_engine s') = queued (b_engine s)"
proof (cases q)
  case None
  assume "sem_rep s q"
  with None show ?thesis
    by (auto simp: try_aquire_def sem_rep_def taken_rep_def sem_adm_def fun_eq_iff)
next
  case (Some ws)
  assume "sem_rep s q"
  with Some sem_rep_taken_resuming [of s ws] show ?thesis by (simp add: try_aquire_def)
qed

lemma sem_await_taken:
  assumes rep: "sem_rep s (Some ws)" and adm: "sem_adm s (a, th, co) ws" and len: "length ws < room (b_engine s)"
  shows "\<exists>s'. sem_await fs th a co s = Inr (s', True) \<and> sem_rep s' (Some (ws @ [(a, th, co)])) \<and>
     b_engine s' = b_engine s"
proof -
  let ?w = "(new_waiter th)\<lparr>w_handle := co, w_next := b_resuming s\<rparr>"
  let ?s = "s\<lparr>b_waiters := (b_waiters s)(a \<mapsto> ?w), b_resuming := a\<rparr>"
  from rep obtain xs ys where q: "map fst ws = xs @ rev ys" "taken_rep s xs ys" by (auto simp: sem_rep_def)
  have a: "a \<notin> set xs" "a \<notin> set ys" "a \<noteq> 0" "a \<noteq> kLockFlag" "a \<notin> fst ` set ws"
    using adm arg_cong [OF q(1), of set] lock_flag_not_aligned by (auto simp: sem_adm_def)
  have res: "b_resuming s \<noteq> 0" by (rule sem_rep_taken_resuming [OF rep])
  have "sem_await fs th a co s = Inr (?s, True)"
    using res by (simp add: sem_await_def try_aquire_def suspend_taken Let_def)
  moreover have t: "taken_rep ?s xs (a # ys)" using q(2) a by (simp add: taken_rep_def)
  have m: "map fst (ws @ [(a, th, co)]) = xs @ rev (a # ys)" using q(1) by simp
  have gs: "\<forall>w \<in> set ws. good_waiter (b_waiters ?s) w"
    using rep a(5) by (auto simp: sem_rep_def good_waiter_upd image_iff)
  have "good_waiter (b_waiters ?s) (a, th, co)"
    using adm by (simp add: good_waiter_def wake_of_def new_waiter_def sem_adm_def)
  with gs have "sem_rep ?s (Some (ws @ [(a, th, co)]))"
    by (intro sem_rep_takenI [OF m t]) (use rep adm len in \<open>auto simp: sem_rep_def sem_adm_def\<close>)
  ultimately show ?thesis by simp
qed

lemma sem_await_free:
  "sem_rep s None \<Longrightarrow> \<exists>s'. sem_await fs th a co s = Inr (s', False) \<and> sem_rep s' (Some []) \<and>
     b_engine s' = b_engine s"
  by (simp add: sem_await_def try_aquire_def sem_rep_def taken_rep_def Let_def)

lemma release_unlock: "sem_rep s (Some []) \<Longrightarrow> release n s = Inr (s\<lparr>b_resuming := 0\<rparr>) \<and> sem_rep (s\<lparr>b_resuming := 0\<rparr>) None"
  by (auto simp: release_def sem_rep_def taken_rep_def)

lemma hand_over_rep:
  assumes rep: "sem_rep s (Some ((a, th, co) # ws))" and t: "b_transfer s = a"
    and q: "a # map fst ws = (a # xs) @ rev ys" "taken_rep s (a # xs) ys"
  shows "\<exists>s' e'. hand_over a s = Inr s' \<and> sem_rep s' (Some ws) \<and> b_engine s' = e' \<and>
     thread_resume (resume_event co) th (b_engine s) = Inr e' \<and> accepts e' = accepts (b_engine s) \<and>
     room (b_engine s) \<le> Suc (room e') \<and> queued e' = add_mset (resume_event co) (queued (b_engine s))"
proof -
  from rep have g: "good_waiter (b_waiters s) (a, th, co)" "accepts (b_engine s) th" "0 < room (b_engine s)"
    by (auto simp: sem_rep_def)
  then obtain w where w: "b_waiters s a = Some w" "w_thread w = th" "w_handle w = co" "co \<noteq> 0"
    by (auto simp: good_waiter_def wake_of_def)
  from eng.resume_total [OF g(2,3), of "resume_event co"] obtain e' where
    e': "thread_resume (resume_event co) th (b_engine s) = Inr e'"
      "queued e' = add_mset (resume_event co) (queued (b_engine s))"
      "accepts e' = accepts (b_engine s)" "room (b_engine s) \<le> Suc (room e')" by blast
  let ?s = "s\<lparr>b_transfer := w_next w, b_engine := e'\<rparr>"
  have "hand_over a s = Inr ?s" using w e'(1) by (simp add: hand_over_def)
  moreover have "taken_rep ?s xs ys" using q(2) w by (auto simp: taken_rep_def)
  then have "sem_rep ?s (Some ws)" using rep q(1) e' by (auto simp: sem_rep_def)
  ultimately show ?thesis using e' by (intro exI [of _ ?s] exI [of _ e']) simp
qed

lemma lock_stop_simps [simp]: "lock_stop 0" "lock_stop kLockFlag"
  by (simp_all add: lock_stop_def)

lemma taken_transfer_first:
  assumes "taken_rep s xs ys" and "map fst ((a, th, co) # ws) = xs @ rev ys" and "b_transfer s \<noteq> 0"
  obtains xs' where "xs = a # xs'" and "b_transfer s = a" and "map fst ws = xs' @ rev ys"
  using assms by (cases xs) (auto simp: taken_rep_def)

lemma release_next:
  assumes rep: "sem_rep s (Some ((a, th, co) # ws))" and n: "length ws < n"
  shows "\<exists>s' e'. release n s = Inr s' \<and> sem_rep s' (Some ws) \<and> b_engine s' = e' \<and>
     thread_resume (resume_event co) th (b_engine s) = Inr e' \<and> accepts e' = accepts (b_engine s) \<and>
     room (b_engine s) \<le> Suc (room e') \<and> queued e' = add_mset (resume_event co) (queued (b_engine s))"
proof -
  from rep obtain xs ys where q: "map fst ((a, th, co) # ws) = xs @ rev ys" "taken_rep s xs ys"
    by (auto simp: sem_rep_def)
  have good: "\<forall>w \<in> set ((a, th, co) # ws). good_waiter (b_waiters s) w"
    "\<forall>w \<in> set ((a, th, co) # ws). accepts (b_engine s) (fst (snd w))"
    "length ((a, th, co) # ws) \<le> room (b_engine s)" using rep by (auto simp: sem_rep_def)
  show ?thesis
  proof (cases "b_transfer s = 0")
    case False
    from taken_transfer_first [OF q(2,1) False] obtain xs' where
      x: "xs = a # xs'" "b_transfer s = a" "map fst ws = xs' @ rev ys" .
    have "a # map fst ws = (a # xs') @ rev ys" using x(3) by simp
    from hand_over_rep [OF rep x(2) this] q(2) x False show ?thesis by (simp add: release_def Let_def)
  next
    case True
    with q have xs: "xs = []" by (cases xs) (auto simp: taken_rep_def)
    have ys1: "rev ys = a # map fst ws" using q(1) xs by simp
    have "length ys = Suc (length ws)" using arg_cong [OF ys1, of length] by simp
    with ys1 n have ys: "rev ys = a # map fst ws" "length ys \<le> n" by simp_all
    then obtain y ys' where y: "ys = y # ys'" by (cases ys) auto
    have ch: "chain (waiter_next (b_waiters s)) (b_resuming s) (y # ys') kLockFlag"
      using q(2) y by (simp add: taken_rep_def)
    have res: "b_resuming s \<noteq> kLockFlag" using ch by simp
    have al: "\<forall>w \<in> set ((a, th, co) # ws). \<not> lock_stop (fst w) \<and> fst w \<noteq> 0"
      using good(1) lock_flag_not_aligned by (auto simp: good_waiter_def lock_stop_def)
    have "set ys = set (a # map fst ws)" by (subst ys(1) [symmetric]) simp
    then have "set (y # ys') = fst ` set ((a, th, co) # ws)" using y by simp
    then have al': "\<forall>b \<in> set (y # ys'). \<not> lock_stop b \<and> b \<noteq> 0" using al by auto
    from reverse_waiters_chain [OF ch lock_stop_simps(2) al', of 0 "[]" n] ys(2) y obtain h r where
      h: "reverse_waiters n lock_stop (b_resuming s) 0 (b_waiters s) = Inr (h, r)"
        "chain (waiter_next h) r (rev (y # ys')) 0" "same_waiters (b_waiters s) h" by auto
    let ?s = "s\<lparr>b_resuming := kLockFlag, b_waiters := h\<rparr>"
    have r: "r = a" using h(2) ys(1) y by simp
    have sem_rep: "sem_rep (?s\<lparr>b_transfer := a\<rparr>) (Some ((a, th, co) # ws))"
      by (rule sem_rep_takenI [of _ "rev ys" "[]"])
        (use ys(1) h(2,3) y r good good_waiter_same [OF h(3)] in \<open>simp_all add: taken_rep_def\<close>)
    have "taken_rep (?s\<lparr>b_transfer := a\<rparr>) (a # map fst ws) []"
      using h(2) ys(1) y r by (simp add: taken_rep_def)
    from hand_over_rep [OF sem_rep _ _ this]
    have "\<exists>s' e'. hand_over a (?s\<lparr>b_transfer := a\<rparr>) = Inr s' \<and> sem_rep s' (Some ws) \<and> b_engine s' = e' \<and>
      thread_resume (resume_event co) th (b_engine s) = Inr e' \<and> accepts e' = accepts (b_engine s) \<and>
      room (b_engine s) \<le> Suc (room e') \<and> queued e' = add_mset (resume_event co) (queued (b_engine s))" by simp
    moreover have "hand_over a (?s\<lparr>b_transfer := a\<rparr>) = hand_over a ?s" by (simp add: hand_over_def Let_def cong: option.case_cong)
    moreover have "release n s = hand_over a ?s" using True res h(1) r by (simp add: release_def)
    ultimately show ?thesis by simp
  qed
qed

text \<open>The semaphore is a first in, first out lock.  \<open>n\<close> bounds the number of waiters that a
  release has to reverse.\<close>

definition sem_wait :: "sem_waiter \<Rightarrow> binary_semaphore \<Rightarrow> (binary_semaphore \<times> bool) outcome" where
  "sem_wait w s = (case w of (a, th, co) \<Rightarrow> sem_await [] th a co s)"

definition sem_capacity :: "nat \<Rightarrow> binary_semaphore \<Rightarrow> nat" where
  "sem_capacity n s = min n (room (b_engine s))"

definition sem_bounded :: "nat \<Rightarrow> binary_semaphore \<Rightarrow> sem_waiter lock_spec \<Rightarrow> bool" where
  "sem_bounded n s q \<longleftrightarrow> sem_rep s q \<and> length (queue_of q) \<le> n"

lemma sem_adm_engine: "accepts (b_engine s') = accepts (b_engine s) \<Longrightarrow> sem_adm s' = sem_adm s"
  by (simp add: sem_adm_def fun_eq_iff)

interpretation sem: fifo_lock try_aquire sem_wait "release n" "sem_bounded n" sem_adm "sem_capacity n"
  "\<lambda>s. queued (b_engine s)" "\<lambda>(a, th, co). resume_event co" for n
proof
  fix s q
  assume "sem_bounded n s q"
  with sem_try_law [of s q] show "\<exists>s'. try_aquire s = (s', q = None) \<and> sem_bounded n s' (Some (queue_of q)) \<and>
    sem_adm s' = sem_adm s \<and> sem_capacity n s' = sem_capacity n s \<and> queued (b_engine s') = queued (b_engine s)"
    by (auto simp: sem_bounded_def sem_capacity_def)
next
  fix s q w
  assume a: "sem_bounded n s q" "sem_adm s w (queue_of q)" "length (queue_of q) < sem_capacity n s"
  obtain b th co where w: "w = (b, th, co)" by (cases w)
  show "\<exists>s'. sem_wait w s = Inr (s', q \<noteq> None) \<and>
      sem_bounded n s' (if q = None then Some [] else Some (queue_of q @ [w])) \<and>
      sem_adm s' = sem_adm s \<and> sem_capacity n s' = sem_capacity n s \<and> queued (b_engine s') = queued (b_engine s)"
  proof (cases q)
    case None
    with a have "sem_rep s None" by (simp add: sem_bounded_def)
    from sem_await_free [OF this, of "[]" th b co] obtain s' where
      "sem_await [] th b co s = Inr (s', False)" "sem_rep s' (Some [])" "b_engine s' = b_engine s" by blast
    with w None sem_adm_engine [of s' s] show ?thesis
      by (intro exI [of _ s']) (simp add: sem_wait_def sem_bounded_def sem_capacity_def)
  next
    case (Some ws)
    with a w have "sem_rep s (Some ws)" "sem_adm s (b, th, co) ws" "length ws < room (b_engine s)" "length ws < n"
      by (simp_all add: sem_bounded_def sem_capacity_def)
    moreover from sem_await_taken [OF this(1,2,3), of "[]"] obtain s' where
      "sem_await [] th b co s = Inr (s', True)" "sem_rep s' (Some (ws @ [(b, th, co)]))"
      "b_engine s' = b_engine s" by blast
    ultimately show ?thesis using w Some sem_adm_engine [of s' s]
      by (intro exI [of _ s']) (simp add: sem_wait_def sem_bounded_def sem_capacity_def)
  qed
next
  fix s
  assume "sem_bounded n s (Some [])"
  with release_unlock [of s n] sem_adm_engine [of "s\<lparr>b_resuming := 0\<rparr>" s] show "\<exists>s'. release n s = Inr s' \<and> sem_bounded n s' None \<and>
    sem_adm s' = sem_adm s \<and> sem_capacity n s' = sem_capacity n s \<and> queued (b_engine s') = queued (b_engine s)"
    by (simp add: sem_bounded_def sem_capacity_def)
next
  fix s w ws
  assume a: "sem_bounded n s (Some (w # ws))"
  obtain b th co where w: "w = (b, th, co)" by (cases w)
  from a w release_next [of s b th co ws n] obtain s' where
    "release n s = Inr s'" "sem_rep s' (Some ws)" "accepts (b_engine s') = accepts (b_engine s)"
    "room (b_engine s) \<le> Suc (room (b_engine s'))"
    "queued (b_engine s') = add_mset (resume_event co) (queued (b_engine s))" by (auto simp: sem_bounded_def)
  with a w sem_adm_engine [of s' s] show "\<exists>s'. release n s = Inr s' \<and> sem_bounded n s' (Some ws) \<and> sem_adm s' = sem_adm s \<and>
    sem_capacity n s \<le> Suc (sem_capacity n s') \<and>
    queued (b_engine s') = add_mset ((\<lambda>(a, th, co). resume_event co) w) (queued (b_engine s))"
    by (intro exI [of _ s']) (simp add: sem_bounded_def sem_capacity_def)
qed

section \<open>Properties\<close>

text \<open>C19: Started free or taken, the binary semaphore implements the first in, first out lock for every
  sequence of \<open>try_aquire\<close>, \<open>co_await\<close> and \<open>release\<close> that only releases a taken semaphore: the
  replies are those of the specification, every waiter that the specification hands the lock to is
  queued for resumption once, and the final state again represents the specification's.\<close>

theorem binary_semaphore_refines_fifo_lock:
  assumes "admits (sem_adm (make_binary_semaphore e unlocked)) k ops (if unlocked then None else Some [])"
    and "k \<le> room e"
  shows "\<exists>s' bs q' gs. lock_run try_aquire sem_wait (release k) ops (make_binary_semaphore e unlocked) = Inr (s', bs) \<and>
     spec_run ops (if unlocked then None else Some []) = Some (bs, q', gs) \<and> sem_rep s' q' \<and>
     queued (b_engine s') = queued e + mset (map (\<lambda>(a, th, co). resume_event co) gs)"
proof -
  let ?s = "make_binary_semaphore e unlocked" and ?q = "if unlocked then None else Some []"
  have "sem_bounded k ?s ?q"
    by (simp add: sem_bounded_def sem_rep_def make_binary_semaphore_def taken_rep_def)
  moreover have "length (queue_of ?q) + k \<le> sem_capacity k ?s"
    using assms(2) by (simp add: sem_capacity_def make_binary_semaphore_def)
  ultimately show ?thesis using sem.run_refines [OF _ assms(1), of k]
    by (fastforce simp: sem_bounded_def make_binary_semaphore_def)
qed

text \<open>A release of a free semaphore dereferences a null pointer: the exchange returns 0, which the
  loop takes for the first waiter.\<close>

theorem release_of_free_faults:
  "release (Suc n) (make_binary_semaphore e True) = Inl Null_dereference"
  by (simp add: release_def make_binary_semaphore_def)

section \<open>Witnesses\<close>

theorem binary_semaphore_refines_fifo_lock_witness:
  "\<exists>s'. lock_run try_aquire sem_wait (release 2)
       [Try, Wait (16, Thread_t 0, 32), Wait (24, Thread_t 1, 40), Release]
       (make_binary_semaphore demo_engine True) = Inr (s', [True, True, True, True]) \<and>
     sem_rep s' (Some [(24, Thread_t 1, 40)]) \<and>
     queued (b_engine s') = {#resume_event 32, Coroutine_alt 8#}"
proof -
  have q: "queued demo_engine = {#Coroutine_alt 8#}" by (simp add: queued_def demo_engine_def demo_io_defs)
  have "admits (sem_adm (make_binary_semaphore demo_engine True)) 2
      [Try, Wait (16, Thread_t 0, 32), Wait (24, Thread_t 1, 40), Release] None"
    by (simp add: sem_adm_def make_binary_semaphore_def kLockFlag_def accepts_def demo_engine_def)
  with binary_semaphore_refines_fifo_lock [of demo_engine True 2
      "[Try, Wait (16, Thread_t 0, 32), Wait (24, Thread_t 1, 40), Release]"] demo_engine_room q
  show ?thesis by auto
qed

end
