(* ===== verification/Binary_Semaphore_Steps.thy ===== *)
theory Binary_Semaphore_Steps
  imports Async_Semaphore
begin

text \<open>
  Threads that use one binary semaphore concurrently, one atomic access at a time.  A thread is
  \<open>Suspending a previous\<close> inside the loop of \<open>suspend\<close>, with the waiter at \<open>a\<close> and its local
  \<open>previous\<close>; \<open>Holding\<close> when it owns the semaphore (it runs the critical section, or a coroutine that
  was resumed as the new owner is queued); \<open>Releasing\<close> inside \<open>release\<close> after its exchange of
  \<open>kLockFlag\<close> for 0 has failed.  The reversal of the captured waiters and the hand over touch only
  memory of the owner and are one step.  The lists \<open>m_transfer_q\<close> and \<open>m_resuming_q\<close> (the two
  queues), and \<open>m_arrived\<close> and \<open>m_granted\<close> (the waiters that suspended and that were resumed, in
  order) are auxiliary: no step reads them.  The memory of a resumed waiter may be used again.
\<close>

datatype sem_agent = Suspending addr addr | Holding | Releasing

record sem_conc =
  m_resuming :: addr
  m_transfer :: addr
  m_heap :: "addr \<rightharpoonup> waiter"
  m_agents :: "sem_agent multiset"
  m_transfer_q :: "addr list"
  m_resuming_q :: "addr list"
  m_arrived :: "(thread_t \<times> coro) list"
  m_granted :: "(thread_t \<times> coro) list"

inductive sem_step :: "sem_conc \<Rightarrow> sem_conc \<Rightarrow> bool" where
  sem_try: "m_resuming s = 0 \<Longrightarrow>
     sem_step s (s\<lparr>m_resuming := kLockFlag, m_agents := add_mset Holding (m_agents s)\<rparr>)"
| sem_enter: "m_heap s a = None \<Longrightarrow> a \<noteq> 0 \<Longrightarrow> a AND kLockFlag = 0 \<Longrightarrow>
     sem_step s (s\<lparr>m_heap := (m_heap s)(a \<mapsto> \<lparr>w_thread = th, w_next = 0, w_handle = co\<rparr>),
                   m_agents := add_mset (Suspending a (m_resuming s)) (m_agents s)\<rparr>)"
| sem_take: "m_agents s = add_mset (Suspending a 0) A \<Longrightarrow> m_resuming s = 0 \<Longrightarrow>
     sem_step s (s\<lparr>m_heap := (m_heap s)(a := None), m_resuming := kLockFlag, m_agents := add_mset Holding A\<rparr>)"
| sem_take_retry: "m_agents s = add_mset (Suspending a 0) A \<Longrightarrow>
     sem_step s (s\<lparr>m_agents := add_mset (Suspending a (m_resuming s)) A\<rparr>)"
| sem_push: "m_agents s = add_mset (Suspending a previous) A \<Longrightarrow> previous \<noteq> 0 \<Longrightarrow> m_resuming s = previous \<Longrightarrow>
     m_heap s a = Some w \<Longrightarrow>
     sem_step s (s\<lparr>m_resuming := a, m_heap := (m_heap s)(a \<mapsto> w\<lparr>w_next := previous\<rparr>), m_agents := A,
                   m_resuming_q := a # m_resuming_q s, m_arrived := m_arrived s @ [wake_of w]\<rparr>)"
| sem_push_retry: "m_agents s = add_mset (Suspending a previous) A \<Longrightarrow> previous \<noteq> 0 \<Longrightarrow> m_heap s a = Some w \<Longrightarrow>
     sem_step s (s\<lparr>m_heap := (m_heap s)(a \<mapsto> w\<lparr>w_next := previous\<rparr>),
                   m_agents := add_mset (Suspending a (m_resuming s)) A\<rparr>)"
| sem_hand_over: "m_agents s = add_mset Holding A \<Longrightarrow> m_transfer s \<noteq> 0 \<Longrightarrow> m_heap s (m_transfer s) = Some w \<Longrightarrow>
     sem_step s (s\<lparr>m_transfer := w_next w, m_heap := (m_heap s)(m_transfer s := None),
                   m_transfer_q := tl (m_transfer_q s), m_granted := m_granted s @ [wake_of w]\<rparr>)"
| sem_unlock: "m_agents s = add_mset Holding A \<Longrightarrow> m_transfer s = 0 \<Longrightarrow> m_resuming s = kLockFlag \<Longrightarrow>
     sem_step s (s\<lparr>m_resuming := 0, m_agents := A\<rparr>)"
| sem_release_fail: "m_agents s = add_mset Holding A \<Longrightarrow> m_transfer s = 0 \<Longrightarrow> m_resuming s \<noteq> kLockFlag \<Longrightarrow>
     sem_step s (s\<lparr>m_agents := add_mset Releasing A\<rparr>)"
| sem_exchange: "m_agents s = add_mset Releasing A \<Longrightarrow>
     reverse_waiters n lock_stop (m_resuming s) 0 (m_heap s) = Inr (h, head) \<Longrightarrow> h head = Some w \<Longrightarrow>
     sem_step s (s\<lparr>m_resuming := kLockFlag, m_transfer := w_next w, m_heap := h(head := None),
                   m_agents := add_mset Holding A,
                   m_transfer_q := tl (rev (m_resuming_q s)), m_resuming_q := [],
                   m_granted := m_granted s @ [wake_of w]\<rparr>)"

definition sem_init :: sem_conc where
  "sem_init = \<lparr>m_resuming = 0, m_transfer = 0, m_heap = Map.empty, m_agents = {#},
     m_transfer_q = [], m_resuming_q = [], m_arrived = [], m_granted = []\<rparr>"

inductive sem_reachable :: "sem_conc \<Rightarrow> bool" where
  sem_start: "sem_reachable sem_init"
| sem_next: "sem_reachable s \<Longrightarrow> sem_step s t \<Longrightarrow> sem_reachable t"

section \<open>Invariant\<close>

fun sem_node :: "sem_agent \<Rightarrow> addr multiset" where
  "sem_node (Suspending a _) = {#a#}"
| "sem_node _ = {#}"

fun owner :: "sem_agent \<Rightarrow> bool" where
  "owner (Suspending _ _) = False"
| "owner _ = True"

definition sem_nodes :: "sem_agent multiset \<Rightarrow> addr multiset" where
  "sem_nodes A = \<Sum>\<^sub># (image_mset sem_node A)"

definition owners :: "sem_agent multiset \<Rightarrow> nat" where
  "owners A = size (filter_mset owner A)"

lemma sem_nodes_simps [simp]:
  "sem_nodes {#} = {#}" "sem_nodes (add_mset ag A) = sem_node ag + sem_nodes A"
  by (simp_all add: sem_nodes_def)

lemma owners_simps [simp]:
  "owners {#} = 0" "owners (add_mset ag A) = (if owner ag then Suc (owners A) else owners A)"
  by (simp_all add: owners_def)

definition live :: "(addr \<rightharpoonup> waiter) \<Rightarrow> addr multiset \<Rightarrow> bool" where
  "live h M \<longleftrightarrow> once M \<and> (\<forall>a \<in># M. h a \<noteq> None \<and> a \<noteq> 0 \<and> a AND kLockFlag = 0)"

definition heap_wake :: "(addr \<rightharpoonup> waiter) \<Rightarrow> addr \<Rightarrow> thread_t \<times> coro" where
  "heap_wake h a = wake_of (the (h a))"

text \<open>The queues: free, with nothing queued and no owner; or taken, with one owner, and both chains
  well formed.  While a thread is in \<open>Releasing\<close>, there is a waiter to resume.\<close>

definition sem_queues :: "sem_conc \<Rightarrow> bool" where
  "sem_queues s \<longleftrightarrow>
     (if m_resuming s = 0
      then owners (m_agents s) = 0 \<and> m_transfer s = 0 \<and> m_transfer_q s = [] \<and> m_resuming_q s = []
      else owners (m_agents s) = 1 \<and>
        chain (waiter_next (m_heap s)) (m_transfer s) (m_transfer_q s) 0 \<and>
        chain (waiter_next (m_heap s)) (m_resuming s) (m_resuming_q s) kLockFlag \<and>
        (Releasing \<in># m_agents s \<longrightarrow> m_transfer_q s = [] \<and> m_resuming_q s \<noteq> []))"

definition sem_queue :: "sem_conc \<Rightarrow> addr list" where
  "sem_queue s = m_transfer_q s @ rev (m_resuming_q s)"

definition sem_inv :: "sem_conc \<Rightarrow> bool" where
  "sem_inv s \<longleftrightarrow> sem_queues s \<and>
     live (m_heap s) (mset (sem_queue s) + sem_nodes (m_agents s)) \<and>
     m_arrived s = m_granted s @ map (heap_wake (m_heap s)) (sem_queue s)"

lemma live_add_mset [simp]:
  "live h (add_mset a M) \<longleftrightarrow> a \<notin># M \<and> h a \<noteq> None \<and> a \<noteq> 0 \<and> a AND kLockFlag = 0 \<and> live h M"
  by (auto simp: live_def)

lemma live_upd: "live h M \<Longrightarrow> a \<notin># M \<Longrightarrow> live (h(a := v)) M"
  by (auto simp: live_def)

lemma heap_wake_upd: "a \<notin> set xs \<Longrightarrow> map (heap_wake (h(a := v))) xs = map (heap_wake h) xs"
  by (auto simp: heap_wake_def)

lemma sem_queues_upd:
  assumes "sem_queues s" and "a \<notin> set (sem_queue s)" and "owners B = owners (m_agents s)"
    and "Releasing \<in># B \<longrightarrow> Releasing \<in># m_agents s"
  shows "sem_queues (s\<lparr>m_heap := (m_heap s)(a := v), m_agents := B\<rparr>)"
  using assms by (simp add: sem_queues_def sem_queue_def)

text \<open>A thread that owns the waiter \<open>a\<close> alone may write it, free it, or start to own it.\<close>

lemma sem_inv_upd:
  assumes inv: "sem_inv s" and a: "a \<notin> set (sem_queue s)" "a \<notin># sem_nodes A"
    and o: "owners B = owners (m_agents s)" and r: "Releasing \<in># B \<longrightarrow> Releasing \<in># m_agents s"
    and n: "live (m_heap s) (mset (sem_queue s) + sem_nodes A)"
    and B: "sem_nodes B = sem_nodes A \<or>
      sem_nodes B = add_mset a (sem_nodes A) \<and> v \<noteq> None \<and> a \<noteq> 0 \<and> a AND kLockFlag = 0"
  shows "sem_inv (s\<lparr>m_heap := (m_heap s)(a := v), m_agents := B\<rparr>)"
proof -
  have q: "sem_queue (s\<lparr>m_heap := (m_heap s)(a := v), m_agents := B\<rparr>) = sem_queue s"
    by (simp add: sem_queue_def)
  have "sem_queues (s\<lparr>m_heap := (m_heap s)(a := v), m_agents := B\<rparr>)"
    using inv a(1) o r by (intro sem_queues_upd) (simp_all add: sem_inv_def)
  moreover have "live ((m_heap s)(a := v)) (mset (sem_queue s) + sem_nodes A)"
    using n a by (intro live_upd) simp_all
  then have "live ((m_heap s)(a := v)) (mset (sem_queue s) + sem_nodes B)"
    using B a by (elim disjE) simp_all
  ultimately show ?thesis using inv a(1) by (simp add: sem_inv_def q heap_wake_upd)
qed

lemma owners_0: "owners A = 0 \<Longrightarrow> ag \<in># A \<Longrightarrow> \<not> owner ag"
  by (metis owners_def count_empty not_in_iff size_eq_0_iff_empty count_filter_mset)

lemma sem_inv_acquire:
  assumes inv: "sem_inv s" and free: "m_resuming s = 0"
  shows "sem_inv (s\<lparr>m_resuming := kLockFlag, m_agents := add_mset Holding (m_agents s)\<rparr>)"
proof -
  have q: "owners (m_agents s) = 0" "m_transfer s = 0" "m_transfer_q s = []" "m_resuming_q s = []"
    using inv free by (simp_all add: sem_inv_def sem_queues_def)
  have "Releasing \<notin># m_agents s" using owners_0 [OF q(1), of Releasing] by auto
  then show ?thesis using inv q by (simp add: sem_inv_def sem_queues_def sem_queue_def)
qed

lemma sem_inv_own:
  assumes inv: "sem_inv s" and ag: "m_agents s = add_mset (Suspending a p) A"
  shows "a \<notin> set (sem_queue s)" "a \<notin># sem_nodes A" "a \<noteq> 0" "a AND kLockFlag = 0"
    "live (m_heap s) (mset (sem_queue s) + sem_nodes A)"
  using inv by (auto simp: sem_inv_def ag)

lemma sem_inv_rewrite:
  assumes inv: "sem_inv s" and ag: "m_agents s = add_mset (Suspending a p) A"
  shows "sem_inv (s\<lparr>m_heap := (m_heap s)(a \<mapsto> w), m_agents := add_mset (Suspending a p') A\<rparr>)"
    and "sem_inv (s\<lparr>m_heap := (m_heap s)(a := None), m_agents := A\<rparr>)"
  using sem_inv_own [OF inv ag] by (auto intro!: sem_inv_upd [OF inv, of a A] simp: ag)

lemma sem_inv_push:
  assumes inv: "sem_inv s" and ag: "m_agents s = add_mset (Suspending a p) A" and p: "p \<noteq> 0"
    "m_resuming s = p" and w: "m_heap s a = Some w"
  shows "sem_inv (s\<lparr>m_resuming := a, m_heap := (m_heap s)(a \<mapsto> w\<lparr>w_next := p\<rparr>), m_agents := A,
                   m_resuming_q := a # m_resuming_q s, m_arrived := m_arrived s @ [wake_of w]\<rparr>)"
proof -
  let ?h = "(m_heap s)(a \<mapsto> w\<lparr>w_next := p\<rparr>)"
  note own = sem_inv_own [OF inv ag]
  have a: "a \<notin> set (m_transfer_q s)" "a \<notin> set (m_resuming_q s)" "a \<noteq> kLockFlag"
    using own lock_flag_not_aligned by (auto simp: sem_queue_def)
  have "live ?h (mset (sem_queue s) + sem_nodes A)" using own by (intro live_upd) simp_all
  moreover have "map (heap_wake ?h) (sem_queue s @ [a]) = map (heap_wake (m_heap s)) (sem_queue s) @ [wake_of w]"
    using heap_wake_upd [OF own(1), of "m_heap s"] by (simp add: heap_wake_def wake_of_def)
  moreover have "sem_queues s" using inv by (simp add: sem_inv_def)
  ultimately show ?thesis using inv a own p
    by (simp add: sem_inv_def sem_queues_def sem_queue_def ag)
qed

lemma sem_inv_hand_over:
  assumes inv: "sem_inv s" and ag: "m_agents s = add_mset Holding A" and t: "m_transfer s \<noteq> 0"
    and w: "m_heap s (m_transfer s) = Some w"
  shows "sem_inv (s\<lparr>m_transfer := w_next w, m_heap := (m_heap s)(m_transfer s := None),
                   m_transfer_q := tl (m_transfer_q s), m_granted := m_granted s @ [wake_of w]\<rparr>)"
proof -
  let ?a = "m_transfer s"
  let ?h = "(m_heap s)(?a := None)"
  have res: "m_resuming s \<noteq> 0" using inv ag by (auto simp: sem_inv_def sem_queues_def)
  then have c: "chain (waiter_next (m_heap s)) ?a (m_transfer_q s) 0"
    "chain (waiter_next (m_heap s)) (m_resuming s) (m_resuming_q s) kLockFlag"
    using inv by (simp_all add: sem_inv_def sem_queues_def)
  with t obtain xs where xs: "m_transfer_q s = ?a # xs" by (cases "m_transfer_q s") auto
  let ?q = "xs @ rev (m_resuming_q s)"
  have l: "live (m_heap s) (add_mset ?a (mset ?q + sem_nodes A))"
    using inv by (simp add: sem_inv_def sem_queue_def xs ag)
  then have "?a \<notin># mset ?q + sem_nodes A" by simp
  then have n: "?a \<notin> set xs" "?a \<notin> set (m_resuming_q s)" "?a \<notin> set ?q" by auto
  have "live ?h (mset ?q + sem_nodes A)" using l by (intro live_upd) simp_all
  moreover have "chain (waiter_next ?h) (w_next w) xs 0" using c(1) xs w n by simp
  moreover have "chain (waiter_next ?h) (m_resuming s) (m_resuming_q s) kLockFlag" using c(2) n by simp
  moreover have "map (heap_wake (m_heap s)) (sem_queue s) = wake_of w # map (heap_wake ?h) ?q"
    unfolding heap_wake_upd [OF n(3)] by (simp add: sem_queue_def xs heap_wake_def w)
  ultimately show ?thesis using inv res xs
    by (simp add: sem_inv_def sem_queues_def sem_queue_def ag split: if_splits)
qed

lemma sem_inv_unlock:
  assumes inv: "sem_inv s" and ag: "m_agents s = add_mset Holding A" and t: "m_transfer s = 0"
    "m_resuming s = kLockFlag"
  shows "sem_inv (s\<lparr>m_resuming := 0, m_agents := A\<rparr>)"
  using assms by (auto simp: sem_inv_def sem_queues_def sem_queue_def)

lemma sem_inv_release_fail:
  assumes inv: "sem_inv s" and ag: "m_agents s = add_mset Holding A" and t: "m_transfer s = 0"
    "m_resuming s \<noteq> kLockFlag"
  shows "sem_inv (s\<lparr>m_agents := add_mset Releasing A\<rparr>)"
proof -
  have "m_resuming s \<noteq> 0" using inv ag by (auto simp: sem_inv_def sem_queues_def)
  moreover from this t inv have "m_transfer_q s = []" "m_resuming_q s \<noteq> []"
    by (auto simp: sem_inv_def sem_queues_def)
  ultimately show ?thesis using inv ag by (simp add: sem_inv_def sem_queues_def sem_queue_def)
qed

lemma reverse_waiters_mono:
  "reverse_waiters n stop p head h = Inr r \<Longrightarrow> n \<le> m \<Longrightarrow> reverse_waiters m stop p head h = Inr r"
proof (induction n arbitrary: m p head h)
  case (Suc n)
  then obtain m' where "m = Suc m'" "n \<le> m'" by (cases m) auto
  with Suc show ?case by (auto simp: Let_def split: if_splits option.splits)
qed simp

text \<open>What the exchange in \<open>release\<close> captures can be reversed and handed over.\<close>

lemma releasing_queue:
  assumes inv: "sem_inv s" and ag: "m_agents s = add_mset Releasing A"
  obtains y ys h head xs where "m_resuming_q s = y # ys" "m_transfer_q s = []"
    "reverse_waiters (length (y # ys)) lock_stop (m_resuming s) 0 (m_heap s) = Inr (h, head)"
    "rev (y # ys) = head # xs" "chain (waiter_next h) head (head # xs) 0" "same_waiters (m_heap s) h"
    "\<forall>a. a \<notin> set (y # ys) \<longrightarrow> h a = m_heap s a" "m_resuming s \<noteq> 0"
proof -
  have res: "m_resuming s \<noteq> 0" using inv ag by (auto simp: sem_inv_def sem_queues_def)
  then have q: "m_transfer_q s = []" "m_resuming_q s \<noteq> []"
    "chain (waiter_next (m_heap s)) (m_resuming s) (m_resuming_q s) kLockFlag"
    using inv ag by (simp_all add: sem_inv_def sem_queues_def)
  then obtain y ys where y: "m_resuming_q s = y # ys" by (cases "m_resuming_q s") auto
  have "live (m_heap s) (mset (y # ys) + sem_nodes A)"
    using inv by (simp add: sem_inv_def sem_queue_def q(1) y ag)
  then have "\<forall>a \<in> set (y # ys). \<not> lock_stop a \<and> a \<noteq> 0"
    using lock_flag_not_aligned unfolding live_def lock_stop_def by auto
  from reverse_waiters_chain [OF q(3) [unfolded y] lock_stop_simps(2) this, of 0 "[]" "length (y # ys)"]
  obtain h r where h: "reverse_waiters (length (y # ys)) lock_stop (m_resuming s) 0 (m_heap s) = Inr (h, r)"
    "chain (waiter_next h) r (rev (y # ys)) 0" "same_waiters (m_heap s) h"
    "\<forall>a. a \<notin> set (y # ys) \<longrightarrow> h a = m_heap s a" by auto
  obtain x xs where x: "rev (y # ys) = x # xs" by (cases "rev (y # ys)") auto
  with h(2) have "r = x" by simp
  with that [OF y q(1) h(1)] x h res show ?thesis by auto
qed

lemma heap_wake_same: "same_waiters h h' \<Longrightarrow> a \<in> dom h \<Longrightarrow> heap_wake h' a = heap_wake h a"
  unfolding same_waiters_def heap_wake_def by (metis domD option.map_sel option.simps(3) option.sel map_option_is_None)

lemma live_same: "same_waiters h h' \<Longrightarrow> live h M \<Longrightarrow> live h' M"
  unfolding live_def using same_waiters_dom by blast

lemma sem_inv_exchange:
  assumes inv: "sem_inv s" and ag: "m_agents s = add_mset Releasing A"
    and rv: "reverse_waiters n lock_stop (m_resuming s) 0 (m_heap s) = Inr (h, head)" and w: "h head = Some w"
  shows "sem_inv (s\<lparr>m_resuming := kLockFlag, m_transfer := w_next w, m_heap := h(head := None),
                   m_agents := add_mset Holding A,
                   m_transfer_q := tl (rev (m_resuming_q s)), m_resuming_q := [],
                   m_granted := m_granted s @ [wake_of w]\<rparr>)"
proof -
  obtain y ys h' head' xs where r: "m_resuming_q s = y # ys" "m_transfer_q s = []"
    "reverse_waiters (length (y # ys)) lock_stop (m_resuming s) 0 (m_heap s) = Inr (h', head')"
    "rev (y # ys) = head' # xs" "chain (waiter_next h') head' (head' # xs) 0" "same_waiters (m_heap s) h'"
    "\<forall>a. a \<notin> set (y # ys) \<longrightarrow> h' a = m_heap s a" "m_resuming s \<noteq> 0"
    by (rule releasing_queue [OF inv ag])
  let ?n = "max n (length (y # ys))"
  have "Inr (h, head) = (Inr (h', head') :: ((addr \<rightharpoonup> waiter) \<times> addr) outcome)"
    using reverse_waiters_mono [OF rv, of ?n] reverse_waiters_mono [OF r(3), of ?n] by simp
  then have hh: "h' = h" "head' = head" by simp_all
  have q: "sem_queue s = head # xs" using r(1,2,4) hh by (simp add: sem_queue_def)
  have "live (m_heap s) (add_mset head (mset xs + sem_nodes A))" using inv by (simp add: sem_inv_def q ag)
  then have l: "live h (add_mset head (mset xs + sem_nodes A))" by (rule live_same [OF r(6) [unfolded hh(1)]])
  then have n: "head \<notin> set xs" "head \<notin># mset xs + sem_nodes A" by auto
  have l2: "live (h(head := None)) (mset xs + sem_nodes A)" using l by (intro live_upd) simp_all
  have "live (m_heap s) (mset (sem_queue s) + sem_nodes (m_agents s))" using inv by (simp add: sem_inv_def)
  then have dom: "set (sem_queue s) \<subseteq> dom (m_heap s)" unfolding live_def by auto
  have "map (heap_wake (m_heap s)) (sem_queue s) = map (heap_wake h) (sem_queue s)"
    by (rule map_cong [OF refl], rule sym, rule heap_wake_same [OF r(6) [unfolded hh(1)]], rule subsetD [OF dom])
  also have "\<dots> = wake_of w # map (heap_wake (h(head := None))) xs"
    unfolding heap_wake_upd [OF n(1)] by (simp add: q heap_wake_def w)
  finally have wk: "m_arrived s = m_granted s @ wake_of w # map (heap_wake (h(head := None))) xs"
    using inv by (simp add: sem_inv_def)
  have "owners A = 0" "Releasing \<notin># A"
    using inv r(8) ag owners_0 [of A Releasing] by (auto simp: sem_inv_def sem_queues_def)
  moreover have "chain (waiter_next (h(head := None))) (w_next w) xs 0" using r(5) w n hh by simp
  moreover have "tl (rev (m_resuming_q s)) = xs" using r(1,4) by simp
  ultimately show ?thesis using l2 wk by (simp add: sem_inv_def sem_queues_def sem_queue_def)
qed

lemma sem_step_inv: "sem_step s t \<Longrightarrow> sem_inv s \<Longrightarrow> sem_inv t"
proof (induction rule: sem_step.induct)
  case (sem_try s)
  then show ?case by (intro sem_inv_acquire)
next
  case (sem_enter s a th co)
  have l: "live (m_heap s) (mset (sem_queue s) + sem_nodes (m_agents s))" using sem_enter(4) by (simp add: sem_inv_def)
  then have "a \<notin># mset (sem_queue s) + sem_nodes (m_agents s)" using sem_enter(1) unfolding live_def by blast
  with l show ?case using sem_enter by (intro sem_inv_upd [where A = "m_agents s"]) simp_all
next
  case (sem_take s a A)
  from sem_inv_acquire [OF sem_inv_rewrite(2) [OF sem_take(3,1)]] sem_take(2) show ?case by simp
next
  case (sem_take_retry s a A)
  then show ?case by (cases "m_resuming s = 0") (auto simp: sem_inv_def sem_queues_def sem_queue_def)
next
  case (sem_push s a previous A w)
  then show ?case by (intro sem_inv_push)
next
  case (sem_push_retry s a previous A w)
  then show ?case by (intro sem_inv_rewrite(1))
next
  case (sem_hand_over s A w)
  then show ?case by (intro sem_inv_hand_over)
next
  case (sem_unlock s A)
  then show ?case by (intro sem_inv_unlock)
next
  case (sem_release_fail s A)
  then show ?case by (intro sem_inv_release_fail)
next
  case (sem_exchange s A n h head w)
  then show ?case by (intro sem_inv_exchange)
qed

lemma sem_reachable_inv [zab_inv]: "sem_reachable s \<Longrightarrow> sem_inv s"
proof (induction rule: sem_reachable.induct)
  case sem_start
  show ?case by (simp add: sem_inv_def sem_init_def sem_queues_def sem_queue_def live_def)
next
  case (sem_next s t)
  then show ?case by (blast intro: sem_step_inv)
qed

section \<open>Properties\<close>

text \<open>C12: However the threads interleave, at most one of them owns the binary semaphore, and one does
  exactly when it is taken.  The waiters are resumed in the order in which they suspended, each at most
  once, and when the semaphore is free every coroutine that suspended has been resumed.\<close>

theorem binary_semaphore_exclusive_fifo:
  assumes "sem_reachable s"
  shows "owners (m_agents s) = (if m_resuming s = 0 then 0 else 1) \<and>
     m_arrived s = m_granted s @ map (heap_wake (m_heap s)) (sem_queue s) \<and>
     (m_resuming s = 0 \<longrightarrow> m_granted s = m_arrived s)"
  using sem_reachable_inv [OF assms] by (simp add: sem_inv_def sem_queues_def sem_queue_def split: if_splits)

text \<open>C13: A release in progress always completes: whatever the other threads did since its exchange
  failed, there is a waiter in the list that it captures, the reversal reaches its end within one
  iteration per waiter, and the waiter that it hands over to is alive.  The same holds of the first
  waiter of \<open>transfer_\<close>.\<close>

theorem binary_semaphore_release_completes:
  assumes "sem_reachable s"
  shows "(Releasing \<in># m_agents s \<longrightarrow> (\<exists>h head w.
        reverse_waiters (length (m_resuming_q s)) lock_stop (m_resuming s) 0 (m_heap s) = Inr (h, head) \<and>
        h head = Some w \<and> head \<in> set (m_resuming_q s))) \<and>
     (m_transfer s \<noteq> 0 \<longrightarrow> m_heap s (m_transfer s) \<noteq> None)"
proof -
  have inv: "sem_inv s" by (rule sem_reachable_inv [OF assms])
  have "\<exists>h head w. reverse_waiters (length (m_resuming_q s)) lock_stop (m_resuming s) 0 (m_heap s) = Inr (h, head) \<and>
        h head = Some w \<and> head \<in> set (m_resuming_q s)" if "Releasing \<in># m_agents s"
  proof -
    from that obtain A where A: "m_agents s = add_mset Releasing A" by (meson multi_member_split)
    obtain y ys h head xs where r: "m_resuming_q s = y # ys" "m_transfer_q s = []"
      "reverse_waiters (length (y # ys)) lock_stop (m_resuming s) 0 (m_heap s) = Inr (h, head)"
      "rev (y # ys) = head # xs" "chain (waiter_next h) head (head # xs) 0" "same_waiters (m_heap s) h"
      "\<forall>a. a \<notin> set (y # ys) \<longrightarrow> h a = m_heap s a" "m_resuming s \<noteq> 0"
      by (rule releasing_queue [OF inv A])
    have "head \<in> set (rev (y # ys))" unfolding r(4) by simp
    then have "head \<in> set (m_resuming_q s)" unfolding r(1) by simp
    moreover obtain w where "h head = Some w" using r(5) by auto
    ultimately show ?thesis using r(1,3) by metis
  qed
  moreover have "m_heap s (m_transfer s) \<noteq> None" if "m_transfer s \<noteq> 0"
    using inv that by (cases "m_transfer_q s") (auto simp: sem_inv_def sem_queues_def split: if_splits)
  ultimately show ?thesis by blast
qed

section \<open>Witnesses\<close>

text \<open>One coroutine takes the semaphore, a second suspends behind it, and the first is in
  \<open>release\<close>.\<close>

lemma demo_sem_run:
  "\<exists>s. sem_reachable s \<and> m_resuming s = 16 \<and> m_agents s = {#Releasing#} \<and> m_resuming_q s = [16] \<and>
     m_arrived s = [(Thread_t 0, 32)] \<and> m_granted s = []"
proof -
  define w where "w = \<lparr>w_thread = Thread_t 0, w_next = 0, w_handle = 32\<rparr>"
  define s1 where "s1 = sem_init\<lparr>m_resuming := kLockFlag, m_agents := {#Holding#}\<rparr>"
  define s2 where "s2 = s1\<lparr>m_heap := (m_heap s1)(16 \<mapsto> w), m_agents := {#Suspending 16 kLockFlag, Holding#}\<rparr>"
  define s3 where "s3 = s2\<lparr>m_resuming := 16, m_heap := (m_heap s2)(16 \<mapsto> w\<lparr>w_next := kLockFlag\<rparr>),
      m_agents := {#Holding#}, m_resuming_q := [16], m_arrived := [wake_of w]\<rparr>"
  define s4 where "s4 = s3\<lparr>m_agents := {#Releasing#}\<rparr>"
  have k: "(16::addr) \<noteq> kLockFlag" "16 AND kLockFlag = 0" by (simp_all add: kLockFlag_def)
  have "sem_step sem_init s1" using sem_try [of sem_init] by (simp add: s1_def sem_init_def)
  moreover have "sem_step s1 s2"
    using sem_enter [of s1 16 "Thread_t 0" 32] k by (simp add: s1_def s2_def w_def sem_init_def)
  moreover have "sem_step s2 s3"
    using sem_push [of s2 16 kLockFlag "{#Holding#}" w] by (simp add: s1_def s2_def s3_def sem_init_def)
  moreover have "sem_step s3 s4"
    using sem_release_fail [of s3 "{#}"] k by (simp add: s1_def s2_def s3_def s4_def sem_init_def)
  ultimately have "sem_reachable s4" by (meson sem_start sem_next)
  then show ?thesis
    by (intro exI [of _ s4]) (simp add: s4_def s3_def s2_def s1_def w_def sem_init_def wake_of_def)
qed

theorem binary_semaphore_exclusive_fifo_witness:
  "\<exists>s. sem_reachable s \<and> owners (m_agents s) = 1 \<and> m_arrived s = [(Thread_t 0, 32)]"
proof -
  from demo_sem_run obtain s where s: "sem_reachable s" "m_resuming s = 16" "m_arrived s = [(Thread_t 0, 32)]" by blast
  with binary_semaphore_exclusive_fifo [OF s(1)] show ?thesis by auto
qed

theorem binary_semaphore_release_completes_witness:
  "\<exists>s h w. sem_reachable s \<and> reverse_waiters 1 lock_stop 16 0 (m_heap s) = Inr (h, 16) \<and> h 16 = Some w"
proof -
  from demo_sem_run obtain s where s: "sem_reachable s" "m_resuming s = 16" "m_agents s = {#Releasing#}"
    "m_resuming_q s = [16]" by blast
  with binary_semaphore_release_completes [OF s(1)] show ?thesis by auto
qed

end
