(* ===== verification/Async_Mutex.thy ===== *)
theory Async_Mutex
  imports Async_Semaphore
begin

text \<open>
  \<open>includes/zab/async_mutex.hpp\<close>: a mutex over the binary semaphore, and the guard that
  \<open>co_await\<close> on it returns.  The guard's pointer to the semaphore is modelled by whether it is set.
  The awaiter is built as \<open>waiter{{sem_}}\<close>, which leaves its \<open>thread_\<close> at the default, any thread.
\<close>

section \<open>Operations\<close>

record async_mutex =
  mutex_sem :: binary_semaphore

datatype lock_guard = Lock_guard (guards: bool)

definition make_mutex :: "engine \<Rightarrow> async_mutex" where
  "make_mutex e = \<lparr>mutex_sem = make_binary_semaphore e True\<rparr>"

definition try_lock :: "async_mutex \<Rightarrow> async_mutex \<times> bool" where
  "try_lock m = (let (s, b) = try_aquire (mutex_sem m) in (m\<lparr>mutex_sem := s\<rparr>, b))"

definition unlock :: "nat \<Rightarrow> async_mutex \<Rightarrow> async_mutex outcome" where
  "unlock n m = bind_outcome (release n (mutex_sem m)) (\<lambda>s. Inr (m\<lparr>mutex_sem := s\<rparr>))"

definition mutex_await :: "bool list \<Rightarrow> addr \<Rightarrow> coro \<Rightarrow> async_mutex \<Rightarrow> (async_mutex \<times> bool) outcome" where
  "mutex_await fs a co m =
     bind_outcome (sem_await fs thread_any a co (mutex_sem m)) (\<lambda>(s, b). Inr (m\<lparr>mutex_sem := s\<rparr>, b))"

definition mutex_await_resume :: lock_guard where
  "mutex_await_resume = Lock_guard True"

text \<open>The move constructor (the new guard, and the one moved from) and the destructor.\<close>

definition move_guard :: "lock_guard \<Rightarrow> lock_guard \<times> lock_guard" where
  "move_guard g = (Lock_guard (guards g), Lock_guard False)"

definition destroy_guard :: "nat \<Rightarrow> lock_guard \<Rightarrow> async_mutex \<Rightarrow> async_mutex outcome" where
  "destroy_guard n g m = (if guards g then unlock n m else Inr m)"

section \<open>The mutex as a lock\<close>

text \<open>A waiter of the mutex is the address of its awaiter and its coroutine.\<close>

type_synonym mutex_waiter = "addr \<times> coro"

definition to_sem :: "mutex_waiter \<Rightarrow> sem_waiter" where
  "to_sem w = (fst w, thread_any, snd w)"

definition mutex_wait :: "mutex_waiter \<Rightarrow> async_mutex \<Rightarrow> (async_mutex \<times> bool) outcome" where
  "mutex_wait w m = mutex_await [] (fst w) (snd w) m"

definition mutex_rep :: "nat \<Rightarrow> async_mutex \<Rightarrow> mutex_waiter lock_spec \<Rightarrow> bool" where
  "mutex_rep n m q = sem_bounded n (mutex_sem m) (map_option (map to_sem) q)"

definition mutex_adm :: "async_mutex \<Rightarrow> mutex_waiter \<Rightarrow> mutex_waiter list \<Rightarrow> bool" where
  "mutex_adm m w q = sem_adm (mutex_sem m) (to_sem w) (map to_sem q)"

lemma queue_of_map [simp]: "queue_of (map_option (map f) q) = map f (queue_of q)"
  by (cases q) simp_all

lemma mutex_wait_sem:
  "mutex_wait w m = bind_outcome (sem_wait (to_sem w) (mutex_sem m)) (\<lambda>(s, b). Inr (m\<lparr>mutex_sem := s\<rparr>, b))"
  by (simp add: mutex_wait_def mutex_await_def sem_wait_def to_sem_def)

lemma mutex_adm_eq: "sem_adm (mutex_sem m') = sem_adm (mutex_sem m) \<Longrightarrow> mutex_adm m' = mutex_adm m"
  by (intro ext) (simp only: mutex_adm_def)

interpretation mtx: fifo_lock try_lock mutex_wait "unlock n" "mutex_rep n" mutex_adm
  "\<lambda>m. sem_capacity n (mutex_sem m)" "\<lambda>m. queued (b_engine (mutex_sem m))" "\<lambda>w. resume_event (snd w)" for n
proof
  fix m q
  assume "mutex_rep n m q"
  from sem.try_law [OF this [unfolded mutex_rep_def]] obtain s' where s':
    "try_aquire (mutex_sem m) = (s', q = None)" "sem_bounded n s' (Some (map to_sem (queue_of q)))"
    "sem_adm s' = sem_adm (mutex_sem m)" "sem_capacity n s' = sem_capacity n (mutex_sem m)"
    "queued (b_engine s') = queued (b_engine (mutex_sem m))" by (cases q) auto
  then show "\<exists>m'. try_lock m = (m', q = None) \<and> mutex_rep n m' (Some (queue_of q)) \<and>
      mutex_adm m' = mutex_adm m \<and> sem_capacity n (mutex_sem m') = sem_capacity n (mutex_sem m) \<and>
      queued (b_engine (mutex_sem m')) = queued (b_engine (mutex_sem m))"
    using mutex_adm_eq [of "m\<lparr>mutex_sem := s'\<rparr>" m] by (simp add: try_lock_def mutex_rep_def)
next
  fix m q w
  assume a: "mutex_rep n m q" "mutex_adm m w (queue_of q)" "length (queue_of q) < sem_capacity n (mutex_sem m)"
  from sem.wait_law [OF a(1) [unfolded mutex_rep_def], of "to_sem w"] a(2,3) obtain s' where s':
    "sem_wait (to_sem w) (mutex_sem m) = Inr (s', q \<noteq> None)"
    "sem_bounded n s' (if q = None then Some [] else Some (map to_sem (queue_of q @ [w])))"
    "sem_adm s' = sem_adm (mutex_sem m)" "sem_capacity n s' = sem_capacity n (mutex_sem m)"
    "queued (b_engine s') = queued (b_engine (mutex_sem m))" by (cases q) (auto simp: mutex_adm_def)
  then show "\<exists>m'. mutex_wait w m = Inr (m', q \<noteq> None) \<and>
      mutex_rep n m' (if q = None then Some [] else Some (queue_of q @ [w])) \<and>
      mutex_adm m' = mutex_adm m \<and> sem_capacity n (mutex_sem m') = sem_capacity n (mutex_sem m) \<and>
      queued (b_engine (mutex_sem m')) = queued (b_engine (mutex_sem m))"
    using mutex_adm_eq [of "m\<lparr>mutex_sem := s'\<rparr>" m]
    by (intro exI [of _ "m\<lparr>mutex_sem := s'\<rparr>"]) (cases q; simp add: mutex_wait_sem mutex_rep_def)
next
  fix m
  assume "mutex_rep n m (Some [])"
  then have "sem_bounded n (mutex_sem m) (Some [])" by (simp add: mutex_rep_def)
  from sem.release_last [OF this] obtain s' where s': "release n (mutex_sem m) = Inr s'" "sem_bounded n s' None"
    "sem_adm s' = sem_adm (mutex_sem m)" "sem_capacity n s' = sem_capacity n (mutex_sem m)"
    "queued (b_engine s') = queued (b_engine (mutex_sem m))" by blast
  then show "\<exists>m'. unlock n m = Inr m' \<and> mutex_rep n m' None \<and> mutex_adm m' = mutex_adm m \<and>
      sem_capacity n (mutex_sem m') = sem_capacity n (mutex_sem m) \<and>
      queued (b_engine (mutex_sem m')) = queued (b_engine (mutex_sem m))"
    using mutex_adm_eq [of "m\<lparr>mutex_sem := s'\<rparr>" m] by (simp add: unlock_def mutex_rep_def)
next
  fix m w ws
  assume "mutex_rep n m (Some (w # ws))"
  then have "sem_bounded n (mutex_sem m) (Some (to_sem w # map to_sem ws))" by (simp add: mutex_rep_def)
  from sem.release_next [OF this] obtain s' where s': "release n (mutex_sem m) = Inr s'"
    "sem_bounded n s' (Some (map to_sem ws))" "sem_adm s' = sem_adm (mutex_sem m)"
    "sem_capacity n (mutex_sem m) \<le> Suc (sem_capacity n s')"
    "queued (b_engine s') = add_mset (resume_event (snd w)) (queued (b_engine (mutex_sem m)))"
    by (auto simp: to_sem_def)
  then show "\<exists>m'. unlock n m = Inr m' \<and> mutex_rep n m' (Some ws) \<and> mutex_adm m' = mutex_adm m \<and>
      sem_capacity n (mutex_sem m) \<le> Suc (sem_capacity n (mutex_sem m')) \<and>
      queued (b_engine (mutex_sem m')) = add_mset (resume_event (snd w)) (queued (b_engine (mutex_sem m)))"
    using mutex_adm_eq [of "m\<lparr>mutex_sem := s'\<rparr>" m] by (simp add: unlock_def mutex_rep_def)
qed

section \<open>Properties\<close>

text \<open>C20: Every sequence of \<open>try_lock\<close>, \<open>co_await\<close> and \<open>unlock\<close> on a new mutex behaves as the first
  in, first out lock; each coroutine that is handed the mutex is queued for resumption once, and the
  coroutines handed the mutex followed by those still waiting are those that suspended, in order.\<close>

theorem mutex_is_fifo_lock:
  assumes "admits (mutex_adm (make_mutex e)) k ops None" and "k \<le> room e"
  shows "\<exists>m' bs q' gs. lock_run try_lock mutex_wait (unlock k) ops (make_mutex e) = Inr (m', bs) \<and>
     spec_run ops None = Some (bs, q', gs) \<and> mutex_rep k m' q' \<and>
     suspended_by ops bs = gs @ queue_of q' \<and>
     queued (b_engine (mutex_sem m')) = queued e + mset (map (\<lambda>w. resume_event (snd w)) gs)"
proof -
  have "mutex_rep k (make_mutex e) None"
    by (simp add: mutex_rep_def make_mutex_def sem_bounded_def sem_rep_def make_binary_semaphore_def)
  moreover have "length (queue_of (None :: mutex_waiter lock_spec)) + k \<le> sem_capacity k (mutex_sem (make_mutex e))"
    using assms(2) by (simp add: sem_capacity_def make_mutex_def make_binary_semaphore_def)
  ultimately obtain m' bs q' gs where r: "lock_run try_lock mutex_wait (unlock k) ops (make_mutex e) = Inr (m', bs)"
    "spec_run ops None = Some (bs, q', gs)" "mutex_rep k m' q'"
    "queued (b_engine (mutex_sem m')) =
       queued (b_engine (mutex_sem (make_mutex e))) + mset (map (\<lambda>w. resume_event (snd w)) gs)"
    using mtx.run_refines [OF _ assms(1), of k] by blast
  with spec_run_fifo [OF r(2)] show ?thesis by (auto simp: make_mutex_def make_binary_semaphore_def)
qed

text \<open>A guard that is moved still releases the mutex exactly once: destroying the guard moved from
  and the new one, in either order, is one \<open>unlock\<close>.\<close>

theorem moved_guard_unlocks_once:
  "bind_outcome (destroy_guard n (snd (move_guard mutex_await_resume)) m)
       (destroy_guard n (fst (move_guard mutex_await_resume))) = unlock n m \<and>
   bind_outcome (destroy_guard n (fst (move_guard mutex_await_resume)) m)
       (destroy_guard n (snd (move_guard mutex_await_resume))) = unlock n m"
  by (cases "unlock n m") (simp_all add: destroy_guard_def move_guard_def mutex_await_resume_def)

text \<open>A coroutine that waits for the mutex is resumed on the least loaded thread, not on the thread
  it awaited on.\<close>

theorem mutex_waiter_any_thread:
  assumes "mutex_rep n m (Some ((a, co) # ws))"
  shows "\<exists>e'. bind_outcome (unlock n m) (\<lambda>m'. Inr (b_engine (mutex_sem m'))) = Inr e' \<and>
     thread_resume (resume_event co) thread_any (b_engine (mutex_sem m)) = Inr e'"
proof -
  have rep: "sem_rep (mutex_sem m) (Some ((a, thread_any, co) # map to_sem ws))" "length (map to_sem ws) < n"
    using assms by (simp_all add: mutex_rep_def sem_bounded_def to_sem_def)
  from release_next [OF rep] show ?thesis by (auto simp: unlock_def)
qed

section \<open>Witnesses\<close>

lemma demo_mutex_admits:
  "admits (mutex_adm (make_mutex demo_engine)) 2 [Try, Wait (16, 32), Wait (24, 40), Release] None"
  by (simp add: mutex_adm_def to_sem_def sem_adm_def make_mutex_def make_binary_semaphore_def kLockFlag_def
      accepts_def demo_engine_def thread_any_def)

theorem mutex_is_fifo_lock_witness:
  "\<exists>m'. lock_run try_lock mutex_wait (unlock 2) [Try, Wait (16, 32), Wait (24, 40), Release] (make_mutex demo_engine) =
       Inr (m', [True, True, True, True]) \<and> mutex_rep 2 m' (Some [(24, 40)])"
  using mutex_is_fifo_lock [OF demo_mutex_admits] demo_engine_room by auto

theorem mutex_waiter_any_thread_witness:
  "\<exists>m e'. bind_outcome (unlock 2 m) (\<lambda>m'. Inr (b_engine (mutex_sem m'))) = Inr e' \<and>
     thread_resume (resume_event 32) thread_any (b_engine (mutex_sem m)) = Inr e'"
proof -
  have "admits (mutex_adm (make_mutex demo_engine)) 2 [Try, Wait (16, 32)] None"
    using demo_mutex_admits by simp
  from mtx.run_refines [of 2 "make_mutex demo_engine" None, OF _ this] demo_engine_room
  obtain m where "mutex_rep 2 m (Some [(16, 32)])"
    by (auto simp: mutex_rep_def make_mutex_def sem_bounded_def sem_rep_def make_binary_semaphore_def sem_capacity_def)
  from mutex_waiter_any_thread [OF this] show ?thesis by blast
qed

end
