(* ===== verification/Counting_Semaphore.thy ===== *)
theory Counting_Semaphore
  imports Async_Semaphore
begin

text \<open>
  \<open>includes/zab/async_semaphore.hpp\<close>, the general \<open>async_counting_semaphore\<close>.
  \<open>active_count_\<close> is the number of free permits, less the number of coroutines that wait;
  \<open>release_count_\<close> the number of releases that \<open>control()\<close> has yet to process; the waiters are
  pushed on \<open>resuming_\<close> and taken over, reversed, into \<open>transfer_\<close>, both ended by null.
  The counters are \<open>ptrdiff_t\<close>; they stay within the number of coroutines and permits and are
  modelled as integers.
\<close>

section \<open>Operations\<close>

record counting_semaphore =
  k_resuming :: addr
  k_transfer :: addr
  k_active :: int
  k_release :: int
  k_waiters :: "addr \<rightharpoonup> waiter"
  k_engine :: engine

definition make_counting_semaphore :: "engine \<Rightarrow> int \<Rightarrow> counting_semaphore" where
  "make_counting_semaphore e start =
     \<lparr>k_resuming = null, k_transfer = null, k_active = start, k_release = 0, k_waiters = Map.empty,
      k_engine = e\<rparr>"

text \<open>The loop \<open>while (result > 0)\<close> around the weak exchange, whose spurious failures are listed.\<close>

fun take_permit :: "bool list \<Rightarrow> counting_semaphore \<Rightarrow> counting_semaphore \<times> bool" where
  "take_permit fs s =
     (if 0 < k_active s
      then (case fs of
              True # fs' \<Rightarrow> take_permit fs' s
            | _ \<Rightarrow> (s\<lparr>k_active := k_active s - 1\<rparr>, True))
      else (s, False))"

declare take_permit.simps [simp del]

definition try_aquire_permit :: "bool list \<Rightarrow> counting_semaphore \<Rightarrow> counting_semaphore \<times> bool" where
  "try_aquire_permit fs s = take_permit fs s"

text \<open>\<open>suspend\<close>.\<close>

fun push_waiter :: "bool list \<Rightarrow> addr \<Rightarrow> counting_semaphore \<Rightarrow> counting_semaphore outcome" where
  "push_waiter fs a s =
     (case k_waiters s a of
        None \<Rightarrow> Inl Bad_address
      | Some w \<Rightarrow>
          let s' = s\<lparr>k_waiters := (k_waiters s)(a \<mapsto> w\<lparr>w_next := k_resuming s\<rparr>)\<rparr>
          in (case fs of
                True # fs' \<Rightarrow> push_waiter fs' a s'
              | _ \<Rightarrow> Inr (s'\<lparr>k_resuming := a\<rparr>)))"

declare push_waiter.simps [simp del]

text \<open>\<open>await_suspend\<close> after its loop has found no permit: count down, then queue.\<close>

definition await_enqueue :: "bool list \<Rightarrow> addr \<Rightarrow> coro \<Rightarrow> counting_semaphore \<Rightarrow> counting_semaphore outcome" where
  "await_enqueue fs a co s =
     (let s1 = s\<lparr>k_active := k_active s - 1\<rparr>
      in case k_waiters s1 a of
           None \<Rightarrow> Inl Bad_address
         | Some w \<Rightarrow> push_waiter fs a (s1\<lparr>k_waiters := (k_waiters s1)(a \<mapsto> w\<lparr>w_handle := co\<rparr>)\<rparr>))"

definition permit_await ::
  "bool list \<Rightarrow> bool list \<Rightarrow> thread_t \<Rightarrow> addr \<Rightarrow> coro \<Rightarrow> counting_semaphore \<Rightarrow> (counting_semaphore \<times> bool) outcome" where
  "permit_await fs gs cur a co s =
     (let s0 = s\<lparr>k_waiters := (k_waiters s)(a \<mapsto> new_waiter cur)\<rparr>;
          (s1, taken) = take_permit fs s0
      in if taken then Inr (s1, False)
         else bind_outcome (await_enqueue gs a co s1) (\<lambda>s2. Inr (s2, True)))"

text \<open>\<open>transfer\<close>: the address of the next waiter, null if there is none.\<close>

definition pop_transfer :: "addr \<Rightarrow> counting_semaphore \<Rightarrow> (addr \<times> counting_semaphore) outcome" where
  "pop_transfer head s =
     (case k_waiters s head of
        None \<Rightarrow> Inl Bad_address
      | Some w \<Rightarrow> Inr (head, s\<lparr>k_transfer := w_next w\<rparr>))"

definition transfer :: "nat \<Rightarrow> counting_semaphore \<Rightarrow> (addr \<times> counting_semaphore) outcome" where
  "transfer n s =
     (let head = k_transfer s
      in if head = null
         then (let previous = k_resuming s; s1 = s\<lparr>k_resuming := null\<rparr>
               in if previous = null then Inr (null, s1)
                  else bind_outcome (reverse_waiters n (\<lambda>p. p = null) previous head (k_waiters s1))
                    (\<lambda>(h, head'). pop_transfer head' (s1\<lparr>k_waiters := h, k_transfer := head'\<rparr>)))
         else pop_transfer head s)"

text \<open>The inner loop of \<open>control()\<close>, which yields until a waiter that has counted down is queued.
  When nothing else runs it finds none, whatever the fuel \<open>m\<close>.\<close>

fun spin_transfer :: "nat \<Rightarrow> nat \<Rightarrow> counting_semaphore \<Rightarrow> (addr \<times> counting_semaphore) outcome" where
  "spin_transfer 0 n s = Inl Out_of_fuel"
| "spin_transfer (Suc m) n s =
     bind_outcome (transfer n s) (\<lambda>(p, s1). if p = null then spin_transfer m n s1 else Inr (p, s1))"

definition resume_waiter :: "addr \<Rightarrow> counting_semaphore \<Rightarrow> counting_semaphore outcome" where
  "resume_waiter p s =
     (case k_waiters s p of
        None \<Rightarrow> Inl Bad_address
      | Some w \<Rightarrow>
          bind_outcome (thread_resume (resume_event (w_handle w)) (w_thread w) (k_engine s))
            (\<lambda>e. Inr (s\<lparr>k_engine := e\<rparr>)))"

text \<open>One iteration of \<open>control()\<close>, up to the decrement of \<open>release_count_\<close>.\<close>

definition grant_one :: "nat \<Rightarrow> nat \<Rightarrow> counting_semaphore \<Rightarrow> counting_semaphore outcome" where
  "grant_one m n s =
     bind_outcome (transfer n s) (\<lambda>(p, s1).
       if p = null
       then (let result = k_active s1; s2 = s1\<lparr>k_active := result + 1\<rparr>
             in if result < 0
                then bind_outcome (spin_transfer m n s2) (\<lambda>(p', s3). resume_waiter p' s3)
                else Inr s2)
       else resume_waiter p (s1\<lparr>k_active := k_active s1 + 1\<rparr>))"

text \<open>\<open>control()\<close> with \<open>count = c\<close>; also returns how often it yielded after an iteration.  A yield
  only lets other coroutines of the thread run.\<close>

fun control :: "nat \<Rightarrow> nat \<Rightarrow> nat \<Rightarrow> u64 \<Rightarrow> counting_semaphore \<Rightarrow> (nat \<times> counting_semaphore) outcome" where
  "control 0 m n c s = Inl Out_of_fuel"
| "control (Suc k) m n c s =
     bind_outcome (grant_one m n s) (\<lambda>s1.
       let waiting = k_release s1; s2 = s1\<lparr>k_release := waiting - 1\<rparr>
       in if waiting = 1 then Inr (0, s2)
          else let c' = c + 1; y = (if c' AND 64 \<noteq> 0 then 1 else 0)
               in bind_outcome (control k m n c' s2) (\<lambda>(ys, s3). Inr (y + ys, s3)))"

definition release_permits :: "nat \<Rightarrow> nat \<Rightarrow> nat \<Rightarrow> int \<Rightarrow> counting_semaphore \<Rightarrow> counting_semaphore outcome" where
  "release_permits k m n update s =
     (let count = k_release s; s1 = s\<lparr>k_release := count + update\<rparr>
      in if count = 0 then bind_outcome (control k m n 0 s1) (\<lambda>(_, s2). Inr s2) else Inr s1)"

section \<open>The waiting queue\<close>

definition count_rep :: "counting_semaphore \<Rightarrow> sem_waiter list \<Rightarrow> bool" where
  "count_rep s ws \<longleftrightarrow>
     (\<exists>xs ys. map fst ws = xs @ rev ys \<and> chain (waiter_next (k_waiters s)) (k_transfer s) xs 0 \<and>
        chain (waiter_next (k_waiters s)) (k_resuming s) ys 0 \<and> set xs \<inter> set ys = {}) \<and>
     (\<forall>w \<in> set ws. good_waiter (k_waiters s) w \<and> accepts (k_engine s) (fst (snd w))) \<and>
     length ws \<le> room (k_engine s)"

text \<open>When no operation is under way, the waiters are as many as \<open>active_count_\<close> is below 0.\<close>

definition balanced :: "counting_semaphore \<Rightarrow> sem_waiter list \<Rightarrow> bool" where
  "balanced s ws \<longleftrightarrow> int (length ws) = max 0 (- k_active s)"

lemma take_permit_free: "0 < k_active s \<Longrightarrow> take_permit fs s = (s\<lparr>k_active := k_active s - 1\<rparr>, True)"
proof (induction fs)
  case Nil
  then show ?case by (subst take_permit.simps) simp
next
  case (Cons f fs)
  then show ?case by (subst take_permit.simps) (cases f; simp)
qed

lemma take_permit_none: "k_active s \<le> 0 \<Longrightarrow> take_permit fs s = (s, False)"
  by (subst take_permit.simps) simp

lemma push_waiter_eq:
  assumes "k_waiters s a = Some w"
  shows "push_waiter fs a s =
     Inr (s\<lparr>k_waiters := (k_waiters s)(a \<mapsto> w\<lparr>w_next := k_resuming s\<rparr>), k_resuming := a\<rparr>)"
  using assms
proof (induction fs arbitrary: s w)
  case Nil
  then show ?case by (subst push_waiter.simps) (simp add: Let_def)
next
  case (Cons f fs)
  let ?s = "s\<lparr>k_waiters := (k_waiters s)(a \<mapsto> w\<lparr>w_next := k_resuming s\<rparr>)\<rparr>"
  have "push_waiter fs a ?s = Inr (?s\<lparr>k_resuming := a\<rparr>)"
    by (subst Cons.IH [of ?s "w\<lparr>w_next := k_resuming s\<rparr>"]) (use Cons.prems in simp_all)
  with Cons.prems show ?case by (subst push_waiter.simps) (cases f; simp add: Let_def del: fun_upd_apply)
qed

lemma count_repI:
  "map fst ws = xs @ rev ys \<Longrightarrow> chain (waiter_next (k_waiters s)) (k_transfer s) xs 0 \<Longrightarrow>
   chain (waiter_next (k_waiters s)) (k_resuming s) ys 0 \<Longrightarrow> set xs \<inter> set ys = {} \<Longrightarrow>
   \<forall>w \<in> set ws. good_waiter (k_waiters s) w \<Longrightarrow> \<forall>w \<in> set ws. accepts (k_engine s) (fst (snd w)) \<Longrightarrow>
   length ws \<le> room (k_engine s) \<Longrightarrow> count_rep s ws"
  unfolding count_rep_def by blast

lemma await_enqueue_rep:
  assumes rep: "count_rep s ws" and w: "k_waiters s a = Some w0" "w_thread w0 = th"
    and a: "a \<notin> set (map fst ws)" "a \<noteq> 0" "a AND kLockFlag = 0" "co \<noteq> 0"
    and e: "accepts (k_engine s) th" "length ws < room (k_engine s)"
  shows "\<exists>s'. await_enqueue fs a co s = Inr s' \<and> count_rep s' (ws @ [(a, th, co)]) \<and>
     k_active s' = k_active s - 1 \<and> k_engine s' = k_engine s \<and> k_release s' = k_release s"
proof -
  let ?w = "w0\<lparr>w_handle := co, w_next := k_resuming s\<rparr>"
  let ?s = "s\<lparr>k_active := k_active s - 1, k_waiters := (k_waiters s)(a \<mapsto> ?w), k_resuming := a\<rparr>"
  from rep obtain xs ys where q: "map fst ws = xs @ rev ys"
    "chain (waiter_next (k_waiters s)) (k_transfer s) xs 0"
    "chain (waiter_next (k_waiters s)) (k_resuming s) ys 0" "set xs \<inter> set ys = {}" by (auto simp: count_rep_def)
  have "a \<notin> set (xs @ rev ys)" using a(1) unfolding q(1) .
  moreover have "a \<notin> fst ` set ws" using a(1) by simp
  ultimately have n: "a \<notin> set xs" "a \<notin> set ys" "a \<notin> fst ` set ws" by simp_all
  have "await_enqueue fs a co s = Inr ?s"
    using w by (simp add: await_enqueue_def push_waiter_eq Let_def)
  moreover have "count_rep ?s (ws @ [(a, th, co)])"
  proof (rule count_repI [of _ xs "a # ys"])
    have "\<forall>w \<in> set ws. good_waiter (k_waiters ?s) w"
    proof
      fix w
      assume "w \<in> set ws"
      then have "fst w \<noteq> a" "good_waiter (k_waiters s) w" using n(3) rep by (auto simp: count_rep_def)
      then show "good_waiter (k_waiters ?s) w" by (simp add: good_waiter_upd)
    qed
    moreover have "good_waiter (k_waiters ?s) (a, th, co)"
      using a w by (simp add: good_waiter_def wake_of_def)
    ultimately show "\<forall>w \<in> set (ws @ [(a, th, co)]). good_waiter (k_waiters ?s) w" by simp
    show "\<forall>w \<in> set (ws @ [(a, th, co)]). accepts (k_engine ?s) (fst (snd w))"
      using rep e by (simp add: count_rep_def)
  qed (use q a n e in simp_all)
  ultimately show ?thesis by (intro exI [of _ ?s]) simp
qed

lemma transfer_none: "count_rep s [] \<Longrightarrow> transfer n s = Inr (0, s)"
  by (simp add: count_rep_def transfer_def Let_def) 

lemma pop_transfer_rep:
  assumes rep: "count_rep s ((a, th, co) # ws)" and t: "k_transfer s = a"
    and q: "map fst ws = xs @ rev ys" "chain (waiter_next (k_waiters s)) a (a # xs) 0"
      "chain (waiter_next (k_waiters s)) (k_resuming s) ys 0" "set (a # xs) \<inter> set ys = {}"
  shows "\<exists>s'. pop_transfer a s = Inr (a, s') \<and> count_rep s' ws \<and>
     k_active s' = k_active s \<and> k_engine s' = k_engine s \<and> k_release s' = k_release s \<and>
     k_waiters s' = k_waiters s"
proof -
  from q(2) obtain w where w: "k_waiters s a = Some w" "chain (waiter_next (k_waiters s)) (w_next w) xs 0" by auto
  have "count_rep (s\<lparr>k_transfer := w_next w\<rparr>) ws"
    by (rule count_repI [of _ xs ys]) (use rep q w in \<open>simp_all add: count_rep_def\<close>)
  with w show ?thesis by (simp add: pop_transfer_def)
qed

lemma transfer_next:
  assumes rep: "count_rep s ((a, th, co) # ws)" and n: "length ws < n"
  shows "\<exists>s'. transfer n s = Inr (a, s') \<and> count_rep s' ws \<and> good_waiter (k_waiters s') (a, th, co) \<and>
     k_active s' = k_active s \<and> k_engine s' = k_engine s \<and> k_release s' = k_release s"
proof -
  from rep obtain xs ys where q: "a # map fst ws = xs @ rev ys"
    "chain (waiter_next (k_waiters s)) (k_transfer s) xs 0"
    "chain (waiter_next (k_waiters s)) (k_resuming s) ys 0" "set xs \<inter> set ys = {}" by (auto simp: count_rep_def)
  have good: "\<forall>w \<in> set ((a, th, co) # ws). good_waiter (k_waiters s) w"
    "\<forall>w \<in> set ((a, th, co) # ws). accepts (k_engine s) (fst (snd w))"
    "length ((a, th, co) # ws) \<le> room (k_engine s)" using rep by (auto simp: count_rep_def)
  show ?thesis
  proof (cases "k_transfer s = 0")
    case False
    with q(1,2) obtain xs' where x: "xs = a # xs'" "k_transfer s = a" "map fst ws = xs' @ rev ys" by (cases xs) auto
    from pop_transfer_rep [OF rep x(2,3)] q x obtain s' where
      "pop_transfer a s = Inr (a, s')" "count_rep s' ws" "k_active s' = k_active s" "k_engine s' = k_engine s"
      "k_release s' = k_release s" "k_waiters s' = k_waiters s" by auto
    with False x good(1) show ?thesis by (simp add: transfer_def Let_def)
  next
    case True
    with q(2) have xs: "xs = []" by simp
    then have ys: "rev ys = a # map fst ws" using q(1) by simp
    then obtain y ys' where y: "ys = y # ys'" by (cases ys) auto
    have len: "length (y # ys') \<le> n" using n arg_cong [OF ys, of length] y by simp
    have "set ys = set (a # map fst ws)" by (subst ys [symmetric]) simp
    then have nz: "\<forall>b \<in> set (y # ys'). b \<noteq> 0 \<and> b \<noteq> 0" using good(1) y by (auto simp: good_waiter_def)
    from reverse_waiters_chain [OF q(3) [unfolded y], of "\<lambda>p. p = 0" 0 "[]" n] nz len obtain h r where
      h: "reverse_waiters n (\<lambda>p. p = 0) (k_resuming s) 0 (k_waiters s) = Inr (h, r)"
        "chain (waiter_next h) r (rev (y # ys')) 0" "same_waiters (k_waiters s) h" by auto
    have r: "r = a" "chain (waiter_next h) a (a # map fst ws) 0" using h(2) ys y by auto
    let ?s = "s\<lparr>k_resuming := 0, k_waiters := h, k_transfer := a\<rparr>"
    have g: "\<forall>w \<in> set ((a, th, co) # ws). good_waiter h w" using good(1) good_waiter_same [OF h(3)] by simp
    have "count_rep ?s ((a, th, co) # ws)"
      by (rule count_repI [of _ "a # map fst ws" "[]"]) (use r g good in simp_all)
    from pop_transfer_rep [OF this, of "map fst ws" "[]"] r obtain s' where
      "pop_transfer a ?s = Inr (a, s')" "count_rep s' ws" "k_active s' = k_active s" "k_engine s' = k_engine s"
      "k_release s' = k_release s" "k_waiters s' = h" by auto
    moreover have "k_resuming s \<noteq> 0" using q(3) y by simp
    then have "transfer n s = pop_transfer a ?s" using True h(1) r(1) by (simp add: transfer_def Let_def)
    ultimately show ?thesis using g by simp
  qed
qed

lemma resume_waiter_good:
  assumes "good_waiter (k_waiters s) (a, th, co)" and "accepts (k_engine s) th" and "0 < room (k_engine s)"
  shows "\<exists>e'. resume_waiter a s = Inr (s\<lparr>k_engine := e'\<rparr>) \<and>
     thread_resume (resume_event co) th (k_engine s) = Inr e' \<and> accepts e' = accepts (k_engine s) \<and>
     room (k_engine s) \<le> Suc (room e') \<and> queued e' = add_mset (resume_event co) (queued (k_engine s))"
proof -
  from assms(1) obtain w where w: "k_waiters s a = Some w" "w_thread w = th" "w_handle w = co"
    by (auto simp: good_waiter_def wake_of_def)
  from eng.resume_total [OF assms(2,3), of "resume_event co"] obtain e' where
    "thread_resume (resume_event co) th (k_engine s) = Inr e'"
    "queued e' = add_mset (resume_event co) (queued (k_engine s))"
    "accepts e' = accepts (k_engine s)" "room (k_engine s) \<le> Suc (room e')" by blast
  with w show ?thesis by (intro exI [of _ e']) (simp add: resume_waiter_def)
qed

text \<open>One iteration of \<open>control()\<close>: the first waiter is resumed, or the permit becomes free.\<close>

lemma grant_one_spec:
  assumes rep: "count_rep s ws" and bal: "balanced s ws" and n: "length ws \<le> n"
  shows "\<exists>s'. grant_one m n s = Inr s' \<and> count_rep s' (tl ws) \<and> balanced s' (tl ws) \<and>
     k_active s' = k_active s + 1 \<and> k_release s' = k_release s \<and>
     fold_outcome (\<lambda>(a, th, co). thread_resume (resume_event co) th) (take 1 ws) (k_engine s) = Inr (k_engine s')"
proof (cases ws)
  case Nil
  with transfer_none [of s n] rep bal show ?thesis
    by (auto simp: grant_one_def balanced_def count_rep_def Let_def)
next
  case (Cons w ws')
  obtain a th co where w: "w = (a, th, co)" by (cases w)
  from transfer_next [of s a th co ws' n] rep n Cons w obtain s1 where s1:
    "transfer n s = Inr (a, s1)" "count_rep s1 ws'" "good_waiter (k_waiters s1) (a, th, co)"
    "k_active s1 = k_active s" "k_engine s1 = k_engine s" "k_release s1 = k_release s" by auto
  let ?s = "s1\<lparr>k_active := k_active s1 + 1\<rparr>"
  have acc: "accepts (k_engine ?s) th" "0 < room (k_engine ?s)"
    using rep Cons w s1(5) by (auto simp: count_rep_def)
  from resume_waiter_good [of ?s a th co] s1(3) acc obtain e' where e':
    "resume_waiter a ?s = Inr (?s\<lparr>k_engine := e'\<rparr>)" "thread_resume (resume_event co) th (k_engine s) = Inr e'"
    "accepts e' = accepts (k_engine s)" "room (k_engine s) \<le> Suc (room e')" using s1(5) by auto
  have "a \<noteq> 0" using s1(3) by (simp add: good_waiter_def)
  then have "grant_one m n s = Inr (?s\<lparr>k_engine := e'\<rparr>)" using s1(1) e'(1) by (simp add: grant_one_def)
  moreover have "length ws' \<le> room e'" using rep Cons e'(4) by (auto simp: count_rep_def)
  then have "count_rep (?s\<lparr>k_engine := e'\<rparr>) ws'" using s1(2,5) e'(3) by (simp add: count_rep_def)
  moreover have "balanced (?s\<lparr>k_engine := e'\<rparr>) ws'" using bal Cons s1(4) by (auto simp: balanced_def)
  ultimately show ?thesis using Cons w s1 e' by simp
qed

lemma control_spec:
  assumes "count_rep s ws" and "balanced s ws" and "length ws \<le> n" and "k_release s = int (Suc j)" and "j < k"
  shows "\<exists>ys s'. control k m n c s = Inr (ys, s') \<and> count_rep s' (drop (Suc j) ws) \<and> balanced s' (drop (Suc j) ws) \<and>
     k_active s' = k_active s + int (Suc j) \<and> k_release s' = 0 \<and>
     fold_outcome (\<lambda>(a, th, co). thread_resume (resume_event co) th) (take (Suc j) ws) (k_engine s) = Inr (k_engine s')"
  using assms
proof (induction j arbitrary: s ws k c)
  case 0
  from grant_one_spec [OF 0(1-3), of m] obtain s1 where s1: "grant_one m n s = Inr s1"
    "count_rep s1 (tl ws)" "balanced s1 (tl ws)" "k_active s1 = k_active s + 1" "k_release s1 = k_release s"
    "fold_outcome (\<lambda>(a, th, co). thread_resume (resume_event co) th) (take 1 ws) (k_engine s) = Inr (k_engine s1)" by blast
  obtain k' where "k = Suc k'" using 0(5) by (cases k) auto
  with s1 0(4) show ?case by (simp add: Let_def count_rep_def balanced_def drop_Suc)
next
  case (Suc j)
  from grant_one_spec [OF Suc.prems(1-3), of m] obtain s1 where s1: "grant_one m n s = Inr s1"
    "count_rep s1 (tl ws)" "balanced s1 (tl ws)" "k_active s1 = k_active s + 1" "k_release s1 = k_release s"
    "fold_outcome (\<lambda>(a, th, co). thread_resume (resume_event co) th) (take 1 ws) (k_engine s) = Inr (k_engine s1)" by blast
  obtain k' where k: "k = Suc k'" "j < k'" using Suc.prems(5) by (cases k) auto
  let ?s = "s1\<lparr>k_release := k_release s1 - 1\<rparr>"
  have "count_rep ?s (tl ws)" "balanced ?s (tl ws)" "length (tl ws) \<le> n" "k_release ?s = int (Suc j)"
    using s1 Suc.prems(3,4) by (simp_all add: count_rep_def balanced_def)
  from Suc.IH [OF this k(2), of "c + 1"] obtain ys s' where s': "control k' m n (c + 1) ?s = Inr (ys, s')"
    "count_rep s' (drop (Suc j) (tl ws))" "balanced s' (drop (Suc j) (tl ws))"
    "k_active s' = k_active ?s + int (Suc j)" "k_release s' = 0"
    "fold_outcome (\<lambda>(a, th, co). thread_resume (resume_event co) th) (take (Suc j) (tl ws)) (k_engine ?s) = Inr (k_engine s')"
    by blast
  have "take (Suc (Suc j)) ws = take 1 ws @ take (Suc j) (tl ws)" by (cases ws) simp_all
  then have "fold_outcome (\<lambda>(a, th, co). thread_resume (resume_event co) th) (take (Suc (Suc j)) ws) (k_engine s) =
      Inr (k_engine s')" using s1(6) s'(6) by (simp add: fold_outcome_append)
  moreover have "k_release s1 \<noteq> 1" using s1(5) Suc.prems(4) by simp
  ultimately show ?case using s1(1,4) s' k by (simp add: Let_def drop_Suc)
qed

section \<open>Properties\<close>

text \<open>\<open>release(update)\<close> on a semaphore with the waiters \<open>ws\<close> returns: it resumes the first
  \<open>update\<close> of them, in the order of arrival and each on the thread it awaited on, the rest keeps
  waiting, and what is left of the update becomes free permits.  Fuel of one iteration per permit and
  per waiter is enough.\<close>

theorem release_grants_in_order:
  assumes "count_rep s ws" and "balanced s ws" and "length ws \<le> n" and "k_release s = 0"
    and "0 < update" and "update \<le> int k"
  shows "\<exists>s'. release_permits k m n update s = Inr s' \<and>
     count_rep s' (drop (nat update) ws) \<and> balanced s' (drop (nat update) ws) \<and>
     k_active s' = k_active s + update \<and> k_release s' = 0 \<and>
     fold_outcome (\<lambda>(a, th, co). thread_resume (resume_event co) th) (take (nat update) ws) (k_engine s) =
       Inr (k_engine s')"
proof -
  obtain j where j: "nat update = Suc j" using assms(5) by (cases "nat update") auto
  then have u: "update = int (Suc j)" by simp
  let ?s = "s\<lparr>k_release := update\<rparr>"
  have "count_rep ?s ws" "balanced ?s ws" "k_release ?s = int (Suc j)" "j < k"
    using assms u by (simp_all add: count_rep_def balanced_def)
  moreover have "nat (1 + int j) = Suc j" by simp
  ultimately show ?thesis using control_spec [of ?s ws n j k m 0] assms(3,4) u
    by (auto simp: release_permits_def)
qed

text \<open>Acquiring and waiting: with a free permit \<open>co_await\<close> takes it and the coroutine goes on;
  without one the coroutine suspends at the end of the queue.  \<open>try_aquire\<close> takes a permit exactly when
  one is free.\<close>

theorem permit_await_spec:
  assumes "count_rep s ws" and "balanced s ws" and "a \<notin> set (map fst ws)" and "a \<noteq> 0" and "a AND kLockFlag = 0"
    and "co \<noteq> 0" and "accepts (k_engine s) th" and "length ws < room (k_engine s)"
  shows "try_aquire_permit fs s = (if 0 < k_active s then (s\<lparr>k_active := k_active s - 1\<rparr>, True) else (s, False)) \<and>
     (\<exists>s'. permit_await fs gs th a co s = Inr (s', k_active s \<le> 0) \<and>
       count_rep s' (if 0 < k_active s then ws else ws @ [(a, th, co)]) \<and>
       balanced s' (if 0 < k_active s then ws else ws @ [(a, th, co)]) \<and>
       k_active s' = k_active s - 1 \<and> k_engine s' = k_engine s)"
proof -
  let ?s = "s\<lparr>k_waiters := (k_waiters s)(a \<mapsto> new_waiter th)\<rparr>"
  have goods: "\<forall>w \<in> set ws. good_waiter (k_waiters ?s) w"
  proof
    fix w
    assume "w \<in> set ws"
    then have "fst w \<noteq> a" "good_waiter (k_waiters s) w" using assms(1,3) by (auto simp: count_rep_def)
    then show "good_waiter (k_waiters ?s) w" by (simp add: good_waiter_upd)
  qed
  from assms(1) obtain xs ys where q: "map fst ws = xs @ rev ys"
    "chain (waiter_next (k_waiters s)) (k_transfer s) xs 0"
    "chain (waiter_next (k_waiters s)) (k_resuming s) ys 0" "set xs \<inter> set ys = {}" by (auto simp: count_rep_def)
  have n: "a \<notin> set xs" "a \<notin> set ys" using assms(3) unfolding q(1) by simp_all
  have rep: "count_rep ?s ws"
    by (rule count_repI [of _ xs ys]) (use q n goods assms(1) in \<open>simp_all add: count_rep_def\<close>)
  show ?thesis
  proof (cases "0 < k_active s")
    case True
    then have "permit_await fs gs th a co s = Inr (?s\<lparr>k_active := k_active s - 1\<rparr>, False)"
      by (simp add: permit_await_def take_permit_free Let_def)
    moreover have "count_rep (?s\<lparr>k_active := k_active s - 1\<rparr>) ws" using rep by (simp add: count_rep_def)
    moreover have "balanced (?s\<lparr>k_active := k_active s - 1\<rparr>) ws" using True assms(2) by (simp add: balanced_def)
    ultimately show ?thesis using True by (simp add: try_aquire_permit_def take_permit_free)
  next
    case False
    from await_enqueue_rep [OF rep, of a "new_waiter th" th co gs] assms(3-8) obtain s' where
      s': "await_enqueue gs a co ?s = Inr s'" "count_rep s' (ws @ [(a, th, co)])"
      "k_active s' = k_active ?s - 1" "k_engine s' = k_engine ?s" by (auto simp: new_waiter_def)
    moreover have "balanced s' (ws @ [(a, th, co)])" using False assms(2) s'(3) by (simp add: balanced_def)
    moreover have "permit_await fs gs th a co s = Inr (s', True)"
      using s'(1) False by (simp add: permit_await_def take_permit_none)
    ultimately show ?thesis using False by (simp add: try_aquire_permit_def take_permit_none)
  qed
qed

text \<open>\<open>await_suspend\<close> checks for a permit and counts down in two separate steps.  If a release runs
  in between, the coroutine suspends although the permit is free: afterwards no permit is in use, no
  release is pending, and the coroutine stays queued and is not resumed.\<close>

theorem await_release_race_loses_permit:
  assumes "count_rep s []" and "k_active s = 0" and "k_release s = 0" and "k_waiters s a = Some (new_waiter th)"
    and "a \<noteq> 0" and "a AND kLockFlag = 0" and "co \<noteq> 0" and "accepts (k_engine s) th" and "0 < room (k_engine s)"
  shows "take_permit fs s = (s, False) \<and>
     (\<exists>s1 s2. release_permits 1 m n 1 s = Inr s1 \<and> k_active s1 = 1 \<and>
        await_enqueue gs a co s1 = Inr s2 \<and> count_rep s2 [(a, th, co)] \<and> k_active s2 = 0 \<and> k_release s2 = 0 \<and>
        k_engine s2 = k_engine s)"
proof -
  let ?s = "s\<lparr>k_release := 0, k_active := 1\<rparr>"
  have "release_permits 1 m n 1 s = Inr ?s"
    using transfer_none [of "s\<lparr>k_release := 1\<rparr>" n] assms(1-3)
    by (simp add: release_permits_def grant_one_def count_rep_def Let_def)
  moreover have "count_rep ?s []" using assms(1) by (simp add: count_rep_def)
  from await_enqueue_rep [OF this, of a "new_waiter th" th co gs] assms(4-9) obtain s2 where
    "await_enqueue gs a co ?s = Inr s2" "count_rep s2 [(a, th, co)]" "k_active s2 = 0" "k_engine s2 = k_engine s"
    "k_release s2 = 0" by (auto simp: new_waiter_def)
  ultimately show ?thesis using take_permit_none [of s fs] assms(2) by auto
qed

section \<open>Witnesses\<close>

lemma demo_count_rep: "count_rep (make_counting_semaphore demo_engine p) []"
  by (simp add: count_rep_def make_counting_semaphore_def)

lemma demo_queue:
  "\<exists>s. permit_await [] [] (Thread_t 0) 16 32 (make_counting_semaphore demo_engine 0) = Inr (s, True) \<and>
     count_rep s [(16, Thread_t 0, 32)] \<and> balanced s [(16, Thread_t 0, 32)] \<and> k_active s = - 1 \<and>
     k_engine s = demo_engine \<and> k_release s = 0"
proof -
  let ?s = "(make_counting_semaphore demo_engine 0)\<lparr>k_waiters := [16 \<mapsto> new_waiter (Thread_t 0)]\<rparr>"
  have "count_rep ?s []" by (simp add: count_rep_def make_counting_semaphore_def)
  from await_enqueue_rep [OF this, of 16 "new_waiter (Thread_t 0)" "Thread_t 0" 32 "[]"] obtain s' where
    s': "await_enqueue [] 16 32 ?s = Inr s'" "count_rep s' [(16, Thread_t 0, 32)]" "k_active s' = - 1"
      "k_engine s' = demo_engine" "k_release s' = 0"
    using demo_engine_accepts(1) demo_engine_room
    by (auto simp: make_counting_semaphore_def new_waiter_def kLockFlag_def)
  moreover have "take_permit [] ?s = (?s, False)" by (simp add: take_permit_none make_counting_semaphore_def)
  moreover have "(make_counting_semaphore demo_engine 0)
      \<lparr>k_waiters := (k_waiters (make_counting_semaphore demo_engine 0))(16 \<mapsto> new_waiter (Thread_t 0))\<rparr> = ?s"
    by (simp add: make_counting_semaphore_def)
  ultimately show ?thesis by (intro exI [of _ s']) (simp add: permit_await_def balanced_def Let_def)
qed

theorem release_grants_in_order_witness:
  "\<exists>s s'. permit_await [] [] (Thread_t 0) 16 32 (make_counting_semaphore demo_engine 0) = Inr (s, True) \<and>
     release_permits 2 0 1 2 s = Inr s' \<and> count_rep s' [] \<and> k_active s' = 1 \<and>
     thread_resume (resume_event 32) (Thread_t 0) demo_engine = Inr (k_engine s')"
proof -
  from demo_queue obtain s where
    s: "permit_await [] [] (Thread_t 0) 16 32 (make_counting_semaphore demo_engine 0) = Inr (s, True)"
      "count_rep s [(16, Thread_t 0, 32)]" "balanced s [(16, Thread_t 0, 32)]" "k_active s = - 1"
      "k_engine s = demo_engine" "k_release s = 0" by blast
  from release_grants_in_order [OF s(2,3), of 1 2 2 0] s show ?thesis by auto
qed

theorem permit_await_spec_witness:
  "\<exists>s'. permit_await [True] [] (Thread_t 0) 16 32 (make_counting_semaphore demo_engine 1) = Inr (s', False) \<and>
     count_rep s' [] \<and> k_active s' = 0"
  using permit_await_spec [OF demo_count_rep [of 1], of 16 32 "Thread_t 0" "[True]" "[]"]
    demo_engine_accepts(1) demo_engine_room
  by (auto simp: balanced_def make_counting_semaphore_def kLockFlag_def)

text \<open>One permit in all, taken; the second coroutine has found none when the holder releases.\<close>

theorem await_release_race_loses_permit_witness:
  "\<exists>s s1 s2. take_permit [] ((make_counting_semaphore demo_engine 1)\<lparr>k_waiters := [16 \<mapsto> new_waiter (Thread_t 0)]\<rparr>) = (s, True) \<and>
     take_permit [] s = (s, False) \<and> release_permits 1 0 1 1 s = Inr s1 \<and>
     await_enqueue [] 16 32 s1 = Inr s2 \<and> count_rep s2 [(16, Thread_t 0, 32)] \<and> k_active s2 = 0"
proof -
  let ?s = "(make_counting_semaphore demo_engine 1)\<lparr>k_waiters := [16 \<mapsto> new_waiter (Thread_t 0)], k_active := 0\<rparr>"
  have "count_rep ?s []" by (simp add: count_rep_def make_counting_semaphore_def)
  from await_release_race_loses_permit [OF this, of 16 "Thread_t 0" 32 "[]" 0 1 "[]"] demo_engine_accepts(1) demo_engine_room
  have "take_permit [] ?s = (?s, False) \<and> (\<exists>s1 s2. release_permits 1 0 1 1 ?s = Inr s1 \<and>
     await_enqueue [] 16 32 s1 = Inr s2 \<and> count_rep s2 [(16, Thread_t 0, 32)] \<and> k_active s2 = 0)"
    by (auto simp: make_counting_semaphore_def kLockFlag_def)
  moreover have "take_permit [] ((make_counting_semaphore demo_engine 1)\<lparr>k_waiters := [16 \<mapsto> new_waiter (Thread_t 0)]\<rparr>) = (?s, True)"
    by (simp add: take_permit_free make_counting_semaphore_def)
  ultimately show ?thesis by blast
qed

end
