(* ===== verification/Async_Barrier.thy ===== *)
theory Async_Barrier
  imports Engine
begin

text \<open>
  \<open>includes/zab/async_barrier.hpp\<close>.  The working set is a linked list of tagged pointers, newest
  first: a plain address is a \<open>waiter\<close>, the flag bits mark arrival tokens and drop tokens.  The
  arrival that brings \<open>count_\<close> from 1 to 0 completes the phase: it takes the oldest
  \<open>expected_\<close> entries off the set, runs the completion function, lowers \<open>expected_\<close> by the
  number of drops among them and resumes the rest.  The completion function is a parameter, a function
  on the state it may change.  \<open>arrive()\<close> has no model: its body (\<open>token->phase_complete_\<close> on a class
  without that operator) compiles for no instance.
\<close>

section \<open>State\<close>

datatype bnode =
    Waiter_node (node_next: addr) (node_handle: coro) (node_thread: thread_t)
  | Token_node (node_next: addr) (node_handle: coro) (node_thread: thread_t)
  | Drop_node (node_next: addr)

record 'u barrier =
  expected :: int
  working_set :: addr
  bar_count :: int
  bar_thread :: thread_t
  nodes :: "addr \<rightharpoonup> bnode"
  bar_engine :: engine
  user :: 'u

definition kDropFlag :: addr where "kDropFlag = 1"
definition kTokenFlag :: addr where "kTokenFlag = 2"
definition kFlagMask :: addr where "kFlagMask = 3"
definition kAddressMask :: addr where "kAddressMask = NOT kFlagMask"

definition make_barrier :: "engine \<Rightarrow> int \<Rightarrow> thread_t \<Rightarrow> 'u \<Rightarrow> 'u barrier" where
  "make_barrier e n th u = \<lparr>expected = n, working_set = 0, bar_count = n, bar_thread = th,
     nodes = Map.empty, bar_engine = e, user = u\<rparr>"

text \<open>The object that a tagged pointer denotes.\<close>

definition node_at :: "(addr \<rightharpoonup> bnode) \<Rightarrow> addr \<Rightarrow> bnode option" where
  "node_at h p =
     (let flag = p AND kFlagMask
      in if flag = 0 then (case h p of Some (Waiter_node n c t) \<Rightarrow> Some (Waiter_node n c t) | _ \<Rightarrow> None)
         else if flag = kTokenFlag
              then (case h (p AND kAddressMask) of Some (Token_node n c t) \<Rightarrow> Some (Token_node n c t) | _ \<Rightarrow> None)
              else (case h (p AND kAddressMask) of Some (Drop_node n) \<Rightarrow> Some (Drop_node n) | _ \<Rightarrow> None))"

definition deref :: "(addr \<rightharpoonup> bnode) \<Rightarrow> addr \<Rightarrow> bnode outcome" where
  "deref h p = (case node_at h p of None \<Rightarrow> Inl Bad_address | Some nd \<Rightarrow> Inr nd)"

definition set_next :: "addr \<Rightarrow> addr \<Rightarrow> (addr \<rightharpoonup> bnode) \<Rightarrow> (addr \<rightharpoonup> bnode)" where
  "set_next p q h =
     (let a = p AND kAddressMask
      in case h a of
           Some (Waiter_node n c t) \<Rightarrow> h(a \<mapsto> Waiter_node q c t)
         | Some (Token_node n c t) \<Rightarrow> h(a \<mapsto> Token_node q c t)
         | Some (Drop_node n) \<Rightarrow> h(a \<mapsto> Drop_node q)
         | None \<Rightarrow> h)"

definition get_next :: "addr \<Rightarrow> (addr \<rightharpoonup> bnode) \<Rightarrow> addr outcome" where
  "get_next p h = bind_outcome (deref h p) (\<lambda>nd. Inr (node_next nd))"

section \<open>Operations\<close>

text \<open>\<open>iterate_linked_list\<close>: the next pointer is read before the function is applied; the function
  says whether to go on.\<close>

fun iterate_linked_list ::
  "nat \<Rightarrow> ('s \<Rightarrow> addr \<rightharpoonup> bnode) \<Rightarrow> (addr \<Rightarrow> bnode \<Rightarrow> 's \<Rightarrow> ('s \<times> bool) outcome) \<Rightarrow> addr \<Rightarrow> 's \<Rightarrow> 's outcome" where
  "iterate_linked_list 0 hp f p s = (if p = 0 then Inr s else Inl Out_of_fuel)"
| "iterate_linked_list (Suc n) hp f p s =
     (if p = 0 then Inr s
      else bind_outcome (deref (hp s) p) (\<lambda>nd.
        bind_outcome (f p nd s) (\<lambda>(s', go).
          if go then iterate_linked_list n hp f (node_next nd) s' else Inr s')))"

text \<open>The push loops: \<open>add_to_working_set\<close> and \<open>add_drop_to_waorking_set\<close>, for a node whose
  tagged pointer is \<open>p\<close>.\<close>

fun add_to_working_set :: "bool list \<Rightarrow> addr \<Rightarrow> 'u barrier \<Rightarrow> 'u barrier" where
  "add_to_working_set [] p b = b\<lparr>nodes := set_next p (working_set b) (nodes b), working_set := p\<rparr>"
| "add_to_working_set (spurious # fs) p b =
     (let b' = b\<lparr>nodes := set_next p (working_set b) (nodes b)\<rparr>
      in if spurious then add_to_working_set fs p b' else b'\<lparr>working_set := p\<rparr>)"

text \<open>One scan of \<open>aquire_window\<close>, and its loop \<open>while (!head)\<close>.\<close>

definition window_scan_step ::
  "int \<Rightarrow> (addr \<rightharpoonup> bnode) \<Rightarrow> addr \<Rightarrow> addr \<Rightarrow> bnode \<Rightarrow> int \<times> addr \<Rightarrow> ((int \<times> addr) \<times> bool) outcome" where
  "window_scan_step ex h first p nd = (\<lambda>(count, head).
     if count + 1 \<ge> ex
     then (if head = 0 then Inr ((count + 1, first), True)
           else bind_outcome (get_next head h) (\<lambda>hd'. Inr ((count + 1, hd'), True)))
     else Inr ((count + 1, head), True))"

definition window_scan :: "nat \<Rightarrow> 'u barrier \<Rightarrow> addr outcome" where
  "window_scan n b =
     bind_outcome (iterate_linked_list n (\<lambda>_. nodes b)
         (window_scan_step (expected b) (nodes b) (working_set b)) (working_set b) (0, 0))
       (\<lambda>(count, head). Inr head)"

fun aquire_window :: "nat \<Rightarrow> nat \<Rightarrow> 'u barrier \<Rightarrow> addr outcome" where
  "aquire_window 0 n b = Inl Out_of_fuel"
| "aquire_window (Suc m) n b =
     bind_outcome (window_scan n b) (\<lambda>head. if head = 0 then aquire_window m n b else Inr head)"

text \<open>The parts of \<open>complete_phase\<close>: trim the window off the set, count the drops, resume.\<close>

definition trim_window :: "nat \<Rightarrow> addr \<Rightarrow> 'u barrier \<Rightarrow> 'u barrier outcome" where
  "trim_window n start b =
     (if working_set b = start then Inr (b\<lparr>working_set := 0\<rparr>)
      else iterate_linked_list n nodes
        (\<lambda>p nd b. if node_next nd = start then Inr (b\<lparr>nodes := set_next p 0 (nodes b)\<rparr>, False)
                  else Inr (b, True)) (working_set b) b)"

definition is_drop :: "bnode \<Rightarrow> bool" where
  "is_drop nd = (case nd of Drop_node _ \<Rightarrow> True | _ \<Rightarrow> False)"

definition amount_to_drop :: "nat \<Rightarrow> addr \<Rightarrow> 'u barrier \<Rightarrow> int outcome" where
  "amount_to_drop n start b =
     iterate_linked_list n (\<lambda>_. nodes b)
       (\<lambda>p nd k. Inr (if is_drop nd then k + 1 else k, True)) start 0"

definition resume_frame :: "addr \<Rightarrow> bnode \<Rightarrow> 'u barrier \<Rightarrow> ('u barrier \<times> bool) outcome" where
  "resume_frame p nd b =
     (case nd of
        Waiter_node _ co th \<Rightarrow>
          if co \<noteq> 0
          then bind_outcome (thread_resume (resume_event co) th (bar_engine b))
                 (\<lambda>e. Inr (b\<lparr>bar_engine := e\<rparr>, True))
          else Inr (b, True)
      | Token_node n co th \<Rightarrow>
          if co = 0 then Inr (b\<lparr>nodes := (nodes b)(p AND kAddressMask \<mapsto> Token_node n kFlagMask th)\<rparr>, True)
          else bind_outcome (thread_resume (resume_event co) th (bar_engine b))
                 (\<lambda>e. Inr (b\<lparr>bar_engine := e\<rparr>, True))
      | Drop_node _ \<Rightarrow> Inr (b\<lparr>nodes := (nodes b)(p AND kAddressMask := None)\<rparr>, True))"

text \<open>\<open>resume_frames\<close>; \<open>job\<close> is the coroutine frame that \<open>execute\<close> makes for the next phase.\<close>

definition resume_frames :: "nat \<Rightarrow> thread_t \<Rightarrow> coro \<Rightarrow> addr \<Rightarrow> 'u barrier \<Rightarrow> 'u barrier outcome" where
  "resume_frames n cur job start b =
     (let count = bar_count b; b1 = b\<lparr>bar_count := count + expected b\<rparr>
      in bind_outcome (iterate_linked_list n nodes resume_frame start b1) (\<lambda>b2.
           if count \<le> - expected b2
           then bind_outcome (execute cur job now (bar_thread b2) (bar_engine b2))
                  (\<lambda>e. Inr (b2\<lparr>bar_engine := e\<rparr>))
           else Inr b2))"

definition complete_phase ::
  "nat \<Rightarrow> nat \<Rightarrow> thread_t \<Rightarrow> coro \<Rightarrow> ('u \<Rightarrow> 'u) \<Rightarrow> 'u barrier \<Rightarrow> 'u barrier outcome" where
  "complete_phase m n cur job completion b =
     bind_outcome (aquire_window m n b) (\<lambda>start.
     bind_outcome (trim_window n start b) (\<lambda>b1.
     bind_outcome (amount_to_drop n start b1) (\<lambda>k.
       resume_frames n cur job start
         (b1\<lparr>user := completion (user b1), expected := expected b1 - k\<rparr>))))"

text \<open>\<open>arrive_and_wait\<close> (the waiter's \<open>await_suspend\<close>) and \<open>arrive_and_drop\<close>.\<close>

definition arrive_and_suspend ::
  "nat \<Rightarrow> nat \<Rightarrow> bool list \<Rightarrow> thread_t \<Rightarrow> coro \<Rightarrow> ('u \<Rightarrow> 'u) \<Rightarrow> addr \<Rightarrow> coro \<Rightarrow> 'u barrier \<Rightarrow> 'u barrier outcome" where
  "arrive_and_suspend m n fs cur job completion a co b =
     (let amount = bar_count b;
          b1 = b\<lparr>bar_count := amount - 1, nodes := (nodes b)(a \<mapsto> Waiter_node 0 co cur)\<rparr>;
          b2 = add_to_working_set fs a b1
      in if amount = 1 then complete_phase m n cur job completion b2 else Inr b2)"

definition arrive_and_drop ::
  "nat \<Rightarrow> nat \<Rightarrow> bool list \<Rightarrow> thread_t \<Rightarrow> coro \<Rightarrow> ('u \<Rightarrow> 'u) \<Rightarrow> addr \<Rightarrow> 'u barrier \<Rightarrow> 'u barrier outcome" where
  "arrive_and_drop m n fs cur job completion a b =
     (let amount = bar_count b;
          b1 = b\<lparr>bar_count := amount - 1, nodes := (nodes b)(a \<mapsto> Drop_node 0)\<rparr>;
          b2 = add_to_working_set fs (a OR kDropFlag) b1
      in if amount = 1 then complete_phase m n cur job completion b2 else Inr b2)"

section \<open>Tagged pointers\<close>

lemma mask_untagged:
  assumes "p AND kFlagMask = 0"
  shows "p AND kAddressMask = p"
proof -
  have "p AND (kFlagMask OR NOT kFlagMask) = (p AND kFlagMask) OR (p AND NOT kFlagMask)"
    by (rule bit.conj_disj_distrib)
  with assms show ?thesis by (simp add: kAddressMask_def)
qed

definition bnext :: "(addr \<rightharpoonup> bnode) \<Rightarrow> addr \<Rightarrow> addr option" where
  "bnext h = (\<lambda>p. map_option node_next (node_at h p))"

lemma bnext_Some [simp]: "bnext h p = Some r \<longleftrightarrow> (\<exists>nd. node_at h p = Some nd \<and> node_next nd = r)"
  by (simp add: bnext_def)

abbreviation base :: "addr \<Rightarrow> addr" where
  "base p \<equiv> p AND kAddressMask"

lemma node_at_other: "base p \<noteq> a \<Longrightarrow> node_at (h(a := v)) p = node_at h p"
  using mask_untagged [of p] by (auto simp: node_at_def Let_def)

fun with_next :: "addr \<Rightarrow> bnode \<Rightarrow> bnode" where
  "with_next q (Waiter_node n c t) = Waiter_node q c t"
| "with_next q (Token_node n c t) = Token_node q c t"
| "with_next q (Drop_node n) = Drop_node q"

lemma node_next_with [simp]: "node_next (with_next q nd) = q"
  by (cases nd) simp_all

lemma is_drop_with [simp]: "is_drop (with_next q nd) = is_drop nd"
  by (cases nd) (simp_all add: is_drop_def)

lemma set_next_other: "base p' \<noteq> base p \<Longrightarrow> node_at (set_next p q h) p' = node_at h p'"
  by (auto simp: set_next_def Let_def node_at_other split: option.splits bnode.splits)

lemma set_next_same: "node_at h p = Some nd \<Longrightarrow> node_at (set_next p q h) p = Some (with_next q nd)"
  using mask_untagged [of p]
  by (auto simp: node_at_def set_next_def Let_def split: option.splits bnode.splits if_splits)

text \<open>The entries of a working set, as tagged pointers and the objects they denote.\<close>

definition bset :: "(addr \<rightharpoonup> bnode) \<Rightarrow> addr \<Rightarrow> addr list \<Rightarrow> bool" where
  "bset h p xs \<longleftrightarrow> chain (bnext h) p xs 0 \<and> distinct (map base xs)"

lemma bset_Cons:
  "bset h p (x # xs) \<longleftrightarrow> p = x \<and> x \<noteq> 0 \<and> base x \<notin> base ` set xs \<and>
     (\<exists>nd. node_at h x = Some nd \<and> bset h (node_next nd) xs)"
  by (auto simp: bset_def)

lemma bset_cong:
  "(\<And>x. x \<in> set xs \<Longrightarrow> node_at h x = node_at h' x) \<Longrightarrow> bset h p xs = bset h' p xs"
  unfolding bset_def using chain_cong [of xs "bnext h" "bnext h'" p 0] by (simp add: bnext_def)

lemma bset_nth:
  "bset h p xs \<Longrightarrow> Suc i < length xs \<Longrightarrow> get_next (xs ! i) h = Inr (xs ! Suc i)"
proof (induction xs arbitrary: p i)
  case (Cons x xs)
  then obtain nd where nd: "node_at h x = Some nd" "bset h (node_next nd) xs" by (auto simp: bset_Cons)
  show ?case
  proof (cases i)
    case 0
    with Cons.prems nd show ?thesis by (cases xs) (auto simp: get_next_def deref_def bset_Cons)
  next
    case (Suc j)
    with Cons.IH [OF nd(2), of j] Cons.prems show ?thesis by simp
  qed
qed simp

lemma chain_in_dom: "chain (bnext h) p xs q \<Longrightarrow> x \<in> set xs \<Longrightarrow> node_at h x \<noteq> None"
  by (induction xs arbitrary: p) auto

lemma bset_nonzero: "bset h p xs \<Longrightarrow> x \<in> set xs \<Longrightarrow> x \<noteq> 0"
  unfolding bset_def using chain_not_end by blast

section \<open>The window\<close>

lemma window_scan_suffix:
  assumes "bset h first (us @ zs)" and "bset h p zs" and "length zs \<le> n" and "1 \<le> ex"
  shows "iterate_linked_list n (\<lambda>_. h) (window_scan_step ex h first) p
       (int (length us), if int (length us) < ex then 0 else (us @ zs) ! nat (int (length us) - ex)) =
     Inr (int (length (us @ zs)),
       if int (length (us @ zs)) < ex then 0 else (us @ zs) ! nat (int (length (us @ zs)) - ex))"
  using assms
proof (induction zs arbitrary: us p n)
  case Nil
  then show ?case by (cases n) (simp_all add: bset_def)
next
  case (Cons z zs)
  let ?c = "int (length us)" and ?xs = "us @ z # zs"
  from Cons.prems(2) obtain nd where nd: "p = z" "z \<noteq> 0" "node_at h z = Some nd" "bset h (node_next nd) zs"
    by (auto simp: bset_Cons)
  obtain n' where n: "n = Suc n'" "length zs \<le> n'" using Cons.prems(3) by (cases n) auto
  have first: "first = hd ?xs" using Cons.prems(1) by (cases us) (auto simp: bset_Cons)
  have step: "window_scan_step ex h first z nd (?c, if ?c < ex then 0 else ?xs ! nat (?c - ex)) =
      Inr ((?c + 1, if ?c + 1 < ex then 0 else ?xs ! nat (?c + 1 - ex)), True)"
  proof (cases "?c < ex")
    case True
    then show ?thesis using first Cons.prems(4)
      by (auto simp: window_scan_step_def hd_conv_nth)
  next
    case False
    let ?i = "nat (?c - ex)"
    have i: "Suc ?i < length ?xs" "nat (?c + 1 - ex) = Suc ?i" using False Cons.prems(4) by auto
    have "?xs ! ?i \<noteq> 0" using bset_nonzero [OF Cons.prems(1)] i by (metis Suc_lessD nth_mem)
    then show ?thesis using False bset_nth [OF Cons.prems(1) i(1)] i(2)
      by (simp add: window_scan_step_def)
  qed
  have "iterate_linked_list n' (\<lambda>_. h) (window_scan_step ex h first) (node_next nd)
      (?c + 1, if ?c + 1 < ex then 0 else ?xs ! nat (?c + 1 - ex)) =
    Inr (int (length ?xs), if int (length ?xs) < ex then 0 else ?xs ! nat (int (length ?xs) - ex))"
  proof -
    have eqs: "(us @ [z]) @ zs = ?xs" "int (length (us @ [z])) = ?c + 1" by simp_all
    have "bset h first ((us @ [z]) @ zs)" using Cons.prems(1) by simp
    from Cons.IH [OF this nd(4) n(2) Cons.prems(4)] show ?thesis unfolding eqs .
  qed
  with step nd n show ?case by (simp add: deref_def)
qed

text \<open>The window is the oldest \<open>expected_\<close> entries, the last ones of the list.\<close>

lemma window_scan_eq:
  assumes "bset (nodes b) (working_set b) xs" and "length xs \<le> n" and "1 \<le> expected b"
  shows "window_scan n b =
    Inr (if int (length xs) < expected b then 0 else xs ! (length xs - nat (expected b)))"
proof -
  have e: "nat (int (length xs) - expected b) = length xs - nat (expected b)" if "\<not> int (length xs) < expected b"
    using that assms(3) by linarith
  show ?thesis
    using window_scan_suffix [of "nodes b" "working_set b" "[]" xs "working_set b" n "expected b"] assms e
    by (simp add: window_scan_def)
qed

lemma aquire_window_eq:
  assumes "bset (nodes b) (working_set b) xs" and "length xs \<le> n" and "1 \<le> expected b"
    and "nat (expected b) \<le> length xs" and "0 < m"
  shows "aquire_window m n b = Inr (xs ! (length xs - nat (expected b)))"
proof -
  obtain m' where m: "m = Suc m'" using assms(5) by (cases m) auto
  have i: "length xs - nat (expected b) < length xs" using assms(3,4) by simp
  have "xs ! (length xs - nat (expected b)) \<noteq> 0" using bset_nonzero [OF assms(1)] i by simp
  moreover have "\<not> int (length xs) < expected b" using assms(3,4) by linarith
  ultimately show ?thesis using window_scan_eq [OF assms(1-3)] m by simp
qed

lemma bset_append_suffix: "bset h p (us @ ws) \<Longrightarrow> ws \<noteq> [] \<Longrightarrow> bset h (hd ws) ws"
proof (induction us arbitrary: p)
  case Nil
  then show ?case by (cases ws) (simp_all add: bset_Cons)
qed (auto simp: bset_Cons)

text \<open>Cutting a list after \<open>us\<close>.\<close>

lemma bset_cut:
  assumes "bset h p (us @ ws)" and "us \<noteq> []"
  shows "bset (set_next (last us) 0 h) p us"
  using assms
proof (induction us arbitrary: p)
  case (Cons u us)
  from Cons.prems obtain nd where nd: "p = u" "u \<noteq> 0" "base u \<notin> base ` set (us @ ws)" "node_at h u = Some nd"
    "bset h (node_next nd) (us @ ws)" by (auto simp: bset_Cons)
  show ?case
  proof (cases "us = []")
    case True
    with nd show ?thesis by (simp add: bset_Cons set_next_same bset_def)
  next
    case False
    then have "base u \<noteq> base (last us)" using nd(3) by auto
    then have "node_at (set_next (last us) 0 h) u = Some nd" using nd(4) by (simp add: set_next_other)
    with Cons.IH [OF nd(5) False] nd False show ?thesis by (auto simp: bset_Cons)
  qed
qed simp

lemma bset_next_in:
  assumes "bset h p (us @ w # ws)" and "i < length us" and "node_at h (us ! i) = Some nd"
  shows "node_next nd = w \<longleftrightarrow> i = length us - 1"
proof -
  have "get_next ((us @ w # ws) ! i) h = Inr ((us @ w # ws) ! Suc i)"
    using assms(2) by (intro bset_nth [OF assms(1)]) simp
  then have "node_next nd = (us @ w # ws) ! Suc i" using assms(2,3) by (simp add: get_next_def deref_def nth_append)
  moreover have "distinct (us @ w # ws)" using assms(1) unfolding bset_def by (metis distinct_map)
  then have "(us @ w # ws) ! Suc i = (us @ w # ws) ! length us \<longleftrightarrow> Suc i = length us"
    using assms(2) by (intro nth_eq_iff_index_eq) simp_all
  ultimately show ?thesis using assms(2) by auto
qed

lemma trim_iterate:
  assumes "bset (nodes b) p (us @ w # ws)" and "us \<noteq> []" and "length us \<le> n"
  shows "iterate_linked_list n nodes
      (\<lambda>p nd b. if node_next nd = w then Inr (b\<lparr>nodes := set_next p 0 (nodes b)\<rparr>, False) else Inr (b, True)) p b =
    Inr (b\<lparr>nodes := set_next (last us) 0 (nodes b)\<rparr>)"
  using assms
proof (induction us arbitrary: p n)
  case (Cons u us)
  from Cons.prems(1) obtain nd where nd: "p = u" "u \<noteq> 0" "node_at (nodes b) u = Some nd"
    "bset (nodes b) (node_next nd) (us @ w # ws)" by (auto simp: bset_Cons)
  obtain n' where n: "n = Suc n'" "length us \<le> n'" using Cons.prems(3) by (cases n) auto
  have "node_next nd = w \<longleftrightarrow> us = []"
    using bset_next_in [of "nodes b" p "u # us" w ws 0 nd] Cons.prems(1) nd(3) by simp
  with Cons.IH [OF nd(4) _ n(2)] nd n show ?case by (cases "us = []") (simp_all add: deref_def)
qed simp

lemma trim_window_eq:
  assumes b: "bset (nodes b) (working_set b) (us @ w # ws)" and n: "length us \<le> n"
  shows "\<exists>b'. trim_window n w b = Inr b' \<and>
     b' = b\<lparr>working_set := working_set b', nodes := nodes b'\<rparr> \<and> bset (nodes b') (working_set b') us \<and>
     bset (nodes b') w (w # ws) \<and> (\<forall>x \<in> set (w # ws). node_at (nodes b') x = node_at (nodes b) x) \<and>
     (\<forall>x \<in> set us. map_option is_drop (node_at (nodes b') x) = map_option is_drop (node_at (nodes b) x))"
proof (cases us)
  case Nil
  with b have "working_set b = w" by (simp add: bset_Cons)
  with b Nil show ?thesis by (auto simp: trim_window_def bset_def)
next
  case (Cons u us')
  let ?h = "set_next (last us) 0 (nodes b)"
  have d: "distinct (map base (us @ w # ws))" using b by (simp add: bset_def)
  have "working_set b = u" using b Cons by (simp add: bset_Cons)
  moreover have "base u \<noteq> base w" using d Cons by simp
  ultimately have "working_set b \<noteq> w" by auto
  then have t: "trim_window n w b = Inr (b\<lparr>nodes := ?h\<rparr>)"
    using trim_iterate [OF b _ n] Cons by (simp add: trim_window_def)
  have last: "last us \<in> set us" using Cons by simp
  have o: "node_at ?h x = node_at (nodes b) x" if "x \<in> set (w # ws)" for x
  proof -
    have "base x \<in> set (map base (w # ws))" "base (last us) \<in> set (map base us)" using that last by auto
    moreover have "set (map base us) \<inter> set (map base (w # ws)) = {}"
      using d by (simp only: map_append distinct_append)
    ultimately have "base x \<noteq> base (last us)" by (metis disjoint_iff)
    then show ?thesis by (rule set_next_other)
  qed
  have "bset ?h w (w # ws)" using bset_append_suffix [OF b] bset_cong [of "w # ws" ?h "nodes b" w] o by simp
  moreover have "map_option is_drop (node_at ?h x) = map_option is_drop (node_at (nodes b) x)" if "x \<in> set us" for x
  proof (cases "base x = base (last us)")
    case True
    then have "x = last us" using that last d by (auto simp: distinct_map inj_on_def)
    moreover have "node_at (nodes b) x \<noteq> None" using b that
      by (auto simp: bset_def dest!: chain_in_dom)
    ultimately show ?thesis using set_next_same by fastforce
  qed (simp add: set_next_other)
  ultimately show ?thesis using t o bset_cut [OF b] Cons by auto
qed

lemma amount_to_drop_eq:
  assumes "bset (nodes b) p ws" and "length ws \<le> n"
  shows "amount_to_drop n p b = Inr (int (length (filter (\<lambda>x. is_drop (the (node_at (nodes b) x))) ws)))"
proof -
  have "iterate_linked_list n (\<lambda>_. nodes b) (\<lambda>p nd k. Inr (if is_drop nd then k + 1 else k, True)) p k =
      Inr (k + int (length (filter (\<lambda>x. is_drop (the (node_at (nodes b) x))) ws)))" for k
    using assms
  proof (induction ws arbitrary: p n k)
    case Nil
    then show ?case by (cases n) (simp_all add: bset_def)
  next
    case (Cons w ws)
    from Cons.prems(1) obtain nd where nd: "p = w" "w \<noteq> 0" "node_at (nodes b) w = Some nd"
      "bset (nodes b) (node_next nd) ws" by (auto simp: bset_Cons)
    obtain n' where n: "n = Suc n'" "length ws \<le> n'" using Cons.prems(2) by (cases n) auto
    from Cons.IH [OF nd(4) n(2)] nd n show ?case by (simp add: deref_def)
  qed
  from this [of 0] show ?thesis by (simp add: amount_to_drop_def)
qed

text \<open>The entries that a phase resumes: waiters and drops.\<close>

definition frames_ok :: "engine \<Rightarrow> (addr \<rightharpoonup> bnode) \<Rightarrow> addr list \<Rightarrow> bool" where
  "frames_ok e h xs \<longleftrightarrow> (\<forall>x \<in> set xs.
     case node_at h x of
       Some (Waiter_node _ co th) \<Rightarrow> co \<noteq> 0 \<and> accepts e th
     | Some (Drop_node _) \<Rightarrow> True
     | _ \<Rightarrow> False)"

definition frame_events :: "(addr \<rightharpoonup> bnode) \<Rightarrow> addr list \<Rightarrow> (tagged_event \<times> thread_t) list" where
  "frame_events h xs = concat (map (\<lambda>x.
     case node_at h x of Some (Waiter_node _ co th) \<Rightarrow> [(resume_event co, th)] | _ \<Rightarrow> []) xs)"

lemma frame_events_Cons:
  "frame_events h (x # xs) =
     (case node_at h x of Some (Waiter_node _ co th) \<Rightarrow> [(resume_event co, th)] | _ \<Rightarrow> []) @ frame_events h xs"
  by (simp add: frame_events_def)

lemma frame_events_cong:
  "(\<And>x. x \<in> set xs \<Longrightarrow> node_at h x = node_at h' x) \<Longrightarrow> frame_events h xs = frame_events h' xs"
  unfolding frame_events_def by (metis (mono_tags, lifting) map_cong)

lemma frames_ok_cong:
  "(\<And>x. x \<in> set xs \<Longrightarrow> node_at h x = node_at h' x) \<Longrightarrow> accepts e = accepts e' \<Longrightarrow>
   frames_ok e h xs \<Longrightarrow> frames_ok e' h' xs"
  unfolding frames_ok_def by (simp cong: option.case_cong bnode.case_cong)

lemma resume_frames_iterate:
  assumes "bset (nodes b) p ws" and "length ws \<le> n" and "frames_ok (bar_engine b) (nodes b) ws"
    and "length (frame_events (nodes b) ws) \<le> room (bar_engine b)"
  shows "\<exists>h e. iterate_linked_list n nodes resume_frame p b = Inr (b\<lparr>nodes := h, bar_engine := e\<rparr>) \<and>
     fold_outcome (\<lambda>(ev, th). thread_resume ev th) (frame_events (nodes b) ws) (bar_engine b) = Inr e \<and>
     (\<forall>x. base x \<notin> base ` set ws \<longrightarrow> node_at h x = node_at (nodes b) x)"
  using assms
proof (induction ws arbitrary: p n b)
  case Nil
  then have "iterate_linked_list n nodes resume_frame p b = Inr b"
    by (cases n) (simp_all add: bset_def)
  then show ?case
    by (intro exI [of _ "nodes b"] exI [of _ "bar_engine b"]) (simp add: frame_events_def)
next
  case (Cons w ws)
  from Cons.prems(1) obtain nd where nd: "p = w" "w \<noteq> 0" "base w \<notin> base ` set ws"
    "node_at (nodes b) w = Some nd" "bset (nodes b) (node_next nd) ws" by (auto simp: bset_Cons)
  obtain n' where n: "n = Suc n'" "length ws \<le> n'" using Cons.prems(2) by (cases n) auto
  have okw: "frames_ok (bar_engine b) (nodes b) ws" using Cons.prems(3) by (simp add: frames_ok_def)
  have "(\<exists>q co th. nd = Waiter_node q co th \<and> co \<noteq> 0 \<and> accepts (bar_engine b) th) \<or> (\<exists>q. nd = Drop_node q)"
    using Cons.prems(3) nd(4) by (cases nd) (auto simp: frames_ok_def)
  then show ?case
  proof (elim disjE exE conjE)
    fix q co th
    assume w: "nd = Waiter_node q co th" "co \<noteq> 0" "accepts (bar_engine b) th"
    have ev: "frame_events (nodes b) (w # ws) = (resume_event co, th) # frame_events (nodes b) ws"
      using nd(4) w(1) by (simp add: frame_events_Cons)
    have "0 < room (bar_engine b)" using Cons.prems(4) ev by simp
    from eng.resume_total [OF w(3) this, of "resume_event co"] obtain e1 where
      e1: "thread_resume (resume_event co) th (bar_engine b) = Inr e1" "accepts e1 = accepts (bar_engine b)"
        "room (bar_engine b) \<le> Suc (room e1)" by blast
    let ?b = "b\<lparr>bar_engine := e1\<rparr>"
    have "frames_ok (bar_engine ?b) (nodes ?b) ws"
      by (rule frames_ok_cong [OF _ _ okw]) (use e1(2) in simp_all)
    moreover have "length (frame_events (nodes ?b) ws) \<le> room (bar_engine ?b)"
      using Cons.prems(4) ev e1(3) by simp
    ultimately obtain h e where he: "iterate_linked_list n' nodes resume_frame (node_next nd) ?b =
        Inr (?b\<lparr>nodes := h, bar_engine := e\<rparr>)"
      "fold_outcome (\<lambda>(ev, th). thread_resume ev th) (frame_events (nodes ?b) ws) (bar_engine ?b) = Inr e"
      "\<forall>x. base x \<notin> base ` set ws \<longrightarrow> node_at h x = node_at (nodes ?b) x"
      using Cons.IH [of ?b "node_next nd" n'] nd(5) n(2) by auto
    have "iterate_linked_list n nodes resume_frame p b = Inr (b\<lparr>nodes := h, bar_engine := e\<rparr>)"
      using he(1) nd n w e1(1) by (simp add: deref_def resume_frame_def)
    then show ?thesis using he ev e1(1) by (intro exI [of _ h] exI [of _ e]) simp
  next
    fix q
    assume w: "nd = Drop_node q"
    let ?b = "b\<lparr>nodes := (nodes b)(base w := None)\<rparr>"
    have o: "node_at (nodes ?b) x = node_at (nodes b) x" if "x \<in> set ws" for x
    proof -
      have "base x \<noteq> base w" using that nd(3) by (metis imageI)
      then show ?thesis by (simp add: node_at_other)
    qed
    have ev: "frame_events (nodes b) (w # ws) = frame_events (nodes b) ws"
      using nd(4) w by (simp add: frame_events_Cons)
    have ev2: "frame_events (nodes ?b) ws = frame_events (nodes b) ws" using o by (rule frame_events_cong)
    have bs: "bset (nodes ?b) (node_next nd) ws" using nd(5) bset_cong [of ws "nodes ?b" "nodes b"] o by blast
    have fok: "frames_ok (bar_engine ?b) (nodes ?b) ws"
      by (rule frames_ok_cong [OF _ _ okw]) (use o in simp_all)
    have "length (frame_events (nodes ?b) ws) \<le> room (bar_engine ?b)" unfolding ev2 using Cons.prems(4) ev by simp
    from Cons.IH [OF bs n(2) fok this] obtain h e where he:
      "iterate_linked_list n' nodes resume_frame (node_next nd) ?b = Inr (?b\<lparr>nodes := h, bar_engine := e\<rparr>)"
      "fold_outcome (\<lambda>(ev, th). thread_resume ev th) (frame_events (nodes ?b) ws) (bar_engine ?b) = Inr e"
      "\<forall>x. base x \<notin> base ` set ws \<longrightarrow> node_at h x = node_at (nodes ?b) x" by blast
    have "iterate_linked_list n nodes resume_frame p b = Inr (b\<lparr>nodes := h, bar_engine := e\<rparr>)"
      using he(1) nd n w by (simp add: deref_def resume_frame_def)
    moreover have "\<forall>x. base x \<notin> base ` set (w # ws) \<longrightarrow> node_at h x = node_at (nodes b) x"
      using he(3) node_at_other by auto
    ultimately show ?thesis using he(2) ev ev2 by (intro exI [of _ h] exI [of _ e]) simp
  qed
qed

section \<open>Arriving\<close>

lemma add_to_working_set_eq:
  "\<exists>h. add_to_working_set fs p b = b\<lparr>nodes := h, working_set := p\<rparr> \<and>
     (\<forall>x. base x \<noteq> base p \<longrightarrow> node_at h x = node_at (nodes b) x) \<and>
     (\<forall>nd. node_at (nodes b) p = Some nd \<longrightarrow> node_at h p = Some (with_next (working_set b) nd))"
proof (induction fs arbitrary: b)
  case Nil
  show ?case by (intro exI [of _ "set_next p (working_set b) (nodes b)"]) (simp add: set_next_other set_next_same)
next
  case (Cons f fs)
  let ?b = "b\<lparr>nodes := set_next p (working_set b) (nodes b)\<rparr>"
  from Cons.IH [of ?b] obtain h where h: "add_to_working_set fs p ?b = ?b\<lparr>nodes := h, working_set := p\<rparr>"
    "\<forall>x. base x \<noteq> base p \<longrightarrow> node_at h x = node_at (nodes ?b) x"
    "\<forall>nd. node_at (nodes ?b) p = Some nd \<longrightarrow> node_at h p = Some (with_next (working_set ?b) nd)" by blast
  have w: "with_next q (with_next q nd) = with_next q nd" for q nd by (cases nd) simp_all
  show ?case
  proof (cases f)
    case True
    then show ?thesis using h w by (intro exI [of _ h]) (simp add: set_next_other set_next_same)
  next
    case False
    then show ?thesis
      by (intro exI [of _ "set_next p (working_set b) (nodes b)"]) (simp add: set_next_other set_next_same)
  qed
qed

lemma aligned_base: "a AND kFlagMask = 0 \<Longrightarrow> base a = a"
  by (rule mask_untagged)

text \<open>An arrival that does not complete the phase joins the working set.\<close>

lemma push_waiter_node:
  assumes b: "bset (nodes b) (working_set b) xs" and a: "a AND kFlagMask = 0" "a \<noteq> 0" "a \<notin> base ` set xs"
    and bb_def: "bb = add_to_working_set fs a (b\<lparr>bar_count := c, nodes := (nodes b)(a \<mapsto> Waiter_node 0 co th)\<rparr>)"
  shows "bset (nodes bb) (working_set bb) (a # xs) \<and>
     (\<forall>x \<in> set xs. node_at (nodes bb) x = node_at (nodes b) x) \<and>
     node_at (nodes bb) a = Some (Waiter_node (working_set b) co th) \<and>
     bar_count bb = c \<and> expected bb = expected b \<and> user bb = user b \<and> bar_engine bb = bar_engine b \<and>
     bar_thread bb = bar_thread b"
proof -
  let ?b = "b\<lparr>bar_count := c, nodes := (nodes b)(a \<mapsto> Waiter_node 0 co th)\<rparr>"
  have nd: "node_at (nodes ?b) a = Some (Waiter_node 0 co th)" using a by (simp add: node_at_def)
  from add_to_working_set_eq [of fs a ?b] obtain h where h: "bb = ?b\<lparr>nodes := h, working_set := a\<rparr>"
    "\<forall>x. base x \<noteq> base a \<longrightarrow> node_at h x = node_at (nodes ?b) x"
    "node_at h a = Some (Waiter_node (working_set b) co th)" unfolding bb_def using nd by auto
  have o: "node_at h x = node_at (nodes b) x" if "x \<in> set xs" for x
  proof -
    have "base x \<noteq> a" using that a(3) by auto
    then show ?thesis using h(2) aligned_base [OF a(1)] by (simp add: node_at_other)
  qed
  have "bset h (working_set b) xs" using b bset_cong [of xs h "nodes b"] o by blast
  then have "bset h a (a # xs)" using a h(3) aligned_base [OF a(1)] by (simp add: bset_Cons)
  with h o show ?thesis by simp
qed

fun arrive_parties ::
  "nat \<Rightarrow> nat \<Rightarrow> coro \<Rightarrow> ('u \<Rightarrow> 'u) \<Rightarrow> (addr \<times> thread_t \<times> coro) list \<Rightarrow> 'u barrier \<Rightarrow> 'u barrier outcome" where
  "arrive_parties m n job completion [] b = Inr b"
| "arrive_parties m n job completion ((a, th, co) # ws) b =
     bind_outcome (arrive_and_suspend m n [] th job completion a co b)
       (\<lambda>b'. arrive_parties m n job completion ws b')"

lemma bind_arrive_Nil: "bind_outcome r (arrive_parties m n job completion []) = r"
  by (cases r) simp_all

lemma arrive_parties_append:
  "arrive_parties m n job completion us b = Inr b1 \<Longrightarrow>
   arrive_parties m n job completion (us @ ws) b = arrive_parties m n job completion ws b1"
  by (induction us arbitrary: b) auto

definition parties_ok :: "engine \<Rightarrow> (addr \<times> thread_t \<times> coro) list \<Rightarrow> bool" where
  "parties_ok e ws \<longleftrightarrow> distinct (map fst ws) \<and>
     (\<forall>(a, th, co) \<in> set ws. a \<noteq> 0 \<and> a AND kFlagMask = 0 \<and> co \<noteq> 0 \<and> accepts e th)"

definition waiting :: "(addr \<rightharpoonup> bnode) \<Rightarrow> (addr \<times> thread_t \<times> coro) \<Rightarrow> bool" where
  "waiting h = (\<lambda>(a, th, co). \<exists>q. node_at h a = Some (Waiter_node q co th))"

lemma frame_events_waiting:
  "\<forall>w \<in> set ws. waiting h w \<Longrightarrow>
   frame_events h (map fst ws) = map (\<lambda>(a, th, co). (resume_event co, th)) ws"
  by (induction ws) (auto simp: frame_events_def waiting_def)

lemma parties_base:
  assumes "parties_ok e (ws @ vs)"
  shows "base ` set (map fst vs) = fst ` set vs"
proof -
  have "base (fst v) = fst v" if "v \<in> set vs" for v
    using assms that by (cases v) (auto simp: parties_ok_def intro!: aligned_base)
  then show ?thesis by (simp add: image_image)
qed

text \<open>All but the last of \<open>ws\<close> wait; \<open>vs\<close> are the earlier arrivals, newest first.\<close>

lemma arrive_parties_early:
  assumes "bset (nodes b) (working_set b) (map fst vs)" and "\<forall>v \<in> set vs. waiting (nodes b) v"
    and "parties_ok e (ws @ vs)" and "int (length ws) < bar_count b"
  shows "\<exists>b'. arrive_parties m n job completion ws b = Inr b' \<and>
     bset (nodes b') (working_set b') (map fst (rev ws @ vs)) \<and> (\<forall>v \<in> set (rev ws @ vs). waiting (nodes b') v) \<and>
     bar_count b' = bar_count b - int (length ws) \<and> expected b' = expected b \<and> user b' = user b \<and>
     bar_engine b' = bar_engine b \<and> bar_thread b' = bar_thread b"
  using assms
proof (induction ws arbitrary: b vs)
  case (Cons w ws)
  obtain a th co where w: "w = (a, th, co)" by (cases w)
  have a: "a AND kFlagMask = 0" "a \<noteq> 0" "a \<notin> base ` set (map fst vs)"
    using Cons.prems(3) parties_base [of e "w # ws" vs] w by (auto simp: parties_ok_def)
  let ?b = "add_to_working_set [] a (b\<lparr>bar_count := bar_count b - 1, nodes := (nodes b)(a \<mapsto> Waiter_node 0 co th)\<rparr>)"
  note push = push_waiter_node [OF Cons.prems(1) a, where bb = ?b and fs = "[]" and c = "bar_count b - 1" and co = co and th = th, OF refl]
  have arr: "arrive_and_suspend m n [] th job completion a co b = Inr ?b"
    using Cons.prems(4) by (simp add: arrive_and_suspend_def Let_def)
  have wt: "\<forall>v \<in> set (w # vs). waiting (nodes ?b) v"
  proof
    fix v
    assume "v \<in> set (w # vs)"
    then show "waiting (nodes ?b) v"
    proof (cases "v = w")
      case True
      then show ?thesis using push w by (simp add: waiting_def)
    next
      case False
      with \<open>v \<in> set (w # vs)\<close> have "v \<in> set vs" by simp
      then have "node_at (nodes ?b) (fst v) = node_at (nodes b) (fst v)" using push by simp
      with Cons.prems(2) \<open>v \<in> set vs\<close> show ?thesis by (auto simp: waiting_def)
    qed
  qed
  have "bset (nodes ?b) (working_set ?b) (map fst (w # vs))" "parties_ok e (ws @ w # vs)"
    "int (length ws) < bar_count ?b" using push w Cons.prems(3,4) by (auto simp: parties_ok_def)
  from Cons.IH [OF this(1) wt this(2,3)] obtain b' where "arrive_parties m n job completion ws ?b = Inr b'"
     "bset (nodes b') (working_set b') (map fst (rev ws @ w # vs))" "\<forall>v \<in> set (rev ws @ w # vs). waiting (nodes b') v"
     "bar_count b' = bar_count ?b - int (length ws)" "expected b' = expected ?b" "user b' = user ?b"
     "bar_engine b' = bar_engine ?b" "bar_thread b' = bar_thread ?b" by blast
  with arr w push show ?case by (intro exI [of _ b']) simp
qed simp

section \<open>Properties\<close>

lemma complete_phase_window:
  assumes "bset (nodes b) (working_set b) (us @ ws)" and "int (length ws) = expected b" and "ws \<noteq> []"
    and "frames_ok (bar_engine b) (nodes b) ws" and "length (frame_events (nodes b) ws) \<le> room (bar_engine b)"
    and "length (us @ ws) \<le> n" and "0 < m"
  shows "\<exists>e k b'. k = int (length (filter (\<lambda>x. is_drop (the (node_at (nodes b) x))) ws)) \<and>
     fold_outcome (\<lambda>(ev, th). thread_resume ev th) (frame_events (nodes b) ws) (bar_engine b) = Inr e \<and>
     bset (nodes b') (working_set b') us \<and> user b' = completion (user b) \<and>
     expected b' = expected b - k \<and> bar_count b' = bar_count b + expected b' \<and> bar_engine b' = e \<and>
     complete_phase m n cur job completion b =
       (if bar_count b \<le> - expected b'
        then bind_outcome (execute cur job now (bar_thread b) e) (\<lambda>e'. Inr (b'\<lparr>bar_engine := e'\<rparr>))
        else Inr b')"
proof -
  obtain w ws' where w: "ws = w # ws'" using assms(3) by (cases ws) auto
  have ex: "1 \<le> expected b" "nat (expected b) \<le> length (us @ ws)" "length (us @ ws) - nat (expected b) = length us"
    using assms(2) w by auto
  have win: "aquire_window m n b = Inr w"
    using aquire_window_eq [OF assms(1,6) ex(1,2) assms(7)] ex(3) w by simp
  from trim_window_eq [of b us w ws' n] assms(1,6) w obtain b1 where b1: "trim_window n w b = Inr b1"
    "b1 = b\<lparr>working_set := working_set b1, nodes := nodes b1\<rparr>" "bset (nodes b1) (working_set b1) us"
    "bset (nodes b1) w ws" "\<forall>x \<in> set ws. node_at (nodes b1) x = node_at (nodes b) x"
    by auto
  let ?k = "int (length (filter (\<lambda>x. is_drop (the (node_at (nodes b) x))) ws))"
  have "filter (\<lambda>x. is_drop (the (node_at (nodes b1) x))) ws = filter (\<lambda>x. is_drop (the (node_at (nodes b) x))) ws"
    using b1(5) by (intro filter_cong) simp_all
  then have drop: "amount_to_drop n w b1 = Inr ?k"
    using amount_to_drop_eq [OF b1(4), of n] assms(6) by simp
  have fields: "bar_engine b1 = bar_engine b" "expected b1 = expected b" "bar_count b1 = bar_count b"
    "user b1 = user b" "bar_thread b1 = bar_thread b" by (subst b1(2); simp)+
  have ev: "frame_events (nodes b1) ws = frame_events (nodes b) ws" using b1(5) by (intro frame_events_cong) simp
  have fok: "frames_ok (bar_engine b1) (nodes b1) ws"
    by (rule frames_ok_cong [OF _ _ assms(4)]) (use b1(5) fields(1) in simp_all)
  let ?b2 = "b1\<lparr>user := completion (user b1), expected := expected b1 - ?k, bar_count := bar_count b1 + (expected b1 - ?k)\<rparr>"
  from resume_frames_iterate [of ?b2 w ws n] b1(4) assms(5,6) fok ev fields obtain h e where he:
    "iterate_linked_list n nodes resume_frame w ?b2 = Inr (?b2\<lparr>nodes := h, bar_engine := e\<rparr>)"
    "fold_outcome (\<lambda>(ev, th). thread_resume ev th) (frame_events (nodes b) ws) (bar_engine b) = Inr e"
    "\<forall>x. base x \<notin> base ` set ws \<longrightarrow> node_at h x = node_at (nodes b1) x" by auto
  let ?b3 = "?b2\<lparr>nodes := h, bar_engine := e\<rparr>"
  have "distinct (map base (us @ ws))" using assms(1) by (simp only: bset_def)
  then have disj: "set (map base us) \<inter> set (map base ws) = {}" by (simp only: map_append distinct_append)
  have "node_at h x = node_at (nodes b1) x" if "x \<in> set us" for x
  proof -
    have "base x \<in> set (map base us)" using that by simp
    then have "base x \<notin> base ` set ws" using disj by (metis disjoint_iff set_map)
    then show ?thesis using he(3) by simp
  qed
  then have us: "bset h (working_set b1) us" using b1(3) bset_cong [of us h "nodes b1"] by simp
  have "complete_phase m n cur job completion b =
      (if bar_count b \<le> - (expected b - ?k)
       then bind_outcome (execute cur job now (bar_thread b) e) (\<lambda>e'. Inr (?b3\<lparr>bar_engine := e'\<rparr>))
       else Inr ?b3)"
    using win b1(1) drop he(1) fields by (simp add: complete_phase_def resume_frames_def Let_def)
  with he(2) us fields show ?thesis
    by (intro exI [of _ e] exI [of _ ?k] exI [of _ ?b3]) simp
qed

text \<open>A phase that completes takes exactly the oldest \<open>expected_\<close> arrivals: it runs the completion
  function once, then resumes each waiter among them exactly once on its own thread, lowers
  \<open>expected_\<close> by the drops among them, leaves the later arrivals in the working set, and schedules the
  next phase exactly when \<open>count_\<close> says that enough of them are there.  One pass of the window loop
  and one iteration per entry are enough.\<close>

theorem complete_phase_resumes_window:
  assumes "bset (nodes b) (working_set b) (us @ ws)" and "int (length ws) = expected b" and "ws \<noteq> []"
    and "frames_ok (bar_engine b) (nodes b) ws" and "length (frame_events (nodes b) ws) \<le> room (bar_engine b)"
    and "length (us @ ws) \<le> n" and "0 < m"
  shows "\<exists>e k b'. k = int (length (filter (\<lambda>x. is_drop (the (node_at (nodes b) x))) ws)) \<and>
     fold_outcome (\<lambda>(ev, th). thread_resume ev th) (frame_events (nodes b) ws) (bar_engine b) = Inr e \<and>
     bset (nodes b') (working_set b') us \<and> user b' = completion (user b) \<and>
     expected b' = expected b - k \<and> bar_count b' = bar_count b + expected b' \<and> bar_engine b' = e \<and>
     complete_phase m n cur job completion b =
       (if bar_count b \<le> - expected b'
        then bind_outcome (execute cur job now (bar_thread b) e) (\<lambda>e'. Inr (b'\<lparr>bar_engine := e'\<rparr>))
        else Inr b')"
  using assms by (rule complete_phase_window)

text \<open>When as many coroutines as the barrier expects arrive one after the other, the last one completes
  the phase: the completion function runs once, every coroutine is queued for resumption exactly once, and
  the barrier is as it was before, ready for the next phase.\<close>

theorem barrier_round:
  assumes "bset (nodes b) (working_set b) []" and "bar_count b = expected b"
    and "expected b = int (length ws)" and "ws \<noteq> []" and "parties_ok (bar_engine b) ws"
    and "length ws \<le> room (bar_engine b)" and "length ws \<le> n" and "0 < m"
  shows "\<exists>b'. arrive_parties m n job completion ws b = Inr b' \<and> user b' = completion (user b) \<and>
     bset (nodes b') (working_set b') [] \<and> bar_count b' = expected b' \<and> expected b' = expected b \<and>
     queued (bar_engine b') = queued (bar_engine b) + mset (map (\<lambda>(a, th, co). resume_event co) ws)"
proof -
  obtain us a th co where ws: "ws = us @ [(a, th, co)]" using assms(4) by (metis prod_cases3 rev_exhaust)
  let ?e = "bar_engine b"
  have pu: "parties_ok ?e (us @ [])" using assms(5) ws by (auto simp: parties_ok_def)
  have cnt: "int (length us) < bar_count b" using assms(2,3) ws by simp
  have w0: "bset (nodes b) (working_set b) (map fst [])" "\<forall>v \<in> set []. waiting (nodes b) v" using assms(1) by simp_all
  from arrive_parties_early [OF w0(1) w0(2) pu cnt, of m n job completion] obtain b1 where
    b1: "arrive_parties m n job completion us b = Inr b1" "bset (nodes b1) (working_set b1) (map fst (rev us))"
      "\<forall>v \<in> set (rev us). waiting (nodes b1) v" "bar_count b1 = bar_count b - int (length us)"
      "expected b1 = expected b" "user b1 = user b" "bar_engine b1 = ?e" "bar_thread b1 = bar_thread b" by auto
  have c1: "bar_count b1 = 1" using b1(4) assms(2,3) ws by simp
  have pr: "parties_ok ?e ([] @ rev us)" using pu by (auto simp: parties_ok_def rev_map [symmetric])
  have a: "a AND kFlagMask = 0" "a \<noteq> 0" "a \<notin> base ` set (map fst (rev us))"
    unfolding parties_base [OF pr] using assms(5) ws by (auto simp: parties_ok_def)
  let ?b2 = "add_to_working_set [] a (b1\<lparr>bar_count := 0, nodes := (nodes b1)(a \<mapsto> Waiter_node 0 co th)\<rparr>)"
  let ?vs = "(a, th, co) # rev us"
  note push = push_waiter_node [OF b1(2) a, where bb = ?b2 and fs = "[]" and c = 0 and co = co and th = th, OF refl]
  have arr: "arrive_and_suspend m n [] th job completion a co b1 = complete_phase m n th job completion ?b2"
    using c1 by (simp add: arrive_and_suspend_def Let_def)
  have wt: "\<forall>v \<in> set ?vs. waiting (nodes ?b2) v"
  proof
    fix v
    assume v: "v \<in> set ?vs"
    show "waiting (nodes ?b2) v"
    proof (cases "v = (a, th, co)")
      case True
      then show ?thesis using push by (simp add: waiting_def)
    next
      case False
      with v have "v \<in> set (rev us)" by simp
      moreover from this have "node_at (nodes ?b2) (fst v) = node_at (nodes b1) (fst v)" using push by simp
      ultimately show ?thesis using b1(3) by (auto simp: waiting_def)
    qed
  qed
  have bs: "bset (nodes ?b2) (working_set ?b2) ([] @ map fst ?vs)" using push by simp
  have acc: "\<forall>(x, t, c) \<in> set ?vs. c \<noteq> 0 \<and> accepts ?e t" using assms(5) ws by (auto simp: parties_ok_def)
  have fok: "frames_ok (bar_engine ?b2) (nodes ?b2) (map fst ?vs)"
    using wt acc push b1(7) unfolding frames_ok_def waiting_def by fastforce
  note ev = frame_events_waiting [OF wt]
  have nodrop: "filter (\<lambda>x. is_drop (the (node_at (nodes ?b2) x))) (map fst ?vs) = []"
    using wt unfolding filter_empty_conv waiting_def by (fastforce simp: is_drop_def)
  have len: "int (length (map fst ?vs)) = expected ?b2" "map fst ?vs \<noteq> []" "length ([] @ map fst ?vs) \<le> n"
    "length (frame_events (nodes ?b2) (map fst ?vs)) \<le> room (bar_engine ?b2)"
    using push b1(5,7) assms(3,6,7) ws unfolding ev by simp_all
  from complete_phase_window [OF bs len(1,2) fok len(4,3) assms(8), of completion th job]
  obtain e b' where r: "fold_outcome (\<lambda>(ev, th). thread_resume ev th) (frame_events (nodes ?b2) (map fst ?vs)) (bar_engine ?b2) = Inr e"
    "bset (nodes b') (working_set b') []" "user b' = completion (user ?b2)" "expected b' = expected ?b2"
    "bar_count b' = bar_count ?b2 + expected b'" "bar_engine b' = e"
    "complete_phase m n th job completion ?b2 =
       (if bar_count ?b2 \<le> - expected b'
        then bind_outcome (execute th job now (bar_thread ?b2) e) (\<lambda>e'. Inr (b'\<lparr>bar_engine := e'\<rparr>))
        else Inr b')" unfolding nodrop by auto
  have "\<forall>(ev, th) \<in> set (frame_events (nodes ?b2) (map fst ?vs)). accepts (bar_engine ?b2) th"
    unfolding ev using acc push b1(7) by auto
  from eng.resume_all [OF this len(4)] r(1)
  have q: "queued e = queued ?e + mset (map fst (map (\<lambda>(a, th, co). (resume_event co, th)) ?vs))"
    unfolding ev using push b1(7) by auto
  have "mset (map fst (map (\<lambda>(a, th, co). (resume_event co, th)) ?vs)) = mset (map (\<lambda>(a, th, co). resume_event co) ws)"
    by (simp add: ws case_prod_unfold rev_map comp_def)
  moreover have "complete_phase m n th job completion ?b2 = Inr b'"
    using r(4,7) push b1(5) assms(3) ws by simp
  moreover have "arrive_parties m n job completion ws b = complete_phase m n th job completion ?b2"
    using arrive_parties_append [OF b1(1), of "[(a, th, co)]"] arr ws by (simp add: bind_arrive_Nil)
  ultimately show ?thesis using r(2-6) q push b1(5,6) by (intro exI [of _ b']) simp
qed

text \<open>When every participant of a phase drops, \<open>expected_\<close> becomes 0, the phase schedules another
  one (0 arrivals are enough for it), and that one never returns: \<open>aquire_window\<close> searches the empty
  working set for ever.\<close>

theorem all_dropped_barrier_spins:
  assumes "bset (nodes b) (working_set b) ws" and "int (length ws) = expected b" and "ws \<noteq> []"
    and "\<forall>x \<in> set ws. \<exists>q. node_at (nodes b) x = Some (Drop_node q)" and "bar_count b = 0"
    and "length ws \<le> n" and "0 < m"
  shows "\<exists>b'. complete_phase m n cur job completion b =
       bind_outcome (execute cur job now (bar_thread b) (bar_engine b)) (\<lambda>e'. Inr (b'\<lparr>bar_engine := e'\<rparr>)) \<and>
     expected b' = 0 \<and>
     (\<forall>m' n' e'. complete_phase m' n' cur job completion (b'\<lparr>bar_engine := e'\<rparr>) = Inl Out_of_fuel)"
proof -
  have fok: "frames_ok (bar_engine b) (nodes b) ws" using assms(4) unfolding frames_ok_def by fastforce
  have ev: "frame_events (nodes b) ws = []" using assms(4) unfolding frame_events_def by fastforce
  have dr: "filter (\<lambda>x. is_drop (the (node_at (nodes b) x))) ws = ws"
    using assms(4) by (intro filter_True) (auto simp: is_drop_def)
  from complete_phase_window [of b "[]" ws n m completion cur job] assms fok ev dr
  obtain e b' where b': "fold_outcome (\<lambda>(ev, th). thread_resume ev th) (frame_events (nodes b) ws) (bar_engine b) = Inr e"
    "bset (nodes b') (working_set b') []" "expected b' = 0"
    "complete_phase m n cur job completion b =
       bind_outcome (execute cur job now (bar_thread b) e) (\<lambda>e'. Inr (b'\<lparr>bar_engine := e'\<rparr>))" by auto
  have e: "e = bar_engine b" using b'(1) ev by simp
  have ws0: "working_set b' = 0" using b'(2) by (simp add: bset_def)
  have "aquire_window m' n' (b'\<lparr>bar_engine := e'\<rparr>) = Inl Out_of_fuel" for m' n' e'
  proof (induction m')
    case (Suc m')
    have "window_scan n' (b'\<lparr>bar_engine := e'\<rparr>) = Inr 0"
      using ws0 by (cases n') (simp_all add: window_scan_def)
    with Suc show ?case by simp
  qed simp
  then show ?thesis using b'(3,4) e by (intro exI [of _ b']) (simp add: complete_phase_def)
qed

section \<open>Witnesses\<close>

definition demo_barrier :: "nat barrier" where
  "demo_barrier = make_barrier demo_engine 2 (Thread_t 0) 0"

definition demo_parties :: "(addr \<times> thread_t \<times> coro) list" where
  "demo_parties = [(16, Thread_t 0, 32), (24, Thread_t 1, 40)]"

theorem barrier_round_witness:
  "\<exists>b'. arrive_parties 1 2 64 Suc demo_parties demo_barrier = Inr b' \<and> user b' = 1 \<and>
     bar_count b' = 2 \<and> queued (bar_engine b') = {#resume_event 32, resume_event 40, Coroutine_alt 8#}"
proof -
  have "parties_ok (bar_engine demo_barrier) demo_parties"
    by (simp add: parties_ok_def demo_parties_def demo_barrier_def make_barrier_def kFlagMask_def accepts_def demo_engine_def)
  moreover have "length demo_parties \<le> room (bar_engine demo_barrier)"
    using demo_engine_room by (simp add: demo_barrier_def make_barrier_def demo_parties_def)
  moreover have "queued (bar_engine demo_barrier) = {#Coroutine_alt 8#}"
    by (simp add: demo_barrier_def make_barrier_def queued_def demo_engine_def demo_io_defs)
  ultimately show ?thesis
    using barrier_round [of demo_barrier demo_parties 2 1 64 Suc]
    by (simp add: demo_barrier_def make_barrier_def demo_parties_def bset_def) auto
qed

definition demo_drop_barrier :: "nat barrier" where
  "demo_drop_barrier = (make_barrier demo_engine 1 (Thread_t 0) 0)
     \<lparr>bar_count := 0, nodes := [16 \<mapsto> Drop_node 0], working_set := 17\<rparr>"

lemma demo_drop_set: "bset (nodes demo_drop_barrier) (working_set demo_drop_barrier) [17]"
  "node_at (nodes demo_drop_barrier) 17 = Some (Drop_node 0)"
  by (simp_all add: bset_def node_at_def demo_drop_barrier_def kFlagMask_def kAddressMask_def kTokenFlag_def)

text \<open>A barrier for one participant, which drops.\<close>

theorem all_dropped_barrier_spins_witness:
  "arrive_and_drop 1 1 [] (Thread_t 0) 64 id 16 (make_barrier demo_engine 1 (Thread_t 0) 0) =
     complete_phase 1 1 (Thread_t 0) 64 id demo_drop_barrier \<and>
   (\<exists>b'. expected b' = 0 \<and> (\<forall>m' n' e'.
      complete_phase m' n' (Thread_t 0) 64 id (b'\<lparr>bar_engine := e'\<rparr> :: nat barrier) = Inl Out_of_fuel))"
proof
  show "arrive_and_drop 1 1 [] (Thread_t 0) 64 id 16 (make_barrier demo_engine 1 (Thread_t 0) 0) =
     complete_phase 1 1 (Thread_t 0) 64 id demo_drop_barrier"
    by (simp add: arrive_and_drop_def make_barrier_def demo_drop_barrier_def kDropFlag_def set_next_def
        kAddressMask_def kFlagMask_def Let_def)
  show "\<exists>b'. expected b' = 0 \<and> (\<forall>m' n' e'.
      complete_phase m' n' (Thread_t 0) 64 id (b'\<lparr>bar_engine := e'\<rparr> :: nat barrier) = Inl Out_of_fuel)"
    using all_dropped_barrier_spins [OF demo_drop_set(1), of 1 1 "Thread_t 0" 64 id] demo_drop_set(2)
    by (auto simp: demo_drop_barrier_def make_barrier_def)
qed

theorem complete_phase_resumes_window_witness:
  "\<exists>b'. complete_phase 1 1 (Thread_t 0) 64 Suc demo_drop_barrier =
       bind_outcome (execute (Thread_t 0) 64 now (Thread_t 0) demo_engine) (\<lambda>e'. Inr (b'\<lparr>bar_engine := e'\<rparr>)) \<and>
     user b' = 1"
proof -
  have "frames_ok (bar_engine demo_drop_barrier) (nodes demo_drop_barrier) [17]"
    "frame_events (nodes demo_drop_barrier) [17] = []"
    using demo_drop_set(2) by (simp_all add: frames_ok_def frame_events_def)
  with complete_phase_resumes_window [of demo_drop_barrier "[]" "[17]" 1 1 Suc "Thread_t 0" 64] demo_drop_set
  show ?thesis by (auto simp: is_drop_def) (auto simp: demo_drop_barrier_def make_barrier_def)
qed

end
