(* ===== verification/Spin_Lock.thy ===== *)
theory Spin_Lock
  imports Zab_Prelude
begin

text \<open>
  \<open>includes/zab/spin_lock.hpp\<close>: the test-and-test-and-set lock and the recursive lock.  Threads are
  numbered by the ids that \<open>get_id()\<close> hands out, from 1.  Each step is one atomic access (or one
  access of the owner to \<open>count_\<close>) of one thread; \<open>pc\<close> says where each thread is.
\<close>

section \<open>The spin lock\<close>

datatype spin_pc =
    Outside
  | Locking    \<comment> \<open>in \<open>lock()\<close>, before the exchange\<close>
  | Spinning   \<comment> \<open>in the inner loop of \<open>lock()\<close>\<close>
  | Trying     \<comment> \<open>in \<open>try_lock()\<close>, the load has returned false\<close>
  | Inside     \<comment> \<open>owns the lock\<close>

record spin_lock =
  lock_flag :: bool
  spin_pc_of :: "nat \<Rightarrow> spin_pc"

definition make_spin_lock :: spin_lock where
  "make_spin_lock = \<lparr>lock_flag = False, spin_pc_of = (\<lambda>_. Outside)\<rparr>"

definition goto :: "nat \<Rightarrow> spin_pc \<Rightarrow> spin_lock \<Rightarrow> spin_lock" where
  "goto t p s = s\<lparr>spin_pc_of := (spin_pc_of s)(t := p)\<rparr>"

text \<open>The exchange of \<open>lock()\<close>, one load of its inner loop, the two halves of \<open>try_lock()\<close>, and
  \<open>unlock()\<close>.\<close>

definition lock_exchange :: "nat \<Rightarrow> spin_lock \<Rightarrow> spin_lock" where
  "lock_exchange t s = goto t (if lock_flag s then Spinning else Inside) (s\<lparr>lock_flag := True\<rparr>)"

definition lock_spin :: "nat \<Rightarrow> spin_lock \<Rightarrow> spin_lock" where
  "lock_spin t s = (if lock_flag s then s else goto t Locking s)"

definition try_load :: "nat \<Rightarrow> spin_lock \<Rightarrow> spin_lock" where
  "try_load t s = (if lock_flag s then s else goto t Trying s)"

definition try_exchange :: "nat \<Rightarrow> spin_lock \<Rightarrow> spin_lock" where
  "try_exchange t s = goto t (if lock_flag s then Outside else Inside) (s\<lparr>lock_flag := True\<rparr>)"

definition spin_unlock :: "nat \<Rightarrow> spin_lock \<Rightarrow> spin_lock" where
  "spin_unlock t s = goto t Outside (s\<lparr>lock_flag := False\<rparr>)"

inductive spin_step :: "spin_lock \<Rightarrow> spin_lock \<Rightarrow> bool" where
  spin_enter: "spin_pc_of s t = Outside \<Longrightarrow> spin_step s (goto t Locking s)"
| spin_exchange: "spin_pc_of s t = Locking \<Longrightarrow> spin_step s (lock_exchange t s)"
| spin_spin: "spin_pc_of s t = Spinning \<Longrightarrow> spin_step s (lock_spin t s)"
| spin_try_load: "spin_pc_of s t = Outside \<Longrightarrow> spin_step s (try_load t s)"
| spin_try_exchange: "spin_pc_of s t = Trying \<Longrightarrow> spin_step s (try_exchange t s)"
| spin_leave: "spin_pc_of s t = Inside \<Longrightarrow> spin_step s (spin_unlock t s)"

inductive spin_reachable :: "spin_lock \<Rightarrow> bool" where
  spin_start: "spin_reachable make_spin_lock"
| spin_next: "spin_reachable s \<Longrightarrow> spin_step s s' \<Longrightarrow> spin_reachable s'"

inductive_cases spin_stepE: "spin_step s s'"

text \<open>The flag is set exactly when some thread is inside, and at most one is.\<close>

definition spin_inv :: "spin_lock \<Rightarrow> bool" where
  "spin_inv s \<longleftrightarrow> (\<forall>t u. spin_pc_of s t = Inside \<and> spin_pc_of s u = Inside \<longrightarrow> t = u) \<and>
     (lock_flag s \<longleftrightarrow> (\<exists>t. spin_pc_of s t = Inside))"

lemmas spin_defs =
  goto_def lock_exchange_def lock_spin_def try_load_def try_exchange_def spin_unlock_def

lemma spin_step_inv: "spin_step s s' \<Longrightarrow> spin_inv s \<Longrightarrow> spin_inv s'"
proof (induction rule: spin_step.induct)
  case (spin_leave s t)
  then have "spin_pc_of s u \<noteq> Inside" if "u \<noteq> t" for u using that by (auto simp: spin_inv_def)
  then show ?case by (auto simp: spin_inv_def spin_defs)
next
  case (spin_exchange s t)
  then show ?case by (cases "lock_flag s") (force simp: spin_inv_def spin_defs)+
next
  case (spin_try_exchange s t)
  then show ?case by (cases "lock_flag s") (force simp: spin_inv_def spin_defs)+
qed (force simp: spin_inv_def spin_defs)+

lemma spin_reachable_inv [zab_inv]: "spin_reachable s \<Longrightarrow> spin_inv s"
proof (induction rule: spin_reachable.induct)
  case spin_start
  show ?case by (simp add: spin_inv_def make_spin_lock_def)
next
  case (spin_next s s')
  then show ?case by (blast intro: spin_step_inv)
qed

section \<open>The recursive spin lock\<close>

datatype rec_pc =
    R_outside
  | R_locking    \<comment> \<open>in \<open>lock()\<close>, before the compare and exchange\<close>
  | R_spinning   \<comment> \<open>in the inner loop of \<open>lock()\<close>\<close>
  | R_trying     \<comment> \<open>in \<open>try_lock()\<close>, after loading 0\<close>
  | R_counting   \<comment> \<open>owns the lock, before \<open>++count_\<close>\<close>

text \<open>\<open>r_depth t\<close> counts the calls of \<open>t\<close> that have taken the lock and not released it; it is
  auxiliary.\<close>

record recursive_lock =
  r_thread :: nat
  r_count :: nat
  r_pc_of :: "nat \<Rightarrow> rec_pc"
  r_depth :: "nat \<Rightarrow> nat"

definition make_recursive_lock :: recursive_lock where
  "make_recursive_lock = \<lparr>r_thread = 0, r_count = 0, r_pc_of = (\<lambda>_. R_outside), r_depth = (\<lambda>_. 0)\<rparr>"

definition r_goto :: "nat \<Rightarrow> rec_pc \<Rightarrow> recursive_lock \<Rightarrow> recursive_lock" where
  "r_goto t p s = s\<lparr>r_pc_of := (r_pc_of s)(t := p)\<rparr>"

text \<open>\<open>lock()\<close> up to the loop, its compare and exchange, one load of its inner loop.\<close>

definition r_lock_load :: "nat \<Rightarrow> recursive_lock \<Rightarrow> recursive_lock" where
  "r_lock_load t s = (if r_thread s = t then r_goto t R_counting s else r_goto t R_locking s)"

definition r_lock_exchange :: "nat \<Rightarrow> recursive_lock \<Rightarrow> recursive_lock" where
  "r_lock_exchange t s =
     (if r_thread s = 0 then r_goto t R_counting (s\<lparr>r_thread := t\<rparr>) else r_goto t R_spinning s)"

definition r_lock_spin :: "nat \<Rightarrow> recursive_lock \<Rightarrow> recursive_lock" where
  "r_lock_spin t s = (if r_thread s \<noteq> 0 then s else r_goto t R_locking s)"

text \<open>\<open>try_lock()\<close>: its load, and its compare and exchange.\<close>

definition r_try_load :: "nat \<Rightarrow> recursive_lock \<Rightarrow> recursive_lock" where
  "r_try_load t s =
     (if r_thread s = 0 then r_goto t R_trying s
      else if r_thread s = t then r_goto t R_counting s else s)"

definition r_try_exchange :: "nat \<Rightarrow> recursive_lock \<Rightarrow> recursive_lock" where
  "r_try_exchange t s =
     (if r_thread s = 0 then r_goto t R_counting (s\<lparr>r_thread := t\<rparr>) else r_goto t R_outside s)"

definition r_increment :: "nat \<Rightarrow> recursive_lock \<Rightarrow> recursive_lock" where
  "r_increment t s =
     r_goto t R_outside (s\<lparr>r_count := r_count s + 1, r_depth := (r_depth s)(t := r_depth s t + 1)\<rparr>)"

definition r_unlock :: "nat \<Rightarrow> recursive_lock \<Rightarrow> recursive_lock" where
  "r_unlock t s =
     (let s' = s\<lparr>r_count := r_count s - 1, r_depth := (r_depth s)(t := r_depth s t - 1)\<rparr>
      in if r_count s' = 0 then s'\<lparr>r_thread := 0\<rparr> else s')"

inductive rec_step :: "recursive_lock \<Rightarrow> recursive_lock \<Rightarrow> bool" where
  rec_load: "t \<noteq> 0 \<Longrightarrow> r_pc_of s t = R_outside \<Longrightarrow> rec_step s (r_lock_load t s)"
| rec_exchange: "t \<noteq> 0 \<Longrightarrow> r_pc_of s t = R_locking \<Longrightarrow> rec_step s (r_lock_exchange t s)"
| rec_spin: "t \<noteq> 0 \<Longrightarrow> r_pc_of s t = R_spinning \<Longrightarrow> rec_step s (r_lock_spin t s)"
| rec_try_load: "t \<noteq> 0 \<Longrightarrow> r_pc_of s t = R_outside \<Longrightarrow> rec_step s (r_try_load t s)"
| rec_try_exchange: "t \<noteq> 0 \<Longrightarrow> r_pc_of s t = R_trying \<Longrightarrow> rec_step s (r_try_exchange t s)"
| rec_increment: "t \<noteq> 0 \<Longrightarrow> r_pc_of s t = R_counting \<Longrightarrow> rec_step s (r_increment t s)"
| rec_unlock: "t \<noteq> 0 \<Longrightarrow> r_pc_of s t = R_outside \<Longrightarrow> 0 < r_depth s t \<Longrightarrow> rec_step s (r_unlock t s)"

inductive rec_reachable :: "recursive_lock \<Rightarrow> bool" where
  rec_start: "rec_reachable make_recursive_lock"
| rec_next: "rec_reachable s \<Longrightarrow> rec_step s s' \<Longrightarrow> rec_reachable s'"

text \<open>\<open>thread_\<close> is the owner, which alone is about to count or has depth, and \<open>count_\<close> is the
  owner's depth.\<close>

definition owns :: "recursive_lock \<Rightarrow> nat \<Rightarrow> bool" where
  "owns s t \<longleftrightarrow> 0 < r_depth s t \<or> r_pc_of s t = R_counting"

definition rec_inv :: "recursive_lock \<Rightarrow> bool" where
  "rec_inv s \<longleftrightarrow> (\<forall>t. t \<noteq> r_thread s \<longrightarrow> r_depth s t = 0 \<and> r_pc_of s t \<noteq> R_counting) \<and>
     (if r_thread s = 0 then r_depth s 0 = 0 \<and> r_pc_of s 0 \<noteq> R_counting else owns s (r_thread s)) \<and>
     r_count s = r_depth s (r_thread s)"

lemmas rec_defs =
  r_goto_def r_lock_load_def r_lock_exchange_def r_lock_spin_def r_try_load_def r_try_exchange_def
  r_increment_def r_unlock_def

lemma rec_inv_owner: "rec_inv s \<Longrightarrow> owns s t \<Longrightarrow> t = r_thread s \<and> t \<noteq> 0"
  unfolding rec_inv_def owns_def by (metis less_numeral_extra(3))

lemma rec_inv_acquire:
  assumes "rec_inv s" and "r_thread s = 0" and "t \<noteq> 0"
  shows "rec_inv (r_goto t R_counting (s\<lparr>r_thread := t\<rparr>))"
proof -
  have "r_depth s u = 0 \<and> r_pc_of s u \<noteq> R_counting" for u
    using assms(1,2) unfolding rec_inv_def by (cases "u = 0") simp_all
  moreover have "r_count s = 0" using assms(1,2) unfolding rec_inv_def by simp
  ultimately show ?thesis using assms(3) by (simp add: rec_inv_def owns_def r_goto_def)
qed

lemma rec_inv_goto:
  assumes "rec_inv s" and "p = R_counting \<longleftrightarrow> r_thread s = t \<and> r_pc_of s t = R_counting" and "t \<noteq> 0"
  shows "rec_inv (r_goto t p s)"
  using assms by (cases "r_thread s = 0") (auto simp: rec_inv_def owns_def r_goto_def)

lemma rec_inv_again:
  assumes "rec_inv s" and "r_thread s = t" and "t \<noteq> 0"
  shows "rec_inv (r_goto t R_counting s)"
  using assms by (auto simp: rec_inv_def owns_def r_goto_def)

lemma rec_step_inv: "rec_step s s' \<Longrightarrow> rec_inv s \<Longrightarrow> rec_inv s'"
proof (induction rule: rec_step.induct)
  case (rec_load t s)
  then show ?case
    by (cases "r_thread s = t") (simp_all add: r_lock_load_def rec_inv_again rec_inv_goto)
next
  case (rec_exchange t s)
  then show ?case
    by (cases "r_thread s = 0") (simp_all add: r_lock_exchange_def rec_inv_acquire rec_inv_goto)
next
  case (rec_spin t s)
  then show ?case by (simp add: r_lock_spin_def rec_inv_goto)
next
  case (rec_try_load t s)
  then show ?case
    by (cases "r_thread s = t") (simp_all add: r_try_load_def rec_inv_again rec_inv_goto)
next
  case (rec_try_exchange t s)
  then show ?case
    by (cases "r_thread s = 0") (simp_all add: r_try_exchange_def rec_inv_acquire rec_inv_goto)
next
  case (rec_increment t s)
  then have "t = r_thread s" using rec_inv_owner [of s t] by (simp add: owns_def)
  with rec_increment show ?case by (simp add: rec_inv_def owns_def r_increment_def r_goto_def)
next
  case (rec_unlock t s)
  then have t: "t = r_thread s" using rec_inv_owner [of s t] by (simp add: owns_def)
  moreover have "r_count s = r_depth s t" using rec_unlock(4) t by (simp add: rec_inv_def)
  moreover have "r_depth s 0 = 0" "r_pc_of s 0 \<noteq> R_counting" using rec_unlock(1,4) t by (simp_all add: rec_inv_def)
  ultimately show ?case using rec_unlock
    by (cases "r_depth s t = 1") (simp_all add: rec_inv_def owns_def r_unlock_def Let_def)
qed

lemma rec_reachable_inv [zab_inv]: "rec_reachable s \<Longrightarrow> rec_inv s"
proof (induction rule: rec_reachable.induct)
  case rec_start
  show ?case by (simp add: rec_inv_def make_recursive_lock_def)
next
  case (rec_next s s')
  then show ?case by (blast intro: rec_step_inv)
qed

section \<open>Properties\<close>

text \<open>C27: At most one thread is inside the spin lock, and the flag is set exactly while one is; when the
  lock is free, a thread in \<open>lock()\<close> takes it with its next exchange.\<close>

theorem spin_lock_mutual_exclusion:
  assumes "spin_reachable s"
  shows "(\<forall>t u. spin_pc_of s t = Inside \<and> spin_pc_of s u = Inside \<longrightarrow> t = u) \<and>
     (lock_flag s \<longleftrightarrow> (\<exists>t. spin_pc_of s t = Inside)) \<and>
     (\<forall>t. \<not> lock_flag s \<longrightarrow> spin_pc_of (lock_exchange t s) t = Inside)"
  using spin_reachable_inv [OF assms] by (simp add: spin_inv_def lock_exchange_def goto_def)

text \<open>The recursive lock belongs to at most one thread, the one in \<open>thread_\<close>; \<open>count_\<close> is the number
  of its acquisitions not yet released, and the lock is free again after exactly as many calls of
  \<open>unlock()\<close>, not before.\<close>

theorem recursive_lock_counts:
  assumes "rec_reachable s"
  shows "(\<forall>t u. 0 < r_depth s t \<and> 0 < r_depth s u \<longrightarrow> t = u) \<and> r_count s = r_depth s (r_thread s) \<and>
     (\<forall>t. t \<noteq> 0 \<and> 0 < r_depth s t \<longrightarrow>
        r_thread ((r_unlock t ^^ r_depth s t) s) = 0 \<and>
        (\<forall>k < r_depth s t. r_thread ((r_unlock t ^^ k) s) = t))"
proof -
  have inv: "rec_inv s" by (rule rec_reachable_inv [OF assms])
  have own: "t = r_thread s" "r_count s = r_depth s t" if "0 < r_depth s t" for t
    using rec_inv_owner [OF inv, of t] inv that by (simp_all add: owns_def rec_inv_def)
  have unl: "r_thread ((r_unlock t ^^ k) s) = (if k = r_depth s t then 0 else t) \<and>
      r_count ((r_unlock t ^^ k) s) = r_depth s t - k"
    if "0 < r_depth s t" "k \<le> r_depth s t" for t k
    using that(2)
  proof (induction k)
    case 0
    show ?case using own [OF that(1)] that(1) by simp
  next
    case (Suc k)
    then show ?case by (auto simp: r_unlock_def Let_def)
  qed
  have "t = u" if "0 < r_depth s t" "0 < r_depth s u" for t u
    using own(1) [OF that(1)] own(1) [OF that(2)] by simp
  moreover have "r_count s = r_depth s (r_thread s)" using inv by (simp add: rec_inv_def)
  moreover have "r_thread ((r_unlock t ^^ r_depth s t) s) = 0 \<and> (\<forall>k < r_depth s t. r_thread ((r_unlock t ^^ k) s) = t)"
    if "t \<noteq> 0" "0 < r_depth s t" for t
    using unl [OF that(2)] by (simp add: less_imp_le)
  ultimately show ?thesis by blast
qed

section \<open>Witnesses\<close>

theorem spin_lock_mutual_exclusion_witness:
  "\<exists>s. spin_reachable s \<and> spin_pc_of s 1 = Inside \<and> lock_flag s \<and> (\<forall>t. spin_pc_of s t = Inside \<longrightarrow> t = 1)"
proof -
  let ?s = "lock_exchange 1 (goto 1 Locking make_spin_lock)"
  have "spin_step make_spin_lock (goto 1 Locking make_spin_lock)"
    by (rule spin_enter) (simp add: make_spin_lock_def)
  moreover have "spin_step (goto 1 Locking make_spin_lock) ?s"
    by (rule spin_exchange) (simp add: goto_def)
  ultimately have r: "spin_reachable ?s" by (meson spin_start spin_next)
  have "spin_pc_of ?s 1 = Inside" by (simp add: lock_exchange_def goto_def make_spin_lock_def)
  with spin_lock_mutual_exclusion [OF r] r show ?thesis by blast
qed

theorem recursive_lock_counts_witness:
  "\<exists>s. rec_reachable s \<and> r_depth s 7 = 2 \<and> r_thread (r_unlock 7 s) = 7 \<and> r_thread (r_unlock 7 (r_unlock 7 s)) = 0"
proof -
  let ?s1 = "r_lock_load 7 make_recursive_lock"
  let ?s2 = "r_lock_exchange 7 ?s1"
  let ?s3 = "r_increment 7 ?s2"
  let ?s4 = "r_try_load 7 ?s3"
  let ?s5 = "r_increment 7 ?s4"
  note d = rec_defs make_recursive_lock_def
  have "rec_step make_recursive_lock ?s1" by (rule rec_load) (simp_all add: d)
  moreover have "rec_step ?s1 ?s2" by (rule rec_exchange) (simp_all add: d)
  moreover have "rec_step ?s2 ?s3" by (rule rec_increment) (simp_all add: d)
  moreover have "rec_step ?s3 ?s4" by (rule rec_try_load) (simp_all add: d)
  moreover have "rec_step ?s4 ?s5" by (rule rec_increment) (simp_all add: d)
  ultimately have r: "rec_reachable ?s5" by (meson rec_start rec_next)
  have dep: "r_depth ?s5 7 = 2" by (simp add: d)
  from recursive_lock_counts [OF r] have "0 < r_depth ?s5 7 \<longrightarrow>
      r_thread ((r_unlock 7 ^^ r_depth ?s5 7) ?s5) = 0 \<and> (\<forall>k < r_depth ?s5 7. r_thread ((r_unlock 7 ^^ k) ?s5) = 7)"
    by auto
  then have "r_thread ((r_unlock 7 ^^ 2) ?s5) = 0" "\<forall>k < 2. r_thread ((r_unlock 7 ^^ k) ?s5) = 7"
    unfolding dep by auto
  moreover from this(2) have "r_thread ((r_unlock 7 ^^ 1) ?s5) = 7" by (rule allE [of _ 1]) simp
  ultimately show ?thesis using r dep by (intro exI [of _ ?s5]) (simp add: eval_nat_numeral)
qed

end
