(* ===== verification/Generic_Awaitable.thy ===== *)
theory Generic_Awaitable
  imports Timer_Service
begin

text \<open>
  \<open>includes/zab/generic_awaitable.hpp\<close> and \<open>includes/zab/stateful_awaitable.hpp\<close>: the
  suspension points that the awaitable operations of the library are made of.  A functor is called with
  one of three arguments: at \<open>await_ready\<close>, at \<open>await_suspend\<close> with the event of the awaiter, at
  \<open>await_resume\<close>.  What it returns at each decides what the awaiter does; which overload the compiler
  selects is which constructor the reply has.  Also the awaitable \<open>wait\<close> of
  \<open>includes/zab/timer_service.hpp\<close>, which is such a functor.
\<close>

section \<open>Suspension points\<close>

text \<open>The reply of the functor at \<open>await_ready\<close> (no value, or a bool) and at \<open>await_suspend\<close>.\<close>

datatype ready_reply = Ready_void | Ready_bool bool

datatype suspend_reply =
    Suspend_void
  | Suspend_bool bool
  | Suspend_handle coro
  | Suspend_event tagged_event

record 's await_functor =
  on_ready :: "'s \<Rightarrow> 's \<times> ready_reply"
  on_suspend :: "tagged_event \<Rightarrow> 's \<Rightarrow> ('s \<times> suspend_reply) outcome"

text \<open>What the awaiting coroutine does: it stays suspended, goes on, or control is transferred to
  another coroutine.\<close>

datatype awaiter_next = Stay_suspended | Go_on | Transfer_to coro

definition await_ready :: "'s await_functor \<Rightarrow> 's \<Rightarrow> 's \<times> bool" where
  "await_ready f s =
     (case on_ready f s of (s', Ready_void) \<Rightarrow> (s', False) | (s', Ready_bool b) \<Rightarrow> (s', b))"

text \<open>\<open>handle_suspend\<close>: an event that is not a coroutine is executed and the awaiter stays suspended
  (control goes to \<open>noop_coroutine\<close>).\<close>

fun handle_suspend :: "suspend_reply \<Rightarrow> (awaiter_next \<times> action list) outcome" where
  "handle_suspend Suspend_void = Inr (Stay_suspended, [])"
| "handle_suspend (Suspend_bool b) = Inr (if b then Stay_suspended else Go_on, [])"
| "handle_suspend (Suspend_handle h) = Inr (Transfer_to h, [])"
| "handle_suspend (Suspend_event (Coroutine_alt h)) = Inr (Transfer_to h, [])"
| "handle_suspend (Suspend_event (Event_alt e)) =
     bind_outcome (execute_event (Event_alt e)) (\<lambda>acts. Inr (Stay_suspended, acts))"

definition await_suspend :: "'s await_functor \<Rightarrow> tagged_event \<Rightarrow> 's \<Rightarrow> ('s \<times> awaiter_next \<times> action list) outcome" where
  "await_suspend f ev s =
     bind_outcome (on_suspend f ev s) (\<lambda>(s', r).
     bind_outcome (handle_suspend r) (\<lambda>(nx, acts). Inr (s', nx, acts)))"

text \<open>\<open>co_await\<close> on a suspension point by the coroutine \<open>co\<close>.\<close>

definition co_await :: "'s await_functor \<Rightarrow> coro \<Rightarrow> 's \<Rightarrow> ('s \<times> awaiter_next \<times> action list) outcome" where
  "co_await f co s =
     (let (s', ready) = await_ready f s
      in if ready then Inr (s', Go_on, []) else await_suspend f (Coroutine_alt co) s')"

text \<open>\<open>inline_await_suspend\<close> and \<open>inline_co_await\<close>: the same for an awaiter that is any event.\<close>

definition inline_await_suspend :: "'s await_functor \<Rightarrow> tagged_event \<Rightarrow> 's \<Rightarrow> ('s \<times> action list) outcome" where
  "inline_await_suspend f ev s =
     bind_outcome (await_suspend f ev s) (\<lambda>(s', nx, acts).
       case nx of
         Stay_suspended \<Rightarrow> Inr (s', acts)
       | Go_on \<Rightarrow> bind_outcome (execute_event ev) (\<lambda>acts'. Inr (s', acts @ acts'))
       | Transfer_to h \<Rightarrow> Inr (s', acts @ [Resume h]))"

definition inline_co_await :: "'s await_functor \<Rightarrow> tagged_event \<Rightarrow> 's \<Rightarrow> ('s \<times> action list) outcome" where
  "inline_co_await f ev s =
     (let (s', ready) = await_ready f s
      in if \<not> ready then inline_await_suspend f ev s'
         else bind_outcome (execute_event ev) (\<lambda>acts. Inr (s', acts)))"

text \<open>The actions that follow a \<open>co_await\<close> of \<open>co\<close>: those of the suspension, then the continuation.\<close>

definition continuation :: "coro \<Rightarrow> awaiter_next \<Rightarrow> action list" where
  "continuation co nx =
     (case nx of Stay_suspended \<Rightarrow> [] | Go_on \<Rightarrow> [Resume co] | Transfer_to h \<Rightarrow> [Resume h])"

section \<open>Awaiting a timer\<close>

text \<open>The functor of \<open>timer_service::wait(_nano_seconds, _thread)\<close>.  Its first branch tests
  \<open>is_suspend\<close>, as does the second, so the second is never taken: at \<open>await_ready\<close> it has no value, at
  \<open>await_suspend\<close> it returns whether the delay is 0.\<close>

definition timer_wait_functor :: "u64 \<Rightarrow> timer_service await_functor" where
  "timer_wait_functor ns =
     \<lparr>on_ready = (\<lambda>t. (t, Ready_void)), on_suspend = (\<lambda>ev t. Inr (t, Suspend_bool (ns = 0)))\<rparr>"

section \<open>Suspension points that are notified\<close>

datatype notify_ctl = kSuspend | kResume | kReady

text \<open>A functor that is also called with the result of an event.  \<open>st_suspend\<close> says whether the
  operation is under way again (for a functor without a value there, it always is).\<close>

record ('s, 'n) stateful_functor =
  st_notify :: "'n \<Rightarrow> 's \<Rightarrow> 's \<times> notify_ctl"
  st_ready :: "'s \<Rightarrow> 's \<times> bool"
  st_suspend :: "'s \<Rightarrow> ('s \<times> bool) outcome"

text \<open>\<open>await_suspend\<close> for a coroutine and \<open>inline_await_suspend\<close> for an event: the awaiter is stored as the
  underlying event, which is part of the result.\<close>

definition stateful_await_suspend ::
    "('s, 'n) stateful_functor \<Rightarrow> coro \<Rightarrow> 's \<Rightarrow> (tagged_event \<times> 's \<times> awaiter_next) outcome" where
  "stateful_await_suspend f co s =
     bind_outcome (st_suspend f s) (\<lambda>(s', under_way).
       Inr (Coroutine_alt co, s', if under_way then Stay_suspended else Go_on))"

definition stateful_inline_await_suspend ::
    "('s, 'n) stateful_functor \<Rightarrow> tagged_event \<Rightarrow> 's \<Rightarrow> (tagged_event \<times> 's \<times> action list) outcome" where
  "stateful_inline_await_suspend f ev s =
     bind_outcome (st_suspend f s) (\<lambda>(s', under_way).
       if under_way then Inr (ev, s', [])
       else bind_outcome (execute_event ev) (\<lambda>acts. Inr (ev, s', acts)))"

text \<open>The loop of \<open>notify()\<close>; \<open>underlying\<close> is the awaiter.\<close>

fun notify_loop ::
  "nat \<Rightarrow> ('s, 'n) stateful_functor \<Rightarrow> tagged_event \<Rightarrow> notify_ctl \<Rightarrow> 's \<Rightarrow> ('s \<times> action list) outcome" where
  "notify_loop 0 f underlying ctl s = Inl Out_of_fuel"
| "notify_loop (Suc n) f underlying kSuspend s =
     bind_outcome (st_suspend f s) (\<lambda>(s', under_way).
       if under_way then Inr (s', []) else notify_loop n f underlying kResume s')"
| "notify_loop (Suc n) f underlying kResume s =
     bind_outcome (execute_event underlying) (\<lambda>acts. Inr (s, acts))"
| "notify_loop (Suc n) f underlying kReady s =
     (let (s', ready) = st_ready f s
      in notify_loop n f underlying (if ready then kResume else kSuspend) s')"

definition notify :: "nat \<Rightarrow> ('s, 'n) stateful_functor \<Rightarrow> tagged_event \<Rightarrow> 'n \<Rightarrow> 's \<Rightarrow> ('s \<times> action list) outcome" where
  "notify n f underlying r s = (let (s', ctl) = st_notify f r s in notify_loop n f underlying ctl s')"

section \<open>Properties\<close>


text \<open>\<open>co_await timer.wait(n)\<close> never registers with the timer: for a positive delay the coroutine goes
  on at once, for a delay of 0 it stays suspended and nothing will resume it.\<close>

theorem timer_wait_awaitable_never_waits:
  "co_await (timer_wait_functor ns) co t = Inr (t, if ns = 0 then Stay_suspended else Go_on, [])"
  by (simp add: co_await_def await_ready_def await_suspend_def timer_wait_functor_def)

text \<open>A notification is handled within three turns of its loop: either the operation is under way
  again and the awaiter is not touched, or the awaiter is executed exactly once.\<close>

theorem notify_terminates:
  assumes "underlying = resume_event co" and "co \<noteq> 0" and "3 \<le> n"
    and "\<And>s. ok (st_suspend f s)"
  shows "\<exists>s' acts. notify n f underlying r s = Inr (s', acts) \<and> (acts = [] \<or> acts = [Resume co])"
proof -
  obtain m where n: "n = Suc (Suc (Suc m))" using assms(3) by (metis Suc_le_D numeral_3_eq_3 Suc_le_mono)
  obtain s1 ctl where r: "st_notify f r s = (s1, ctl)" by force
  have res: "notify_loop (Suc k) f underlying kResume s2 = Inr (s2, [Resume co])" for k s2
    using assms(1,2) by (simp add: event_defs)
  have sus: "\<exists>s' acts. notify_loop (Suc (Suc k)) f underlying kSuspend s2 = Inr (s', acts) \<and>
      (acts = [] \<or> acts = [Resume co])" for k s2
  proof -
    obtain s3 u where "st_suspend f s2 = Inr (s3, u)" using assms(4) [of s2] by (auto simp: ok_iff)
    then show ?thesis using res by simp
  qed
  show ?thesis
  proof (cases ctl)
    case kReady
    then show ?thesis using r n res sus by (simp add: notify_def case_prod_unfold Let_def del: notify_loop.simps(2,3))
  next
    case kSuspend
    then show ?thesis using r n sus by (simp add: notify_def del: notify_loop.simps(2,3))
  next
    case kResume
    then show ?thesis using r n res by (simp add: notify_def)
  qed
qed

text \<open>Also for suspension points that are notified, suspending an event inline does what suspending a coroutine
  does, with the same underlying event afterwards.\<close>

theorem stateful_inline_agrees:
  assumes "co \<noteq> 0"
  shows "stateful_inline_await_suspend f (Coroutine_alt co) s =
     bind_outcome (stateful_await_suspend f co s) (\<lambda>(ev, s', nx). Inr (ev, s', continuation co nx))"
proof (cases "st_suspend f s")
  case (Inr r)
  then show ?thesis using assms
    by (cases r) (simp add: stateful_inline_await_suspend_def stateful_await_suspend_def continuation_def event_defs)
qed (simp add: stateful_inline_await_suspend_def stateful_await_suspend_def)

section \<open>Witnesses\<close>


definition demo_stateful :: "(nat, nat) stateful_functor" where
  "demo_stateful = \<lparr>st_notify = (\<lambda>k s. (s + k, kReady)), st_ready = (\<lambda>s. (s, 10 \<le> s)),
     st_suspend = (\<lambda>s. Inr (s, True))\<rparr>"

theorem notify_terminates_witness:
  "\<exists>s' acts. notify 3 demo_stateful (resume_event 16) 4 0 = Inr (s', acts) \<and> (acts = [] \<or> acts = [Resume 16])"
  by (rule notify_terminates) (simp_all add: demo_stateful_def)

end
