(* ===== verification/Pause_Token.thy ===== *)
theory Pause_Token
  imports Engine
begin

text \<open>
  \<open>includes/zab/pause_token.hpp\<close>: a lock-free token on which coroutines suspend until it is
  unpaused.  The atomic \<open>resuming_\<close> is one of: \<open>kUnpausedFlag\<close>, null (paused, nobody
  waits), or the address of the most recent \<open>pauser\<close>, from which the others are linked through
  \<open>next_waiting_\<close>.

  The first part models the operations as they run when no other thread interferes; the retry
  loops around \<open>compare_exchange_weak\<close> take the list of its spurious failures.  The second part
  is a step relation in which any number of threads run \<open>pause(pauser*)\<close>, \<open>unpause()\<close> and
  \<open>pause()\<close> concurrently, one atomic access at a time, and in which the memory of a resumed
  pauser may be used again at once.
\<close>

section \<open>State\<close>

record pauser =
  p_thread :: thread_t
  p_next :: addr
  p_handle :: coro

record pt_state =
  resuming :: addr
  pausers :: "addr \<rightharpoonup> pauser"
  pt_engine :: engine

definition kUnpausedFlag :: addr where
  "kUnpausedFlag = 1"

definition new_pauser :: "thread_t \<Rightarrow> pauser" where
  "new_pauser cur = \<lparr>p_thread = cur, p_next = null, p_handle = null\<rparr>"

definition make_token :: "engine \<Rightarrow> pt_state" where
  "make_token e = \<lparr>resuming = 0, pausers = Map.empty, pt_engine = e\<rparr>"

section \<open>Operations\<close>

definition paused :: "pt_state \<Rightarrow> bool" where
  "paused s \<longleftrightarrow> resuming s AND kUnpausedFlag = 0"

text \<open>\<open>pause()\<close>.  The list says, per attempt, whether the weak exchange fails spuriously.\<close>

fun pause_retry :: "bool list \<Rightarrow> pt_state \<Rightarrow> pt_state" where
  "pause_retry [] s = (if resuming s = kUnpausedFlag then s\<lparr>resuming := 0\<rparr> else s)"
| "pause_retry (spurious # fs) s =
     (if resuming s = kUnpausedFlag
      then (if spurious then pause_retry fs s else s\<lparr>resuming := 0\<rparr>)
      else s)"

definition pause :: "bool list \<Rightarrow> pt_state \<Rightarrow> pt_state" where
  "pause fs s = (if resuming s \<noteq> kUnpausedFlag then s else pause_retry fs s)"

text \<open>The loop of \<open>unpause()\<close> over the captured list.\<close>

fun resume_pausers :: "nat \<Rightarrow> (addr \<rightharpoonup> pauser) \<Rightarrow> addr \<Rightarrow> engine \<Rightarrow> engine outcome" where
  "resume_pausers 0 h p e = (if p = null then Inr e else Inl Out_of_fuel)"
| "resume_pausers (Suc n) h p e =
     (if p = null then Inr e
      else case h p of
        None \<Rightarrow> Inl Bad_address
      | Some w \<Rightarrow>
          bind_outcome (thread_resume (resume_event (p_handle w)) (p_thread w) e)
            (resume_pausers n h (p_next w)))"

definition unpause_token :: "nat \<Rightarrow> pt_state \<Rightarrow> pt_state outcome" where
  "unpause_token n s =
     (let old = resuming s; s' = s\<lparr>resuming := kUnpausedFlag\<rparr>
      in if old = kUnpausedFlag then Inr s'
         else bind_outcome (resume_pausers n (pausers s) old (pt_engine s))
                (\<lambda>e. Inr (s'\<lparr>pt_engine := e\<rparr>)))"

text \<open>\<open>pause(pauser*)\<close>; the result says whether the coroutine stays suspended.\<close>

definition link_pauser :: "addr \<Rightarrow> addr \<Rightarrow> (addr \<rightharpoonup> pauser) \<Rightarrow> (addr \<rightharpoonup> pauser) outcome" where
  "link_pauser a previous h =
     (case h a of None \<Rightarrow> Inl Bad_address | Some w \<Rightarrow> Inr (h(a \<mapsto> w\<lparr>p_next := previous\<rparr>)))"

fun pause_pauser :: "bool list \<Rightarrow> addr \<Rightarrow> pt_state \<Rightarrow> (pt_state \<times> bool) outcome" where
  "pause_pauser fs a s =
     (if resuming s = kUnpausedFlag then Inr (s, False)
      else bind_outcome (link_pauser a (resuming s) (pausers s)) (\<lambda>h.
        let s' = s\<lparr>pausers := h\<rparr>
        in case fs of
             True # fs' \<Rightarrow> pause_pauser fs' a s'
           | _ \<Rightarrow> Inr (s'\<lparr>resuming := a\<rparr>, True)))"

declare pause_pauser.simps [simp del]

text \<open>The awaiter: \<open>await_ready\<close>, then \<open>await_suspend\<close>.  \<open>True\<close> when the coroutine
  \<open>co\<close>, whose \<open>pauser\<close> is at \<open>a\<close>, is suspended.\<close>

definition token_await_suspend :: "bool list \<Rightarrow> addr \<Rightarrow> coro \<Rightarrow> pt_state \<Rightarrow> (pt_state \<times> bool) outcome" where
  "token_await_suspend fs a co s =
     (case pausers s a of
        None \<Rightarrow> Inl Bad_address
      | Some w \<Rightarrow> pause_pauser fs a (s\<lparr>pausers := (pausers s)(a \<mapsto> w\<lparr>p_handle := co\<rparr>)\<rparr>))"

definition token_await :: "bool list \<Rightarrow> thread_t \<Rightarrow> addr \<Rightarrow> coro \<Rightarrow> pt_state \<Rightarrow> (pt_state \<times> bool) outcome" where
  "token_await fs cur a co s =
     (let s' = s\<lparr>pausers := (pausers s)(a \<mapsto> new_pauser cur)\<rparr>
      in if \<not> paused s' then Inr (s', False) else token_await_suspend fs a co s')"

section \<open>The waiting list\<close>

definition pauser_next :: "(addr \<rightharpoonup> pauser) \<Rightarrow> addr \<Rightarrow> addr option" where
  "pauser_next h = (\<lambda>a. map_option p_next (h a))"

lemma pauser_next_Some [simp]:
  "pauser_next h a = Some r \<longleftrightarrow> (\<exists>w. h a = Some w \<and> p_next w = r)"
  by (simp add: pauser_next_def)

lemma pauser_next_upd [simp]: "pauser_next (h(a := v)) = (pauser_next h)(a := map_option p_next v)"
  by (auto simp: pauser_next_def)

definition pauser_event :: "pauser \<Rightarrow> tagged_event \<times> thread_t" where
  "pauser_event w = (resume_event (p_handle w), p_thread w)"

definition events_of :: "(addr \<rightharpoonup> pauser) \<Rightarrow> addr list \<Rightarrow> (tagged_event \<times> thread_t) list" where
  "events_of h xs = map (\<lambda>a. pauser_event (the (h a))) xs"

text \<open>\<open>waits s xs\<close>: the token is paused and exactly the pausers \<open>xs\<close> wait, the most recent
  first.  Pausers are objects, so their addresses are not null and have the flag bit clear.\<close>

definition waits :: "pt_state \<Rightarrow> addr list \<Rightarrow> bool" where
  "waits s xs \<longleftrightarrow> chain (pauser_next (pausers s)) (resuming s) xs null \<and>
     (\<forall>a \<in> set xs. a AND kUnpausedFlag = 0)"

lemma flag_not_aligned: "a AND kUnpausedFlag = 0 \<Longrightarrow> a \<noteq> kUnpausedFlag"
  by (auto simp: kUnpausedFlag_def)

lemma waits_not_flag: "waits s xs \<Longrightarrow> resuming s \<noteq> kUnpausedFlag"
  by (cases xs) (auto simp: waits_def kUnpausedFlag_def)

lemma waits_paused: "waits s xs \<Longrightarrow> paused s"
  by (cases xs) (auto simp: waits_def paused_def)

lemma resume_pausers_fold:
  "chain (pauser_next h) p xs null \<Longrightarrow> length xs \<le> n \<Longrightarrow>
   resume_pausers n h p e = fold_outcome (\<lambda>(ev, th). thread_resume ev th) (events_of h xs) e"
proof (induction xs arbitrary: p n e)
  case Nil
  then show ?case by (cases n) (simp_all add: events_of_def)
next
  case (Cons a xs)
  then obtain w where w: "h a = Some w" "chain (pauser_next h) (p_next w) xs null"
    by auto
  from Cons.prems obtain n' where n: "n = Suc n'" "length xs \<le> n'" by (cases n) auto
  show ?case
    using Cons.prems w n Cons.IH [OF w(2) n(2)]
    by (simp add: events_of_def pauser_event_def cong: bind_outcome_cong)
qed

lemma unpause_token_waits:
  assumes "waits s xs" and "length xs \<le> n"
    and "\<forall>(ev, th) \<in> set (events_of (pausers s) xs). accepts (pt_engine s) th"
    and "length xs \<le> room (pt_engine s)"
  shows "\<exists>e'. unpause_token n s = Inr (s\<lparr>resuming := kUnpausedFlag, pt_engine := e'\<rparr>) \<and>
     fold_outcome (\<lambda>(ev, th). thread_resume ev th) (events_of (pausers s) xs) (pt_engine s) = Inr e' \<and>
     queued e' = queued (pt_engine s) + mset (map fst (events_of (pausers s) xs)) \<and>
     accepts e' = accepts (pt_engine s) \<and> room (pt_engine s) \<le> length xs + room e'"
proof -
  have "length (events_of (pausers s) xs) \<le> room (pt_engine s)" using assms(4) by (simp add: events_of_def)
  from eng.resume_all [OF assms(3) this] obtain e' where e':
    "fold_outcome (\<lambda>(ev, th). thread_resume ev th) (events_of (pausers s) xs) (pt_engine s) = Inr e'"
    "queued e' = queued (pt_engine s) + mset (map fst (events_of (pausers s) xs))"
    "accepts e' = accepts (pt_engine s)"
    "room (pt_engine s) \<le> length (events_of (pausers s) xs) + room e'" by blast
  have "resume_pausers n (pausers s) (resuming s) (pt_engine s) = Inr e'"
    using resume_pausers_fold [of "pausers s" "resuming s" xs n "pt_engine s"] assms(1,2) e'(1)
    by (simp add: waits_def)
  with waits_not_flag [OF assms(1)] e' show ?thesis
    by (simp add: unpause_token_def Let_def events_of_def)
qed

lemma pause_pauser_waits:
  assumes "waits s xs" and "pausers s a = Some w" and "a \<notin> set xs" and "a \<noteq> null"
    and "a AND kUnpausedFlag = 0"
  shows "\<exists>s'. pause_pauser fs a s = Inr (s', True) \<and> waits s' (a # xs) \<and>
     pausers s' = (pausers s)(a \<mapsto> w\<lparr>p_next := resuming s\<rparr>) \<and> pt_engine s' = pt_engine s"
  using assms
proof (induction fs a s arbitrary: w rule: pause_pauser.induct)
  case (1 fs a s)
  let ?h = "(pausers s)(a \<mapsto> w\<lparr>p_next := resuming s\<rparr>)"
  have nf: "resuming s \<noteq> kUnpausedFlag" by (rule waits_not_flag [OF "1.prems"(1)])
  have link: "link_pauser a (resuming s) (pausers s) = Inr ?h" using "1.prems"(2) by (simp add: link_pauser_def)
  have ws: "waits (s\<lparr>pausers := ?h\<rparr>) xs"
    using "1.prems" by (simp add: waits_def)
  have push: "waits (s\<lparr>pausers := ?h, resuming := a\<rparr>) (a # xs)"
    using "1.prems" by (simp add: waits_def)
  show ?case
  proof (cases "\<exists>fs'. fs = True # fs'")
    case True
    then obtain fs' where fs: "fs = True # fs'" by blast
    have unfold: "pause_pauser fs a s = pause_pauser fs' a (s\<lparr>pausers := ?h\<rparr>)"
      using nf link fs by (subst pause_pauser.simps) simp
    have rec: "\<exists>s'. pause_pauser fs' a (s\<lparr>pausers := ?h\<rparr>) = Inr (s', True) \<and> waits s' (a # xs) \<and>
        pausers s' = (pausers (s\<lparr>pausers := ?h\<rparr>))
          (a \<mapsto> (w\<lparr>p_next := resuming s\<rparr>)\<lparr>p_next := resuming (s\<lparr>pausers := ?h\<rparr>)\<rparr>) \<and>
        pt_engine s' = pt_engine (s\<lparr>pausers := ?h\<rparr>)"
      by (rule "1.IH" [OF nf link refl fs refl ws]) (use "1.prems" in simp_all)
    from rec obtain s' where "pause_pauser fs' a (s\<lparr>pausers := ?h\<rparr>) = Inr (s', True)" "waits s' (a # xs)"
      "pausers s' = ?h" "pt_engine s' = pt_engine s" by force
    then show ?thesis unfolding unfold by blast
  next
    case False
    then have "pause_pauser fs a s = Inr (s\<lparr>pausers := ?h, resuming := a\<rparr>, True)"
      using nf link by (subst pause_pauser.simps) (auto simp: Let_def split: list.splits bool.splits)
    with push show ?thesis
      by (intro exI [of _ "s\<lparr>pausers := ?h, resuming := a\<rparr>"]) simp
  qed
qed

text \<open>A coroutine \<open>co\<close> awaits the token on the thread \<open>th\<close>, its pauser being at \<open>a\<close>.\<close>

fun await_all :: "(addr \<times> thread_t \<times> coro) list \<Rightarrow> pt_state \<Rightarrow> pt_state outcome" where
  "await_all [] s = Inr s"
| "await_all ((a, th, co) # ws) s =
     bind_outcome (token_await [] th a co s) (\<lambda>(s', suspended). await_all ws s')"

lemma events_of_upd [simp]: "a \<notin> set xs \<Longrightarrow> events_of (h(a := v)) xs = events_of h xs"
  by (auto simp: events_of_def)

lemma token_await_waits:
  assumes "waits s xs" and "a \<notin> set xs" and "a \<noteq> null" and "a AND kUnpausedFlag = 0"
  shows "\<exists>s'. token_await fs th a co s = Inr (s', True) \<and> waits s' (a # xs) \<and>
     events_of (pausers s') (a # xs) = (resume_event co, th) # events_of (pausers s) xs \<and>
     pt_engine s' = pt_engine s"
proof -
  let ?w = "(new_pauser th)\<lparr>p_handle := co\<rparr>"
  let ?s = "s\<lparr>pausers := (pausers s)(a \<mapsto> ?w)\<rparr>"
  have ws: "waits ?s xs" using assms by (simp add: waits_def)
  have p: "pausers ?s a = Some ?w" by simp
  from pause_pauser_waits [OF ws p assms(2-4), of fs] obtain s' where
    s': "pause_pauser fs a ?s = Inr (s', True)" "waits s' (a # xs)"
      "pausers s' = (pausers ?s)(a \<mapsto> ?w\<lparr>p_next := resuming ?s\<rparr>)" "pt_engine s' = pt_engine ?s"
    by blast
  have "token_await fs th a co s = Inr (s', True)"
    using s'(1) waits_paused [OF assms(1)] by (simp add: token_await_def token_await_suspend_def paused_def)
  moreover have "events_of (pausers s') (a # xs) = (resume_event co, th) # events_of (pausers s) xs"
    using assms(2) s'(3) by (simp add: events_of_def new_pauser_def pauser_event_def)
  ultimately show ?thesis using s'(2,4) by simp
qed

lemma await_all_waits:
  assumes "waits s xs" and "distinct (map fst ws @ xs)" and "\<forall>(a, th, co) \<in> set ws. a \<noteq> null \<and> a AND kUnpausedFlag = 0"
  shows "\<exists>s'. await_all ws s = Inr s' \<and> waits s' (rev (map fst ws) @ xs) \<and>
     events_of (pausers s') (rev (map fst ws) @ xs) =
       rev (map (\<lambda>(a, th, co). (resume_event co, th)) ws) @ events_of (pausers s) xs \<and>
     pt_engine s' = pt_engine s"
  using assms
proof (induction ws arbitrary: s xs)
  case (Cons w ws)
  obtain a th co where w: "w = (a, th, co)" by (cases w)
  with Cons.prems have a: "a \<notin> set xs" "a \<noteq> null" "a AND kUnpausedFlag = 0" by auto
  from token_await_waits [OF Cons.prems(1) a, of "[]" th co] obtain t where
    t: "token_await [] th a co s = Inr (t, True)" "waits t (a # xs)"
      "events_of (pausers t) (a # xs) = (resume_event co, th) # events_of (pausers s) xs"
      "pt_engine t = pt_engine s" by blast
  have "distinct (map fst ws @ a # xs)" "\<forall>(a, th, co) \<in> set ws. a \<noteq> null \<and> a AND kUnpausedFlag = 0"
    using Cons.prems w by auto
  from Cons.IH [OF t(2) this] obtain s' where "await_all ws t = Inr s'"
    "waits s' (rev (map fst ws) @ a # xs)"
    "events_of (pausers s') (rev (map fst ws) @ a # xs) =
       rev (map (\<lambda>(a, th, co). (resume_event co, th)) ws) @ events_of (pausers t) (a # xs)"
    "pt_engine s' = pt_engine t" by blast
  with t w show ?case by simp
qed simp

section \<open>Concurrent execution\<close>

text \<open>
  A thread inside an operation: \<open>Pausing a previous\<close> is in the loop of \<open>pause(pauser*)\<close> with
  its local \<open>previous\<close>, \<open>Unpausing p xs\<close> in the loop of \<open>unpause()\<close> at
  \<open>old_pause = p\<close>, \<open>Clearing c\<close> in \<open>pause()\<close> with \<open>current_state = c\<close>.  The node
  lists \<open>xs\<close> and \<open>c_stack\<close>, and the collections \<open>c_suspended\<close> (coroutines that
  \<open>pause(pauser*)\<close> left suspended) and \<open>c_resumed\<close> (calls of \<open>thread_resume\<close>), are
  auxiliary: no step reads them.
\<close>

datatype pt_agent =
    Pausing addr addr
  | Unpausing addr "addr list"
  | Clearing addr

record pt_conc =
  c_resuming :: addr
  c_heap :: "addr \<rightharpoonup> pauser"
  c_agents :: "pt_agent multiset"
  c_stack :: "addr list"
  c_suspended :: "(tagged_event \<times> thread_t) multiset"
  c_resumed :: "(tagged_event \<times> thread_t) multiset"

inductive pt_step :: "pt_conc \<Rightarrow> pt_conc \<Rightarrow> bool" where
  pt_enter: "c_heap s a = None \<Longrightarrow> a \<noteq> null \<Longrightarrow> a AND kUnpausedFlag = 0 \<Longrightarrow>
     pt_step s (s\<lparr>c_heap := (c_heap s)(a \<mapsto> \<lparr>p_thread = th, p_next = null, p_handle = co\<rparr>),
                  c_agents := add_mset (Pausing a (c_resuming s)) (c_agents s)\<rparr>)"
| pt_reject: "c_agents s = add_mset (Pausing a kUnpausedFlag) A \<Longrightarrow>
     pt_step s (s\<lparr>c_heap := (c_heap s)(a := None), c_agents := A\<rparr>)"
| pt_push: "c_agents s = add_mset (Pausing a previous) A \<Longrightarrow> previous \<noteq> kUnpausedFlag \<Longrightarrow>
     c_resuming s = previous \<Longrightarrow> c_heap s a = Some w \<Longrightarrow>
     pt_step s (s\<lparr>c_heap := (c_heap s)(a \<mapsto> w\<lparr>p_next := previous\<rparr>), c_resuming := a, c_agents := A,
                  c_stack := a # c_stack s, c_suspended := add_mset (pauser_event w) (c_suspended s)\<rparr>)"
| pt_retry: "c_agents s = add_mset (Pausing a previous) A \<Longrightarrow> previous \<noteq> kUnpausedFlag \<Longrightarrow>
     c_heap s a = Some w \<Longrightarrow>
     pt_step s (s\<lparr>c_heap := (c_heap s)(a \<mapsto> w\<lparr>p_next := previous\<rparr>),
                  c_agents := add_mset (Pausing a (c_resuming s)) A\<rparr>)"
| pt_unpause: "pt_step s (s\<lparr>c_resuming := kUnpausedFlag, c_stack := [],
       c_agents := (if c_resuming s = kUnpausedFlag then c_agents s
                    else add_mset (Unpausing (c_resuming s) (c_stack s)) (c_agents s))\<rparr>)"
| pt_resume: "c_agents s = add_mset (Unpausing p xs) A \<Longrightarrow> p \<noteq> null \<Longrightarrow> c_heap s p = Some w \<Longrightarrow>
     pt_step s (s\<lparr>c_heap := (c_heap s)(p := None), c_agents := add_mset (Unpausing (p_next w) (tl xs)) A,
                  c_resumed := add_mset (pauser_event w) (c_resumed s)\<rparr>)"
| pt_unpause_end: "c_agents s = add_mset (Unpausing null xs) A \<Longrightarrow> pt_step s (s\<lparr>c_agents := A\<rparr>)"
| pt_clear_load: "c_resuming s = kUnpausedFlag \<Longrightarrow>
     pt_step s (s\<lparr>c_agents := add_mset (Clearing kUnpausedFlag) (c_agents s)\<rparr>)"
| pt_clear: "c_agents s = add_mset (Clearing c) A \<Longrightarrow> c_resuming s = c \<Longrightarrow>
     pt_step s (s\<lparr>c_resuming := null, c_agents := A\<rparr>)"
| pt_clear_retry: "c_agents s = add_mset (Clearing c) A \<Longrightarrow>
     pt_step s (s\<lparr>c_agents := (if c_resuming s = kUnpausedFlag
                                then add_mset (Clearing (c_resuming s)) A else A)\<rparr>)"

definition pt_init :: pt_conc where
  "pt_init = \<lparr>c_resuming = null, c_heap = Map.empty, c_agents = {#}, c_stack = [],
     c_suspended = {#}, c_resumed = {#}\<rparr>"

inductive pt_reachable :: "pt_conc \<Rightarrow> bool" where
  pt_start: "pt_reachable pt_init"
| pt_next: "pt_reachable s \<Longrightarrow> pt_step s t \<Longrightarrow> pt_reachable t"

fun agent_nodes :: "pt_agent \<Rightarrow> addr multiset" where
  "agent_nodes (Pausing a _) = {#a#}"
| "agent_nodes (Unpausing _ xs) = mset xs"
| "agent_nodes (Clearing _) = {#}"

fun agent_held :: "pt_agent \<Rightarrow> addr multiset" where
  "agent_held (Unpausing _ xs) = mset xs"
| "agent_held _ = {#}"

fun agent_ok :: "(addr \<rightharpoonup> pauser) \<Rightarrow> pt_agent \<Rightarrow> bool" where
  "agent_ok h (Unpausing p xs) = chain (pauser_next h) p xs null"
| "agent_ok h (Clearing c) = (c = kUnpausedFlag)"
| "agent_ok h _ = True"

definition nodes_of :: "pt_agent multiset \<Rightarrow> addr multiset" where
  "nodes_of A = \<Sum>\<^sub># (image_mset agent_nodes A)"

definition held_of :: "pt_agent multiset \<Rightarrow> addr multiset" where
  "held_of A = \<Sum>\<^sub># (image_mset agent_held A)"

lemma nodes_of_simps [simp]:
  "nodes_of {#} = {#}" "nodes_of (add_mset ag A) = agent_nodes ag + nodes_of A"
  by (simp_all add: nodes_of_def)

lemma held_of_simps [simp]:
  "held_of {#} = {#}" "held_of (add_mset ag A) = agent_held ag + held_of A"
  by (simp_all add: held_of_def)

lemma held_in_nodes: "a \<in># held_of A \<Longrightarrow> a \<in># nodes_of A"
proof (induction A)
  case (add ag A)
  then show ?case by (cases ag) auto
qed simp

definition heap_event :: "(addr \<rightharpoonup> pauser) \<Rightarrow> addr \<Rightarrow> tagged_event \<times> thread_t" where
  "heap_event h a = pauser_event (the (h a))"

lemma agent_ok_upd: "agent_ok h ag \<Longrightarrow> a \<notin># agent_held ag \<Longrightarrow> agent_ok (h(a := v)) ag"
  by (cases ag) simp_all

lemma agent_held_in: "ag \<in># A \<Longrightarrow> a \<in># agent_held ag \<Longrightarrow> a \<in># held_of A"
  by (auto simp: held_of_def)

lemma agents_ok_upd:
  assumes "\<forall>ag \<in># A. agent_ok h ag" and "a \<notin># held_of A"
  shows "\<forall>ag \<in># A. agent_ok (h(a := v)) ag"
proof
  fix ag
  assume "ag \<in># A"
  with assms agent_held_in [of ag A a] show "agent_ok (h(a := v)) ag"
    by (intro agent_ok_upd) blast+
qed

lemma heap_event_upd [simp]:
  "a \<notin># M \<Longrightarrow> image_mset (heap_event (h(a := v))) M = image_mset (heap_event h) M"
  by (rule image_mset_cong) (auto simp: heap_event_def)

text \<open>The parts of the invariant: the shared list, the threads' lists, ownership, and the account
  of suspended and resumed coroutines.\<close>

definition stack_ok :: "addr \<Rightarrow> (addr \<rightharpoonup> pauser) \<Rightarrow> addr list \<Rightarrow> bool" where
  "stack_ok r h xs \<longleftrightarrow>
     (if r = kUnpausedFlag then xs = [] else chain (pauser_next h) r xs null)"

definition owned :: "(addr \<rightharpoonup> pauser) \<Rightarrow> addr multiset \<Rightarrow> bool" where
  "owned h M \<longleftrightarrow> once M \<and> (\<forall>a \<in># M. h a \<noteq> None \<and> a \<noteq> null \<and> a AND kUnpausedFlag = 0)"

definition pt_inv :: "pt_conc \<Rightarrow> bool" where
  "pt_inv s \<longleftrightarrow>
     stack_ok (c_resuming s) (c_heap s) (c_stack s) \<and>
     (\<forall>ag \<in># c_agents s. agent_ok (c_heap s) ag) \<and>
     owned (c_heap s) (mset (c_stack s) + nodes_of (c_agents s)) \<and>
     c_suspended s =
       c_resumed s + image_mset (heap_event (c_heap s)) (mset (c_stack s) + held_of (c_agents s))"

lemma stack_ok_upd: "stack_ok r h xs \<Longrightarrow> a \<notin> set xs \<Longrightarrow> stack_ok r (h(a := v)) xs"
  by (simp add: stack_ok_def)

lemma owned_upd: "owned h M \<Longrightarrow> a \<notin># M \<Longrightarrow> owned (h(a := v)) M"
  by (auto simp: owned_def)

lemma owned_add:
  "owned h M \<Longrightarrow> a \<notin># M \<Longrightarrow> v \<noteq> None \<Longrightarrow> a \<noteq> null \<Longrightarrow> a AND kUnpausedFlag = 0 \<Longrightarrow>
   owned (h(a := v)) (add_mset a M)"
  by (auto simp: owned_def)

lemma owned_add_mset:
  "owned h (add_mset a M) \<longleftrightarrow>
   a \<notin># M \<and> h a \<noteq> None \<and> a \<noteq> null \<and> a AND kUnpausedFlag = 0 \<and> owned h M"
  by (auto simp: owned_def)

text \<open>A thread may write or free the pauser that it alone owns.\<close>

lemma pt_inv_disown:
  assumes inv: "pt_inv s" and ag: "c_agents s = add_mset (Pausing a p) A"
  shows "pt_inv (s\<lparr>c_heap := (c_heap s)(a := v), c_agents := A\<rparr>)"
    and "a \<notin> set (c_stack s)" and "a \<notin># nodes_of A" and "a \<notin># held_of A"
    and "a \<noteq> null" and "a AND kUnpausedFlag = 0" and "c_heap s a \<noteq> None"
proof -
  have own: "owned (c_heap s) (add_mset a (mset (c_stack s) + nodes_of A))"
    using inv ag by (simp add: pt_inv_def)
  then show a: "a \<notin> set (c_stack s)" "a \<notin># nodes_of A" "a \<noteq> null" "a AND kUnpausedFlag = 0"
    "c_heap s a \<noteq> None" by (auto simp: owned_add_mset)
  then show h: "a \<notin># held_of A" using held_in_nodes by blast
  have "owned ((c_heap s)(a := v)) (mset (c_stack s) + nodes_of A)"
    using own by (intro owned_upd) (auto simp: owned_add_mset)
  moreover have "\<forall>x \<in># A. agent_ok ((c_heap s)(a := v)) x"
    using inv ag h by (intro agents_ok_upd) (simp_all add: pt_inv_def)
  moreover have "stack_ok (c_resuming s) ((c_heap s)(a := v)) (c_stack s)"
    using inv a by (intro stack_ok_upd) (simp_all add: pt_inv_def)
  ultimately show "pt_inv (s\<lparr>c_heap := (c_heap s)(a := v), c_agents := A\<rparr>)"
    using inv ag a h by (simp add: pt_inv_def)
qed

lemma pt_inv_own:
  assumes inv: "pt_inv s" and a: "a \<notin> set (c_stack s)" "a \<notin># nodes_of (c_agents s)"
    and fresh: "a \<noteq> null" "a AND kUnpausedFlag = 0"
  shows "pt_inv (s\<lparr>c_heap := (c_heap s)(a \<mapsto> w), c_agents := add_mset (Pausing a p) (c_agents s)\<rparr>)"
proof -
  have h: "a \<notin># held_of (c_agents s)" using a held_in_nodes by blast
  have "owned ((c_heap s)(a \<mapsto> w)) (add_mset a (mset (c_stack s) + nodes_of (c_agents s)))"
    using inv a fresh by (intro owned_add) (simp_all add: pt_inv_def)
  moreover have "\<forall>x \<in># c_agents s. agent_ok ((c_heap s)(a \<mapsto> w)) x"
    using inv h by (intro agents_ok_upd) (simp_all add: pt_inv_def)
  moreover have "stack_ok (c_resuming s) ((c_heap s)(a \<mapsto> w)) (c_stack s)"
    using inv a by (intro stack_ok_upd) (simp_all add: pt_inv_def)
  ultimately show ?thesis using inv a h by (simp add: pt_inv_def)
qed

lemma pt_inv_push:
  assumes inv: "pt_inv s" and ag: "c_agents s = add_mset (Pausing a p) A" and p: "c_resuming s = p"
    and nf: "p \<noteq> kUnpausedFlag" and w: "c_heap s a = Some w"
  shows "pt_inv (s\<lparr>c_heap := (c_heap s)(a \<mapsto> w\<lparr>p_next := p\<rparr>), c_resuming := a, c_agents := A,
           c_stack := a # c_stack s, c_suspended := add_mset (pauser_event w) (c_suspended s)\<rparr>)"
proof -
  let ?h = "(c_heap s)(a \<mapsto> w\<lparr>p_next := p\<rparr>)"
  note dis = pt_inv_disown [OF inv ag]
  have base: "pt_inv (s\<lparr>c_heap := ?h, c_agents := A\<rparr>)" by (rule dis(1))
  have "stack_ok a ?h (a # c_stack s)"
    using base dis(2,5,6) nf p flag_not_aligned [of a] by (simp add: pt_inv_def stack_ok_def)
  moreover have "owned ?h (add_mset a (mset (c_stack s) + nodes_of A))"
    using base dis(2,3,5,6) by (simp add: pt_inv_def owned_add_mset)
  moreover have "heap_event ?h a = pauser_event w" by (simp add: heap_event_def pauser_event_def)
  ultimately show ?thesis using base by (simp add: pt_inv_def)
qed

lemma pt_inv_unpause:
  assumes inv: "pt_inv s"
  shows "pt_inv (s\<lparr>c_resuming := kUnpausedFlag, c_stack := [],
       c_agents := (if c_resuming s = kUnpausedFlag then c_agents s
                    else add_mset (Unpausing (c_resuming s) (c_stack s)) (c_agents s))\<rparr>)"
  using inv by (cases "c_resuming s = kUnpausedFlag") (auto simp: pt_inv_def stack_ok_def)

lemma pt_inv_resume:
  assumes inv: "pt_inv s" and ag: "c_agents s = add_mset (Unpausing p xs) A" and p: "p \<noteq> null"
    and w: "c_heap s p = Some w"
  shows "pt_inv (s\<lparr>c_heap := (c_heap s)(p := None), c_agents := add_mset (Unpausing (p_next w) (tl xs)) A,
                  c_resumed := add_mset (pauser_event w) (c_resumed s)\<rparr>)"
proof -
  have ch: "chain (pauser_next (c_heap s)) p xs null" using inv ag by (simp add: pt_inv_def)
  with p obtain ys where xs: "xs = p # ys" by (cases xs) auto
  let ?h = "(c_heap s)(p := None)" and ?M = "mset (c_stack s) + (mset ys + nodes_of A)"
  have own: "owned (c_heap s) (add_mset p ?M)" using inv ag xs by (simp add: pt_inv_def)
  then have pn: "p \<notin># ?M" by (simp add: owned_add_mset)
  then have ph: "p \<notin># held_of A" using held_in_nodes by fastforce
  have "owned ?h ?M" using own by (intro owned_upd) (simp_all add: owned_add_mset)
  moreover have "\<forall>x \<in># A. agent_ok ?h x"
    using inv ag ph by (intro agents_ok_upd) (simp_all add: pt_inv_def)
  moreover have "chain (pauser_next ?h) (p_next w) ys null"
    using ch xs w pn by simp
  moreover have "stack_ok (c_resuming s) ?h (c_stack s)"
    using inv pn by (intro stack_ok_upd) (simp_all add: pt_inv_def)
  moreover have "heap_event (c_heap s) p = pauser_event w" using w by (simp add: heap_event_def)
  ultimately show ?thesis using inv ag xs pn ph by (simp add: pt_inv_def)
qed

lemma pt_inv_clear:
  assumes "pt_inv s" and "c_agents s = add_mset (Clearing c) A" and "c_resuming s = c"
  shows "pt_inv (s\<lparr>c_resuming := null, c_agents := A\<rparr>)"
proof -
  have "c = kUnpausedFlag" using assms by (simp add: pt_inv_def)
  moreover from this have "c_stack s = []" using assms by (simp add: pt_inv_def stack_ok_def)
  moreover have "0 \<noteq> kUnpausedFlag" by (simp add: kUnpausedFlag_def)
  ultimately show ?thesis using assms by (simp add: pt_inv_def stack_ok_def)
qed

lemma pt_inv_agents:
  assumes "pt_inv s" and "c_agents s = B + A" and "nodes_of B = nodes_of B'" and "held_of B = held_of B'"
    and "\<forall>ag \<in># B'. agent_ok (c_heap s) ag"
  shows "pt_inv (s\<lparr>c_agents := B' + A\<rparr>)"
proof -
  have "nodes_of (X + Y) = nodes_of X + nodes_of Y" "held_of (X + Y) = held_of X + held_of Y" for X Y
    by (simp_all add: nodes_of_def held_of_def)
  with assms show ?thesis by (auto simp: pt_inv_def)
qed

lemma pt_step_inv: "pt_step s t \<Longrightarrow> pt_inv s \<Longrightarrow> pt_inv t"
proof (induction rule: pt_step.induct)
  case (pt_enter s a th co)
  have "owned (c_heap s) (mset (c_stack s) + nodes_of (c_agents s))" using pt_enter by (simp add: pt_inv_def)
  then have "a \<notin># mset (c_stack s) + nodes_of (c_agents s)"
    using pt_enter(1) unfolding owned_def by blast
  then show ?case using pt_enter by (intro pt_inv_own) simp_all
next
  case (pt_reject s a A)
  then show ?case by (rule pt_inv_disown(1) [rotated])
next
  case (pt_push s a previous A w)
  then show ?case by (intro pt_inv_push)
next
  case (pt_retry s a previous A w)
  note dis = pt_inv_disown [OF pt_retry(4,1)]
  have "a \<notin> set (c_stack (s\<lparr>c_heap := (c_heap s)(a := None), c_agents := A\<rparr>))"
    "a \<notin># nodes_of (c_agents (s\<lparr>c_heap := (c_heap s)(a := None), c_agents := A\<rparr>))" using dis(2,3) by simp_all
  from pt_inv_own [OF dis(1) this dis(5,6)] show ?case by simp
next
  case (pt_unpause s)
  then show ?case by (rule pt_inv_unpause)
next
  case (pt_resume s p xs A w)
  then show ?case by (intro pt_inv_resume)
next
  case (pt_unpause_end s xs A)
  then show ?case using pt_inv_agents [of s "{#Unpausing null xs#}" A "{#}"] by (auto simp: pt_inv_def)
next
  case (pt_clear_load s)
  then show ?case
    using pt_inv_agents [of s "{#}" "c_agents s" "{#Clearing kUnpausedFlag#}"] by simp
next
  case (pt_clear s c A)
  then show ?case by (intro pt_inv_clear)
next
  case (pt_clear_retry s c A)
  then show ?case
    using pt_inv_agents [of s "{#Clearing c#}" A "{#}"] pt_inv_agents [of s "{#Clearing c#}" A "{#Clearing kUnpausedFlag#}"]
    by simp
qed

lemma pt_reachable_inv [zab_inv]: "pt_reachable s \<Longrightarrow> pt_inv s"
proof (induction rule: pt_reachable.induct)
  case pt_start
  show ?case by (simp add: pt_inv_def pt_init_def stack_ok_def owned_def kUnpausedFlag_def)
next
  case (pt_next s t)
  then show ?case by (blast intro: pt_step_inv)
qed


section \<open>Properties\<close>

text \<open>Coroutines that await a paused token stay suspended until \<open>unpause()\<close>, which hands each of
  them to \<open>thread_resume\<close> exactly once, for the thread it awaited on, the last to arrive first; the
  token is then unpaused.  One loop iteration per waiter is enough, and the memory of the waiters is
  read before they are resumed.\<close>

theorem unpause_resumes_waiters:
  assumes "resuming s = 0" and "distinct (map fst ws)"
    and "\<forall>(a, th, co) \<in> set ws. a \<noteq> 0 \<and> a AND kUnpausedFlag = 0 \<and> accepts (pt_engine s) th"
    and "length ws \<le> room (pt_engine s)" and "length ws \<le> n"
  shows "\<exists>s1 e'. await_all ws s = Inr s1 \<and> pt_engine s1 = pt_engine s \<and> paused s1 \<and>
     unpause_token n s1 = Inr (s1\<lparr>resuming := kUnpausedFlag, pt_engine := e'\<rparr>) \<and>
     fold_outcome (\<lambda>(ev, th). thread_resume ev th)
       (rev (map (\<lambda>(a, th, co). (resume_event co, th)) ws)) (pt_engine s) = Inr e' \<and>
     queued e' = queued (pt_engine s) + mset (map (\<lambda>(a, th, co). resume_event co) ws)"
proof -
  have "waits s []" using assms(1) by (simp add: waits_def)
  from await_all_waits [OF this, of ws] assms(2,3) obtain s1 where
    s1: "await_all ws s = Inr s1" "waits s1 (rev (map fst ws))"
      "events_of (pausers s1) (rev (map fst ws)) = rev (map (\<lambda>(a, th, co). (resume_event co, th)) ws)"
      "pt_engine s1 = pt_engine s"
    by (force simp: events_of_def)
  have "\<forall>(ev, th) \<in> set (events_of (pausers s1) (rev (map fst ws))). accepts (pt_engine s1) th"
    using assms(3) unfolding s1(3,4) by auto
  from unpause_token_waits [OF s1(2) _ this, of n] assms(4,5) s1(4) obtain e' where
    e': "unpause_token n s1 = Inr (s1\<lparr>resuming := kUnpausedFlag, pt_engine := e'\<rparr>)"
      "fold_outcome (\<lambda>(ev, th). thread_resume ev th) (events_of (pausers s1) (rev (map fst ws))) (pt_engine s) = Inr e'"
      "queued e' = queued (pt_engine s) + mset (map fst (events_of (pausers s1) (rev (map fst ws))))" by auto
  have "map fst (map (\<lambda>(a, th, co). (resume_event co, th)) ws) = map (\<lambda>(a, th, co). resume_event co) ws"
    by (induction ws) auto
  then have "mset (map fst (rev (map (\<lambda>(a, th, co). (resume_event co, th)) ws))) =
      mset (map (\<lambda>(a, th, co). resume_event co) ws)" by (metis mset_rev rev_map)
  with s1 e' waits_paused [OF s1(2)] show ?thesis by auto
qed

text \<open>C21: However the threads interleave, and even when the memory of resumed waiters is used again
  at once: \<open>unpause()\<close> only dereferences live pausers, no coroutine is resumed more often than it
  was suspended, and once the token is unpaused and no \<open>unpause()\<close> is in its loop, every suspended
  coroutine has been resumed exactly once.\<close>

theorem pause_token_no_lost_waiter:
  assumes "pt_reachable s"
  shows "(\<forall>p xs. Unpausing p xs \<in># c_agents s \<longrightarrow> p \<noteq> 0 \<longrightarrow> c_heap s p \<noteq> None) \<and>
     c_resumed s \<subseteq># c_suspended s \<and>
     (c_resuming s = kUnpausedFlag \<and> (\<forall>p xs. Unpausing p xs \<notin># c_agents s) \<longrightarrow>
        c_resumed s = c_suspended s)"
proof -
  have inv: "pt_inv s" by (rule pt_reachable_inv [OF assms])
  have live: "c_heap s p \<noteq> None" if "Unpausing p xs \<in># c_agents s" "p \<noteq> 0" for p xs
  proof -
    from inv that(1) have "agent_ok (c_heap s) (Unpausing p xs)" unfolding pt_inv_def by blast
    with that(2) show ?thesis by (cases xs) auto
  qed
  have sub: "c_resumed s \<subseteq># c_suspended s" using inv by (simp add: pt_inv_def)
  have "held_of A = {#}" if "\<forall>p xs. Unpausing p xs \<notin># A" for A
    using that
  proof (induction A)
    case (add ag A)
    then show ?case by (cases ag) auto
  qed simp
  with inv have "c_resumed s = c_suspended s"
    if "c_resuming s = kUnpausedFlag" "\<forall>p xs. Unpausing p xs \<notin># c_agents s"
    using that by (auto simp: pt_inv_def stack_ok_def)
  with live sub show ?thesis by blast
qed

text \<open>A new token is paused (its \<open>resuming_\<close> starts at 0), so the first coroutine to await it
  suspends; the documentation of the constructor says that it starts unpaused.\<close>

theorem new_token_is_paused:
  assumes "a \<noteq> 0" and "a AND kUnpausedFlag = 0"
  shows "paused (make_token e) \<and> (\<exists>s'. token_await fs th a co (make_token e) = Inr (s', True) \<and> paused s')"
proof -
  have w: "waits (make_token e) []" by (simp add: waits_def make_token_def)
  from token_await_waits [OF w, of a fs th co] assms waits_paused
  show ?thesis using waits_paused [OF w] by fastforce
qed

text \<open>\<open>pause()\<close> pauses an unpaused token whatever spurious failures its exchange has, and
  leaves a paused one, with its waiters, as it is.\<close>

lemma pause_pauses:
  "(resuming s = kUnpausedFlag \<longrightarrow> pause (replicate k True) s = s\<lparr>resuming := 0\<rparr>) \<and>
   (resuming s \<noteq> kUnpausedFlag \<longrightarrow> pause fs s = s)"
proof -
  have "resuming s = kUnpausedFlag \<Longrightarrow> pause_retry (replicate k True) s = s\<lparr>resuming := 0\<rparr>"
    by (induction k) simp_all
  then show ?thesis by (simp add: pause_def)
qed

section \<open>Witnesses\<close>

lemma demo_pausers:
  "\<forall>(a, th, co) \<in> set [(16, Thread_t 0, 32), (24, Thread_t 1, 40)].
     a \<noteq> 0 \<and> a AND kUnpausedFlag = 0 \<and> accepts (pt_engine (make_token demo_engine)) th"
  by (simp add: make_token_def kUnpausedFlag_def accepts_def demo_engine_def)

theorem unpause_resumes_waiters_witness:
  "\<exists>s1 e'. await_all [(16, Thread_t 0, 32), (24, Thread_t 1, 40)] (make_token demo_engine) = Inr s1 \<and>
     unpause_token 2 s1 = Inr (s1\<lparr>resuming := kUnpausedFlag, pt_engine := e'\<rparr>) \<and>
     queued e' = {#resume_event 32, resume_event 40, Coroutine_alt 8#}"
proof -
  let ?t = "make_token demo_engine" and ?ws = "[(16, Thread_t 0, 32), (24, Thread_t 1, 40)]"
  have q: "queued demo_engine = {#Coroutine_alt 8#}" by (simp add: queued_def demo_engine_def demo_io_defs)
  have "2 \<le> room (pt_engine ?t)" "resuming ?t = 0" using demo_engine_room by (simp_all add: make_token_def)
  with unpause_resumes_waiters [of ?t ?ws 2] demo_pausers obtain s1 e' where
    "await_all ?ws ?t = Inr s1" "unpause_token 2 s1 = Inr (s1\<lparr>resuming := kUnpausedFlag, pt_engine := e'\<rparr>)"
    "queued e' = queued (pt_engine ?t) + mset (map (\<lambda>(a, th, co). resume_event co) ?ws)"
    by auto
  with q show ?thesis by (intro exI [of _ s1] exI [of _ e']) (simp add: make_token_def)
qed

lemma demo_pt_run:
  "\<exists>s. pt_reachable s \<and> c_resuming s = kUnpausedFlag \<and> c_agents s = {#} \<and>
     c_suspended s = {#(resume_event 32, Thread_t 0)#}"
proof -
  define w where "w = \<lparr>p_thread = Thread_t 0, p_next = 0, p_handle = 32\<rparr>"
  define s1 where "s1 = pt_init\<lparr>c_heap := (c_heap pt_init)(16 \<mapsto> w), c_agents := {#Pausing 16 0#}\<rparr>"
  define s2 where "s2 = s1\<lparr>c_heap := (c_heap s1)(16 \<mapsto> w), c_resuming := 16, c_agents := {#},
      c_stack := [16], c_suspended := {#pauser_event w#}\<rparr>"
  define s3 where "s3 = s2\<lparr>c_resuming := kUnpausedFlag, c_stack := [], c_agents := {#Unpausing 16 [16]#}\<rparr>"
  define s4 where "s4 = s3\<lparr>c_heap := (c_heap s3)(16 := None), c_agents := {#Unpausing 0 []#},
      c_resumed := {#pauser_event w#}\<rparr>"
  have k: "(16::addr) \<noteq> kUnpausedFlag" "0 \<noteq> kUnpausedFlag" "16 AND kUnpausedFlag = 0"
    by (simp_all add: kUnpausedFlag_def)
  have "pt_step pt_init s1"
    using pt_enter [of pt_init 16 "Thread_t 0" 32] k by (simp add: s1_def w_def pt_init_def)
  moreover have "pt_step s1 s2"
    using pt_push [of s1 16 0 "{#}" w] k by (simp add: s1_def s2_def w_def pt_init_def)
  moreover have "pt_step s2 s3"
    using pt_unpause [of s2] k by (simp add: s1_def s2_def s3_def pt_init_def)
  moreover have "pt_step s3 s4"
    using pt_resume [of s3 16 "[16]" "{#}" w] by (simp add: s1_def s2_def s3_def s4_def w_def pt_init_def)
  moreover have "pt_step s4 (s4\<lparr>c_agents := {#}\<rparr>)"
    by (rule pt_unpause_end [of _ "[]"]) (simp add: s4_def)
  ultimately have "pt_reachable (s4\<lparr>c_agents := {#}\<rparr>)" by (meson pt_start pt_next)
  then show ?thesis
    by (intro exI [of _ "s4\<lparr>c_agents := {#}\<rparr>"])
      (simp add: s4_def s3_def s2_def s1_def w_def pauser_event_def)
qed

theorem pause_token_no_lost_waiter_witness:
  "\<exists>s. pt_reachable s \<and> c_suspended s = {#(resume_event 32, Thread_t 0)#} \<and>
     c_resumed s = {#(resume_event 32, Thread_t 0)#}"
proof -
  from demo_pt_run obtain s where s: "pt_reachable s" "c_resuming s = kUnpausedFlag" "c_agents s = {#}"
    "c_suspended s = {#(resume_event 32, Thread_t 0)#}" by blast
  from pause_token_no_lost_waiter [OF s(1)] s show ?thesis by auto
qed

theorem new_token_is_paused_witness:
  "\<exists>s'. token_await [True] (Thread_t 0) 16 32 (make_token demo_engine) = Inr (s', True) \<and> paused s'"
  using new_token_is_paused [of 16 demo_engine "[True]" "Thread_t 0" 32] by (simp add: kUnpausedFlag_def)

end
