(* ===== verification/Async_Latch.thy ===== *)
theory Async_Latch
  imports Pause_Token
begin

text \<open>
  \<open>includes/zab/async_latch.hpp\<close>: a counter and a pause token that is unpaused by the call of
  \<open>count_down\<close> that takes the counter from positive to zero or below.  The counter is a
  \<open>ptrdiff_t\<close>, a signed 64 bit word whose atomic subtraction wraps.  The counter is only changed
  by \<open>fetch_sub\<close>, so what concurrent callers do to it is what some sequence of calls does.
\<close>

section \<open>Operations\<close>

record async_latch =
  count :: "64 word"
  complete :: pt_state

definition make_latch :: "engine \<Rightarrow> 64 word \<Rightarrow> async_latch" where
  "make_latch e amount = \<lparr>count = amount, complete = make_token e\<rparr>"

text \<open>Whether a call that read \<open>number\<close> unpauses.\<close>

definition opens :: "64 word \<Rightarrow> 64 word \<Rightarrow> bool" where
  "opens number amount \<longleftrightarrow> 0 < sint number \<and> sint number \<le> sint amount"

definition count_down :: "nat \<Rightarrow> 64 word \<Rightarrow> async_latch \<Rightarrow> async_latch outcome" where
  "count_down n amount l =
     (let number = count l; l' = l\<lparr>count := number - amount\<rparr>
      in if opens number amount
         then bind_outcome (unpause_token n (complete l')) (\<lambda>t. Inr (l'\<lparr>complete := t\<rparr>))
         else Inr l')"

definition try_wait :: "async_latch \<Rightarrow> bool" where
  "try_wait l \<longleftrightarrow> 0 < sint (count l)"

definition latch_wait :: "bool list \<Rightarrow> thread_t \<Rightarrow> addr \<Rightarrow> coro \<Rightarrow> async_latch \<Rightarrow> (async_latch \<times> bool) outcome" where
  "latch_wait fs cur a co l =
     bind_outcome (token_await fs cur a co (complete l)) (\<lambda>(t, b). Inr (l\<lparr>complete := t\<rparr>, b))"

definition arrive_and_wait ::
  "nat \<Rightarrow> 64 word \<Rightarrow> bool list \<Rightarrow> thread_t \<Rightarrow> addr \<Rightarrow> coro \<Rightarrow> async_latch \<Rightarrow> (async_latch \<times> bool) outcome" where
  "arrive_and_wait n amount fs cur a co l =
     bind_outcome (count_down n amount l) (latch_wait fs cur a co)"

section \<open>The counter\<close>

text \<open>The calls, by position, that unpause in a sequence of calls.\<close>

fun openers :: "64 word \<Rightarrow> 64 word list \<Rightarrow> bool list" where
  "openers c [] = []"
| "openers c (m # ms) = opens c m # openers (c - m) ms"

lemma sint_sub_exact:
  fixes c m :: "64 word"
  assumes "- (2 ^ 63) \<le> sint c - sint m" and "sint c - sint m < 2 ^ 63"
  shows "sint (c - m) = sint c - sint m"
  using assms by (simp add: sint_word_ariths signed_take_bit_int_eq_self)

lemma openers_below:
  assumes "sint c \<le> 0" and "\<forall>m \<in> set ms. 0 \<le> sint m" and "sum_list (map sint ms) \<le> 2 ^ 63 + sint c"
  shows "openers c ms = replicate (length ms) False"
  using assms
proof (induction ms arbitrary: c)
  case (Cons m ms)
  have nn: "0 \<le> sum_list (map sint ms)" using Cons.prems(2) by (intro sum_list_nonneg) auto
  have "sint (c - m) = sint c - sint m"
    using Cons.prems nn sint_lt [of c] sint_ge [of c] by (intro sint_sub_exact) auto
  then show ?case using Cons.prems Cons.IH [of "c - m"] nn by (auto simp: opens_def)
qed simp

lemma count_openers:
  assumes "0 < sint c" and "\<forall>m \<in> set ms. 0 \<le> sint m" and "sum_list (map sint ms) \<le> 2 ^ 63"
  shows "length (filter id (openers c ms)) = (if sint c \<le> sum_list (map sint ms) then 1 else 0)"
  using assms
proof (induction ms arbitrary: c)
  case (Cons m ms)
  have nn: "0 \<le> sum_list (map sint ms)" using Cons.prems(2) by (intro sum_list_nonneg) auto
  have eq: "sint (c - m) = sint c - sint m"
    using Cons.prems nn sint_lt [of c] sint_ge [of c] by (intro sint_sub_exact) auto
  show ?case
  proof (cases "sint c \<le> sint m")
    case True
    then have "openers (c - m) ms = replicate (length ms) False"
      using Cons.prems nn eq by (intro openers_below) auto
    then show ?thesis using True Cons.prems nn by (simp add: opens_def)
  next
    case False
    then show ?thesis using Cons.prems Cons.IH [of "c - m"] nn eq by (auto simp: opens_def)
  qed
qed simp

lemma sint_sub_sum:
  assumes "sint c \<le> 0" and "\<forall>m \<in> set ms. 0 \<le> sint m" and "sum_list (map sint ms) \<le> 2 ^ 63 + sint c"
  shows "sint (c - sum_list ms :: 64 word) \<le> 0"
  using assms
proof (induction ms arbitrary: c)
  case (Cons m ms)
  have nn: "0 \<le> sum_list (map sint ms)" using Cons.prems(2) by (intro sum_list_nonneg) auto
  have "sint (c - m) = sint c - sint m"
    using Cons.prems nn sint_lt [of c] sint_ge [of c] by (intro sint_sub_exact) auto
  then show ?case using Cons.prems Cons.IH [of "c - m"] nn by (auto simp: diff_diff_eq)
qed simp

section \<open>Arriving and waiting\<close>

text \<open>Coroutines that arrive one after the other; per coroutine, whether it stays suspended.\<close>

fun arrive_all :: "nat \<Rightarrow> (addr \<times> thread_t \<times> coro) list \<Rightarrow> async_latch \<Rightarrow> (async_latch \<times> bool list) outcome" where
  "arrive_all n [] l = Inr (l, [])"
| "arrive_all n ((a, th, co) # ws) l =
     bind_outcome (arrive_and_wait n 1 [] th a co l) (\<lambda>(l', b).
       bind_outcome (arrive_all n ws l') (\<lambda>(l'', bs). Inr (l'', b # bs)))"

lemma arrive_all_append:
  "arrive_all n us l = Inr (l', bs) \<Longrightarrow> arrive_all n ws l' = Inr (l'', cs) \<Longrightarrow>
   arrive_all n (us @ ws) l = Inr (l'', bs @ cs)"
  by (induction us arbitrary: l bs) force+

lemma arrive_early:
  assumes "waits (complete l) xs" and "1 < sint (count l)"
    and "a \<notin> set xs" and "a \<noteq> 0" and "a AND kUnpausedFlag = 0"
  shows "\<exists>l'. arrive_and_wait n 1 fs th a co l = Inr (l', True) \<and> waits (complete l') (a # xs) \<and>
     sint (count l') = sint (count l) - 1 \<and>
     events_of (pausers (complete l')) (a # xs) = (resume_event co, th) # events_of (pausers (complete l)) xs \<and>
     pt_engine (complete l') = pt_engine (complete l)"
proof -
  have "sint (count l - 1) = sint (count l) - 1"
    using assms(2) sint_lt [of "count l"] sint_sub_exact [of "count l" 1] by simp
  with token_await_waits [OF assms(1,3-5), of fs th co] assms(2) show ?thesis
    by (fastforce simp: arrive_and_wait_def count_down_def latch_wait_def opens_def Let_def)
qed

lemma arrive_all_early:
  assumes "waits (complete l) xs" and "distinct (map fst ws @ xs)" and "int (length ws) < sint (count l)"
    and "\<forall>(a, th, co) \<in> set ws. a \<noteq> 0 \<and> a AND kUnpausedFlag = 0"
  shows "\<exists>l'. arrive_all n ws l = Inr (l', replicate (length ws) True) \<and>
     waits (complete l') (rev (map fst ws) @ xs) \<and> sint (count l') = sint (count l) - int (length ws) \<and>
     events_of (pausers (complete l')) (rev (map fst ws) @ xs) =
       rev (map (\<lambda>(a, th, co). (resume_event co, th)) ws) @ events_of (pausers (complete l)) xs \<and>
     pt_engine (complete l') = pt_engine (complete l)"
  using assms
proof (induction ws arbitrary: l xs)
  case (Cons w ws)
  obtain a th co where w: "w = (a, th, co)" by (cases w)
  with Cons.prems have a: "1 < sint (count l)" "a \<notin> set xs" "a \<noteq> 0" "a AND kUnpausedFlag = 0" by auto
  from arrive_early [OF Cons.prems(1) a, of n "[]" th co] obtain t where
    t: "arrive_and_wait n 1 [] th a co l = Inr (t, True)" "waits (complete t) (a # xs)"
      "sint (count t) = sint (count l) - 1"
      "events_of (pausers (complete t)) (a # xs) = (resume_event co, th) # events_of (pausers (complete l)) xs"
      "pt_engine (complete t) = pt_engine (complete l)" by blast
  have "distinct (map fst ws @ a # xs)" "int (length ws) < sint (count t)"
    "\<forall>(a, th, co) \<in> set ws. a \<noteq> 0 \<and> a AND kUnpausedFlag = 0" using Cons.prems w t by auto
  from Cons.IH [OF t(2) this] obtain l' where "arrive_all n ws t = Inr (l', replicate (length ws) True)"
    "waits (complete l') (rev (map fst ws) @ a # xs)" "sint (count l') = sint (count t) - int (length ws)"
    "events_of (pausers (complete l')) (rev (map fst ws) @ a # xs) =
       rev (map (\<lambda>(a, th, co). (resume_event co, th)) ws) @ events_of (pausers (complete t)) (a # xs)"
    "pt_engine (complete l') = pt_engine (complete t)" by blast
  with t w show ?case by simp
qed simp

section \<open>Properties\<close>

text \<open>In every sequence of \<open>count_down\<close> calls, in whatever order the threads make them, exactly
  one call unpauses the waiters when the amounts reach the initial count, and none before that, as long
  as the total stays within a signed 64 bit integer.\<close>

theorem latch_opens_exactly_once:
  assumes "0 < sint c" and "\<forall>m \<in> set ms. 0 \<le> sint m" and "sum_list (map sint ms) \<le> 2 ^ 63"
  shows "length (filter id (openers c ms)) = (if sint c \<le> sum_list (map sint ms) then 1 else 0)"
  using assms by (rule count_openers)

text \<open>When as many coroutines arrive at a new latch as it counts, all but the last suspend, the last
  one goes on at once, the latch is open, and each of the others is queued for resumption exactly
  once.\<close>

theorem latch_releases_all:
  assumes "distinct (a # map fst ws)" and "sint amount = int (Suc (length ws))" and "length ws \<le> n"
    and "\<forall>(a, th, co) \<in> set ((a, th, co) # ws). a \<noteq> 0 \<and> a AND kUnpausedFlag = 0 \<and> accepts e th"
    and "length ws \<le> room e"
  shows "\<exists>l. arrive_all n (ws @ [(a, th, co)]) (make_latch e amount) =
       Inr (l, replicate (length ws) True @ [False]) \<and>
     \<not> paused (complete l) \<and> sint (count l) = 0 \<and> 
     queued (pt_engine (complete l)) = queued e + mset (map (\<lambda>(a, th, co). resume_event co) ws)"
proof -
  let ?l = "make_latch e amount" and ?ev = "\<lambda>(a, th, co). (resume_event co, th)"
  have w0: "waits (complete ?l) []" by (simp add: waits_def make_latch_def make_token_def)
  have cnt: "int (length ws) < sint (count ?l)" using assms(2) by (simp add: make_latch_def)
  have "distinct (map fst ws @ [])" "\<forall>(a, th, co) \<in> set ws. a \<noteq> 0 \<and> a AND kUnpausedFlag = 0"
    using assms(1,4) by auto
  from arrive_all_early [OF w0 this(1) cnt this(2), of n] obtain l1 where
    l1: "arrive_all n ws ?l = Inr (l1, replicate (length ws) True)" "waits (complete l1) (rev (map fst ws))"
      "sint (count l1) = sint amount - int (length ws)"
      "events_of (pausers (complete l1)) (rev (map fst ws)) = rev (map ?ev ws)"
      "pt_engine (complete l1) = e" by (auto simp: make_latch_def make_token_def events_of_def)
  have "\<forall>(ev, th) \<in> set (events_of (pausers (complete l1)) (rev (map fst ws))). accepts (pt_engine (complete l1)) th"
    using assms(4) unfolding l1(4,5) by auto
  from unpause_token_waits [OF l1(2) _ this, of n] assms(3,5) l1(5) obtain e' where
    e': "unpause_token n (complete l1) = Inr ((complete l1)\<lparr>resuming := kUnpausedFlag, pt_engine := e'\<rparr>)"
      "queued e' = queued e + mset (map fst (rev (map ?ev ws)))" by (auto simp: l1(4))
  have "map fst (map ?ev ws) = map (\<lambda>(a, th, co). resume_event co) ws" by (induction ws) auto
  then have q: "mset (map fst (rev (map ?ev ws))) = mset (map (\<lambda>(a, th, co). resume_event co) ws)"
    by (simp only: rev_map [symmetric] mset_rev)
  have c1: "sint (count l1) = 1" using l1(3) assms(2) by simp
  then have c0: "count l1 = 1" by (intro signed_word_eqI) simp
  define t where "t = (complete l1)\<lparr>resuming := kUnpausedFlag, pt_engine := e'\<rparr>"
  define t' where "t' = t\<lparr>pausers := (pausers t)(a \<mapsto> new_pauser th)\<rparr>"
  have np: "\<not> paused t'" by (simp add: t'_def t_def paused_def kUnpausedFlag_def)
  have "count_down n 1 l1 = Inr (l1\<lparr>count := 0, complete := t\<rparr>)"
    using e'(1) c0 by (simp add: count_down_def opens_def t_def)
  moreover have "token_await [] th a co t = Inr (t', False)"
    using np by (simp add: token_await_def t'_def)
  ultimately have "arrive_all n [(a, th, co)] l1 = Inr (l1\<lparr>count := 0, complete := t'\<rparr>, [False])"
    by (simp add: arrive_and_wait_def latch_wait_def)
  from arrive_all_append [OF l1(1) this] np e'(2) q show ?thesis
    by (intro exI [of _ "l1\<lparr>count := 0, complete := t'\<rparr>"]) (simp add: t'_def t_def)
qed

text \<open>A latch whose count is not positive never opens: no \<open>count_down\<close> unpauses it, and a coroutine
  that waits on it stays suspended.\<close>

theorem latch_nonpositive_never_opens:
  assumes "sint c \<le> 0" and "\<forall>m \<in> set ms. 0 \<le> sint m" and "sum_list (map sint ms) \<le> 2 ^ 63 + sint c"
  shows "True \<notin> set (openers c ms)"
  using openers_below [OF assms] by simp

text \<open>\<open>try_wait\<close> returns true exactly as long as no call has opened the latch, the opposite of
  what the operation of that name does in \<open>std::latch\<close>.\<close>

theorem try_wait_true_until_open:
  assumes "0 < sint c" and "\<forall>m \<in> set ms. 0 \<le> sint m" and "sum_list (map sint ms) \<le> 2 ^ 63"
  shows "try_wait \<lparr>count = c - sum_list ms, complete = t\<rparr> \<longleftrightarrow> True \<notin> set (openers c ms)"
  using assms
proof (induction ms arbitrary: c)
  case (Cons m ms)
  have nn: "0 \<le> sum_list (map sint ms)" using Cons.prems(2) by (intro sum_list_nonneg) auto
  have eq: "sint (c - m) = sint c - sint m"
    using Cons.prems nn sint_lt [of c] sint_ge [of c] by (intro sint_sub_exact) auto
  show ?case
  proof (cases "sint c \<le> sint m")
    case True
    have "sint (c - m - sum_list ms) \<le> 0"
      using True eq Cons.prems nn by (intro sint_sub_sum) auto
    then show ?thesis using True Cons.prems by (simp add: try_wait_def opens_def diff_diff_eq)
  next
    case False
    then show ?thesis using Cons.IH [of "c - m"] Cons.prems nn eq
      by (auto simp: opens_def try_wait_def diff_diff_eq)
  qed
qed (simp add: try_wait_def)

section \<open>Witnesses\<close>

theorem latch_opens_exactly_once_witness:
  "length (filter id (openers 3 [1, 2, 1])) = 1"
  using latch_opens_exactly_once [of 3 "[1, 2, 1]"] by simp

theorem latch_releases_all_witness:
  "\<exists>l. arrive_all 1 [(16, Thread_t 0, 32), (24, Thread_t 1, 40)] (make_latch demo_engine 2) =
       Inr (l, [True, False]) \<and>
     queued (pt_engine (complete l)) = {#resume_event 32, Coroutine_alt 8#}"
proof -
  have q: "queued demo_engine = {#Coroutine_alt 8#}" by (simp add: queued_def demo_engine_def demo_io_defs)
  have "1 \<le> room demo_engine" using demo_engine_room by simp
  with latch_releases_all [of 24 "[(16, Thread_t 0, 32)]" 2 1 "Thread_t 1" 40 demo_engine] q show ?thesis
    by (auto simp: kUnpausedFlag_def accepts_def demo_engine_def)
qed

theorem latch_nonpositive_never_opens_witness: "True \<notin> set (openers 0 [1, 2])"
  by (rule latch_nonpositive_never_opens) simp_all

theorem try_wait_true_until_open_witness:
  "try_wait \<lparr>count = 3 - 2, complete = make_token demo_engine\<rparr>"
  using try_wait_true_until_open [of 3 "[1, 1]" "make_token demo_engine"] by (simp add: opens_def)

end
