(* ===== verification/Combinators.thy ===== *)
theory Combinators
  imports Generic_Awaitable Async_Latch
begin

text \<open>
  \<open>includes/zab/wait_for.hpp\<close>, \<open>includes/zab/first_of.hpp\<close>: waiting for all of several awaitables
  (through an atomic counter, or for a vector of futures through an \<open>async_latch\<close>), and for the first
  of them (through an atomic pointer to the paused coroutine).
\<close>

section \<open>Waiting for all: the counter\<close>

record wait_pack =
  wf_counter :: u64
  wf_event :: tagged_event

definition make_wait_pack :: "nat \<Rightarrow> tagged_event \<Rightarrow> wait_pack" where
  "make_wait_pack n ev = \<lparr>wf_counter = of_nat n + 1, wf_event = ev\<rparr>"

text \<open>The callback that each awaitable executes when it is done, and the decrement at the end of
  \<open>await_suspend\<close>, whose reply is the awaiter itself or \<open>noop_coroutine\<close> (which does nothing, so the
  awaiter stays suspended).\<close>

definition promise_done :: "wait_pack \<Rightarrow> (wait_pack \<times> action list) outcome" where
  "promise_done w =
     (let old = wf_counter w; w' = w\<lparr>wf_counter := old - 1\<rparr>
      in if old = 1 then bind_outcome (execute_event (wf_event w')) (\<lambda>acts. Inr (w', acts)) else Inr (w', []))"

definition start_done :: "wait_pack \<Rightarrow> wait_pack \<times> suspend_reply" where
  "start_done w =
     (let old = wf_counter w; w' = w\<lparr>wf_counter := old - 1\<rparr>
      in (w', if old = 1 then Suspend_event (wf_event w) else Suspend_void))"

text \<open>\<open>inline_start_promise\<close> starts the awaitables in order; each is a functor on a common state, awaited
  inline with the callback's event.\<close>

fun inline_start_promise :: "'s await_functor list \<Rightarrow> tagged_event \<Rightarrow> 's \<Rightarrow> ('s \<times> action list) outcome" where
  "inline_start_promise [] ev s = Inr (s, [])"
| "inline_start_promise (f # fs) ev s =
     bind_outcome (inline_co_await f ev s) (\<lambda>(s1, acts).
     bind_outcome (inline_start_promise fs ev s1) (\<lambda>(s2, acts'). Inr (s2, acts @ acts')))"

text \<open>Who decrements: the callbacks of the awaitables and, once, the starter.\<close>

datatype wf_op = Promise_done | Start_done

fun wf_step :: "wf_op \<Rightarrow> wait_pack \<Rightarrow> (wait_pack \<times> action list) outcome" where
  "wf_step Promise_done w = promise_done w"
| "wf_step Start_done w =
     (let (w', r) = start_done w
      in bind_outcome (handle_suspend r) (\<lambda>(nx, acts). Inr (w', acts @
           (case nx of Transfer_to h \<Rightarrow> [Resume h] | _ \<Rightarrow> []))))"

fun wf_run :: "wf_op list \<Rightarrow> wait_pack \<Rightarrow> (wait_pack \<times> action list) outcome" where
  "wf_run [] w = Inr (w, [])"
| "wf_run (x # xs) w =
     bind_outcome (wf_step x w) (\<lambda>(w1, acts).
     bind_outcome (wf_run xs w1) (\<lambda>(w2, acts'). Inr (w2, acts @ acts')))"

lemma wf_step_early: "wf_counter w \<noteq> 1 \<Longrightarrow> wf_step x w = Inr (w\<lparr>wf_counter := wf_counter w - 1\<rparr>, [])"
  by (cases x) (simp_all add: promise_done_def start_done_def Let_def)

lemma wf_step_last:
  "wf_counter w = 1 \<Longrightarrow> wf_event w = Coroutine_alt co \<Longrightarrow> co \<noteq> 0 \<Longrightarrow>
   wf_step x w = Inr (w\<lparr>wf_counter := 0\<rparr>, [Resume co])"
  by (cases x) (simp_all add: promise_done_def start_done_def Let_def event_defs)

lemma wf_run_early:
  assumes "length xs < unat (wf_counter w)"
  shows "wf_run xs w = Inr (w\<lparr>wf_counter := wf_counter w - of_nat (length xs)\<rparr>, [])"
  using assms
proof (induction xs arbitrary: w)
  case (Cons x xs)
  let ?w = "w\<lparr>wf_counter := wf_counter w - 1\<rparr>"
  have ne: "wf_counter w \<noteq> 1" "wf_counter w \<noteq> 0" using Cons.prems by auto
  then have "unat (wf_counter w - 1) = unat (wf_counter w) - 1" by (simp add: unat_minus_one)
  then have "wf_run xs ?w = Inr (?w\<lparr>wf_counter := wf_counter ?w - of_nat (length xs)\<rparr>, [])"
    using Cons.prems by (intro Cons.IH) simp
  with wf_step_early [OF ne(1)] show ?case by (simp add: algebra_simps)
qed simp

lemma wf_run_append:
  "wf_run us w = Inr (w1, acts) \<Longrightarrow> wf_run vs w1 = Inr (w2, acts') \<Longrightarrow>
   wf_run (us @ vs) w = Inr (w2, acts @ acts')"
  by (induction us arbitrary: w acts) force+

section \<open>Waiting for all: the latch\<close>

text \<open>\<open>wait_for(engine, vector)\<close>: one \<open>count_down\<close> per future that completes; the awaiting coroutine
  arrives after it has started them.\<close>

fun futures_done :: "nat \<Rightarrow> nat \<Rightarrow> async_latch \<Rightarrow> async_latch outcome" where
  "futures_done n 0 l = Inr l"
| "futures_done n (Suc k) l = bind_outcome (count_down n 1 l) (futures_done n k)"

lemma futures_done_early:
  assumes "int k < sint (count l)"
  shows "futures_done n k l = Inr (l\<lparr>count := count l - of_nat k\<rparr>) \<and> sint (count l - of_nat k) = sint (count l) - int k"
  using assms
proof (induction k arbitrary: l)
  case (Suc k)
  let ?l = "l\<lparr>count := count l - 1\<rparr>"
  have s: "sint (count ?l) = sint (count l) - 1"
    using Suc.prems sint_lt [of "count l"] sint_sub_exact [of "count l" 1] by simp
  have "count_down n 1 l = Inr ?l" using Suc.prems by (simp add: count_down_def opens_def)
  with Suc.IH [of ?l] s Suc.prems show ?case by (simp add: algebra_simps)
qed simp

lemma futures_done_Suc: "futures_done n (Suc k) l = bind_outcome (futures_done n k l) (count_down n 1)"
proof (induction k arbitrary: l)
  case 0
  show ?case by (cases "count_down n 1 l") simp_all
next
  case (Suc k)
  have "futures_done n (Suc k) = (\<lambda>l. bind_outcome (futures_done n k l) (count_down n 1))"
    by (rule ext) (rule Suc)
  then have "futures_done n (Suc (Suc k)) l = bind_outcome (count_down n 1 l) (\<lambda>l. bind_outcome (futures_done n k l) (count_down n 1))"
    by (simp only: futures_done.simps(2) [of n "Suc k"])
  then show ?case by (simp only: bind_outcome_assoc [symmetric] futures_done.simps(2) [of n k])
qed

lemma sint_num_plus:
  assumes "int k + 1 < 2 ^ 63"
  shows "sint (of_nat k + 1 :: 64 word) = int k + 1"
proof -
  have "sint (of_nat k :: 64 word) = int k"
    using assms by (simp add: signed_of_nat signed_take_bit_int_eq_self)
  then show ?thesis using assms by (simp add: sint_word_ariths signed_take_bit_int_eq_self)
qed

definition vector_wait ::
  "nat \<Rightarrow> nat \<Rightarrow> nat \<Rightarrow> thread_t \<Rightarrow> addr \<Rightarrow> coro \<Rightarrow> engine \<Rightarrow> (async_latch \<times> bool) outcome" where
  "vector_wait n num early th a co e =
     bind_outcome (futures_done n early (make_latch e (of_nat num + 1)))
       (\<lambda>l. arrive_and_wait n 1 [] th a co l)"

section \<open>Waiting for the first\<close>

record 'v first_of_state =
  fo_handle :: "pause_pack option"
  fo_result :: "'v option"
  fo_engine :: engine

definition make_first_of :: "pause_pack \<Rightarrow> thread_t \<Rightarrow> engine \<Rightarrow> 'v first_of_state" where
  "make_first_of pp cur e = \<lparr>fo_handle = Some (pp\<lparr>pack_thread := cur\<rparr>), fo_result = None, fo_engine = e\<rparr>"

text \<open>One of the awaitables is done, on the thread \<open>cur\<close>, with the value \<open>v\<close>.\<close>

definition candidate_done :: "thread_t \<times> 'v \<Rightarrow> 'v first_of_state \<Rightarrow> 'v first_of_state outcome" where
  "candidate_done c s =
     (case c of (cur, v) \<Rightarrow>
       let s' = s\<lparr>fo_handle := None\<rparr>
       in case fo_handle s of
            None \<Rightarrow> Inr s'
          | Some pp \<Rightarrow>
              bind_outcome (unpause_ordered cur pp now (fo_engine s'))
                (\<lambda>e. Inr (s'\<lparr>fo_result := Some v, fo_engine := e\<rparr>)))"

text \<open>The start: the pack expansion calls the wrapper of every awaitable, in the order of the arguments, on the
  thread \<open>cur\<close> that called \<open>first_of\<close>.  Each is given as the value with which it is done before its wrapper
  suspends, or \<open>None\<close>.\<close>

fun init_first :: "thread_t \<Rightarrow> 'v option list \<Rightarrow> 'v first_of_state \<Rightarrow> 'v first_of_state outcome" where
  "init_first cur [] s = Inr s"
| "init_first cur (None # fs) s = init_first cur fs s"
| "init_first cur (Some v # fs) s = bind_outcome (candidate_done (cur, v) s) (init_first cur fs)"

text \<open>The whole of it, where the awaitables that suspended are done in the order \<open>later\<close>.\<close>

definition first_of :: "pause_pack \<Rightarrow> thread_t \<Rightarrow> 'v option list \<Rightarrow> (thread_t \<times> 'v) list \<Rightarrow> engine \<Rightarrow>
    'v first_of_state outcome" where
  "first_of pp cur fs later e =
     bind_outcome (init_first cur fs (make_first_of pp cur e)) (fold_outcome candidate_done later)"

text \<open>The completions in the order in which they happen.\<close>

definition completions :: "thread_t \<Rightarrow> 'v option list \<Rightarrow> (thread_t \<times> 'v) list \<Rightarrow> (thread_t \<times> 'v) list" where
  "completions cur fs later = map (Pair cur) (List.map_filter id fs) @ later"

lemma init_first_fold: "init_first cur fs s = fold_outcome candidate_done (map (Pair cur) (List.map_filter id fs)) s"
  by (induction cur fs s rule: init_first.induct) (simp_all add: map_filter_simps cong: bind_outcome_cong)

lemma first_of_fold: "first_of pp cur fs later e = fold_outcome candidate_done (completions cur fs later) (make_first_of pp cur e)"
  by (simp add: first_of_def completions_def init_first_fold fold_outcome_append)

lemma candidates_after_first:
  "fo_handle s = None \<Longrightarrow> fold_outcome candidate_done cs s = Inr s"
proof (induction cs arbitrary: s)
  case (Cons c cs)
  then have "candidate_done c s = Inr s" by (cases c) (simp add: candidate_done_def)
  with Cons show ?case by simp
qed simp

section \<open>Properties\<close>

text \<open>However the completions of the \<open>n\<close> awaitables and the end of the start interleave, the coroutine
  that waits for all of them is resumed exactly once, by whichever comes last, and not before.\<close>

theorem wait_for_resumes_once:
  assumes "length ops = n" and "n < 2 ^ 64 - 1" and "co \<noteq> 0"
  shows "wf_run ops (make_wait_pack n (Coroutine_alt co)) = Inr (\<lparr>wf_counter = 1, wf_event = Coroutine_alt co\<rparr>, []) \<and>
     wf_run (ops @ [x]) (make_wait_pack n (Coroutine_alt co)) =
       Inr (\<lparr>wf_counter = 0, wf_event = Coroutine_alt co\<rparr>, [Resume co])"
proof -
  let ?w = "make_wait_pack n (Coroutine_alt co)"
  have "unat (of_nat n :: u64) = n" using assms(2) by (simp add: unsigned_of_nat take_bit_nat_eq_self)
  then have c: "unat (wf_counter ?w) = n + 1"
    using assms(2) unat_add_no_wrap [of "of_nat n :: u64" 1] by (simp add: make_wait_pack_def)
  then have e: "wf_run ops ?w = Inr (\<lparr>wf_counter = 1, wf_event = Coroutine_alt co\<rparr>, [])"
    using wf_run_early [of ops ?w] assms(1) by (simp add: make_wait_pack_def)
  have "wf_run [x] \<lparr>wf_counter = 1, wf_event = Coroutine_alt co\<rparr> =
      Inr (\<lparr>wf_counter = 0, wf_event = Coroutine_alt co\<rparr>, [Resume co])"
    using wf_step_last [of "\<lparr>wf_counter = 1, wf_event = Coroutine_alt co\<rparr>" co x] assms(3) by simp
  with e wf_run_append [OF e] show ?thesis by simp
qed

text \<open>\<open>wait_for\<close> on a vector of futures: if all have completed when the coroutine arrives it goes on
  at once; otherwise it suspends, the completions up to the last but one leave it suspended and queue
  nothing, and the last one queues it for resumption exactly once.\<close>

theorem vector_wait_resumes_once:
  assumes "early \<le> num" and "int num + 1 < 2 ^ 63" and "a \<noteq> 0" and "a AND kUnpausedFlag = 0"
    and "accepts e th" and "0 < room e" and "0 < n"
  shows "if early = num then \<exists>l. vector_wait n num early th a co e = Inr (l, False)
     else \<exists>l l1 l2. vector_wait n num early th a co e = Inr (l, True) \<and>
       futures_done n (num - early - 1) l = Inr l1 \<and> paused (complete l1) \<and> pt_engine (complete l1) = e \<and>
       futures_done n (num - early) l = Inr l2 \<and> \<not> paused (complete l2) \<and>
       queued (pt_engine (complete l2)) = add_mset (resume_event co) (queued e)"
proof -
  let ?l = "make_latch e (of_nat num + 1)"
  have c: "sint (count ?l) = int num + 1"
    using assms(2) by (simp add: make_latch_def sint_num_plus)
  have "int early < sint (count ?l)" using assms(1) c by simp
  from futures_done_early [OF this, of n] c obtain l0 where l0: "futures_done n early ?l = Inr l0"
    "l0 = ?l\<lparr>count := count ?l - of_nat early\<rparr>" "sint (count l0) = int num + 1 - int early" by simp
  have w0: "waits (complete l0) []" by (simp add: l0(2) make_latch_def make_token_def waits_def)
  show ?thesis
  proof (cases "early = num")
    case True
    then have "count l0 = 1" using l0(3) by (intro signed_word_eqI) simp
    moreover have "unpause_token n (complete l0) = Inr ((complete l0)\<lparr>resuming := kUnpausedFlag\<rparr>)"
      using unpause_token_waits [OF w0, of n] by (auto simp: events_of_def)
    ultimately show ?thesis using True l0(1)
      by (simp add: vector_wait_def arrive_and_wait_def count_down_def opens_def latch_wait_def token_await_def
          paused_def kUnpausedFlag_def Let_def)
  next
    case False
    then have "1 < sint (count l0)" using l0(3) assms(1) by simp
    from arrive_early [OF w0 this _ assms(3,4), of n "[]" th co] obtain l where
      l: "arrive_and_wait n 1 [] th a co l0 = Inr (l, True)" "waits (complete l) [a]"
        "sint (count l) = sint (count l0) - 1"
        "events_of (pausers (complete l)) [a] = [(resume_event co, th)]"
        "pt_engine (complete l) = pt_engine (complete l0)" by (auto simp: events_of_def)
    have e: "pt_engine (complete l) = e" using l(5) l0(2) by (simp add: make_latch_def make_token_def)
    let ?k = "num - early - 1"
    have cl: "sint (count l) = int ?k + 1" using l(3) l0(3) False assms(1) by simp
    from futures_done_early [of ?k l n] cl obtain l1 where
      l1: "futures_done n ?k l = Inr l1" "l1 = l\<lparr>count := count l - of_nat ?k\<rparr>" "sint (count l1) = 1" by simp
    have w1: "waits (complete l1) [a]" "pt_engine (complete l1) = e" "events_of (pausers (complete l1)) [a] = [(resume_event co, th)]"
      using l(2,4) e l1(2) by simp_all
    have "\<forall>(ev, th) \<in> set (events_of (pausers (complete l1)) [a]). accepts (pt_engine (complete l1)) th"
      using w1 assms(5) by simp
    from unpause_token_waits [OF w1(1) _ this, of n] assms(6,7) w1 obtain e' where
      e': "unpause_token n (complete l1) = Inr ((complete l1)\<lparr>resuming := kUnpausedFlag, pt_engine := e'\<rparr>)"
        "queued e' = queued e + {#resume_event co#}" by auto
    have "count l1 = 1" using l1(3) by (intro signed_word_eqI) simp
    then have "count_down n 1 l1 = Inr (l1\<lparr>count := 0, complete := (complete l1)\<lparr>resuming := kUnpausedFlag, pt_engine := e'\<rparr>\<rparr>)"
      using e'(1) by (simp add: count_down_def opens_def)
    moreover have "Suc ?k = num - early" using False assms(1) by simp
    then have "futures_done n (num - early) l = bind_outcome (futures_done n ?k l) (count_down n 1)"
      by (metis futures_done_Suc)
    ultimately have "futures_done n (num - early) l =
        Inr (l1\<lparr>count := 0, complete := (complete l1)\<lparr>resuming := kUnpausedFlag, pt_engine := e'\<rparr>\<rparr>)"
      using l1(1) by simp
    moreover have "\<not> paused ((complete l1)\<lparr>resuming := kUnpausedFlag, pt_engine := e'\<rparr>)"
      by (simp add: paused_def kUnpausedFlag_def)
    ultimately show ?thesis using False l0(1) l(1) l1(1) waits_paused [OF w1(1)] w1(2) e'(2)
      by (simp add: vector_wait_def)
  qed
qed

text \<open>C28: Of the awaitables that \<open>first_of\<close> races, the first to complete determines the result and
  resumes the coroutine, once and on the thread that called it; the others change nothing.  Among those that
  are done before they suspend, it is the first of the arguments.\<close>

theorem first_of_takes_first:
  assumes "accepts e caller" and "0 < room e" and "completions caller fs later = (cur, v) # cs"
  shows "\<exists>e'. first_of pp caller fs later e = Inr \<lparr>fo_handle = None, fo_result = Some v, fo_engine = e'\<rparr> \<and>
     thread_resume (Event_alt (get_event (pack_handle pp))) (resolve_thread caller e) e = Inr e' \<and>
     queued e' = add_mset (Event_alt (get_event (pack_handle pp))) (queued e)"
proof -
  let ?ev = "Event_alt (get_event (pack_handle pp))"
  have acc: "accepts e (resolve_thread caller e)"
    using resolve_thread_in_range [OF assms(1,2)] assms(1) by (simp add: accepts_def)
  from eng.resume_total [OF acc assms(2), of ?ev] obtain e' where
    e': "thread_resume ?ev (resolve_thread caller e) e = Inr e'" "queued e' = add_mset ?ev (queued e)" by blast
  have "candidate_done (cur, v) (make_first_of pp caller e) =
      Inr \<lparr>fo_handle = None, fo_result = Some v, fo_engine = e'\<rparr>"
    using e'(1) by (simp add: candidate_done_def make_first_of_def unpause_ordered_def delayed_resume_def now_def)
  with candidates_after_first [of "\<lparr>fo_handle = None, fo_result = Some v, fo_engine = e'\<rparr>" cs] e' show ?thesis
    by (simp add: first_of_fold assms(3))
qed

section \<open>Witnesses\<close>

theorem wait_for_resumes_once_witness:
  "wf_run [Promise_done, Start_done, Promise_done] (make_wait_pack 2 (Coroutine_alt 16)) =
     Inr (\<lparr>wf_counter = 0, wf_event = Coroutine_alt 16\<rparr>, [Resume 16])"
  using wait_for_resumes_once [of "[Promise_done, Start_done]" 2 16 Promise_done] by simp

theorem vector_wait_resumes_once_witness:
  "\<exists>l l2. vector_wait 1 3 1 (Thread_t 0) 16 32 demo_engine = Inr (l, True) \<and> futures_done 1 2 l = Inr l2 \<and>
     queued (pt_engine (complete l2)) = {#resume_event 32, Coroutine_alt 8#}"
proof -
  have q: "queued demo_engine = {#Coroutine_alt 8#}" by (simp add: queued_def demo_engine_def demo_io_defs)
  have "0 < room demo_engine" using demo_engine_room by simp
  from vector_wait_resumes_once [of 1 3 16 demo_engine "Thread_t 0" 1 32] demo_engine_accepts(1) this q
  show ?thesis by (auto simp: kUnpausedFlag_def)
qed

theorem first_of_takes_first_witness:
  "\<exists>e'. first_of \<lparr>pack_thread = thread_any, pack_data = 0, pack_handle = Coroutine_alt 16\<rparr> (Thread_t 0)
       [None, Some ''b'', Some ''c''] [(Thread_t 1, ''a'')] demo_engine =
     Inr \<lparr>fo_handle = None, fo_result = Some ''b'', fo_engine = e'\<rparr>"
proof -
  have "0 < room demo_engine" using demo_engine_room by simp
  have "completions (Thread_t 0) [None, Some ''b'', Some ''c''] [(Thread_t 1, ''a'')] =
      [(Thread_t 0, ''b''), (Thread_t 0, ''c''), (Thread_t 1, ''a'')]" by (simp add: completions_def map_filter_simps)
  from first_of_takes_first [OF demo_engine_accepts(1) \<open>0 < room demo_engine\<close> this] show ?thesis by metis
qed

end
