(* ===== verification/Futures.thy ===== *)
theory Futures
  imports Generic_Awaitable
begin

text \<open>
  The coroutine types: \<open>simple_promise.hpp\<close> and \<open>simple_future.hpp\<close> (one result),
  \<open>reusable_promise.hpp\<close>, \<open>reusable_future.hpp\<close> and \<open>for_each.hpp\<close> (a sequence of results),
  \<open>defer_block_promise.hpp\<close> and \<open>visitor_promise.hpp\<close> (blocks run at the end).  Coroutine frames live
  in a map from their addresses to their promises; what the body of a coroutine does between two
  suspensions is given by its script.
\<close>

section \<open>Simple futures\<close>

record 'v promise =
  p_underlying :: tagged_event
  p_complete :: bool
  p_data :: "'v option"

type_synonym 'v frames = "addr \<rightharpoonup> 'v promise"

definition new_promise :: "'v promise" where
  "new_promise = \<lparr>p_underlying = Coroutine_alt null, p_complete = False, p_data = None\<rparr>"

definition with_frame :: "addr \<Rightarrow> 'v frames \<Rightarrow> ('v promise \<Rightarrow> 'v promise) \<Rightarrow> 'v frames outcome" where
  "with_frame h fr f = (case fr h of None \<Rightarrow> Inl Bad_address | Some p \<Rightarrow> Inr (fr(h \<mapsto> f p)))"

definition set_underlying :: "tagged_event \<Rightarrow> 'v promise \<Rightarrow> 'v promise" where
  "set_underlying ev p = p\<lparr>p_underlying := ev\<rparr>"

text \<open>\<open>return_value\<close>, for a value and for \<open>nullopt\<close> (which leaves the data empty).\<close>

definition return_value :: "'v option \<Rightarrow> 'v promise \<Rightarrow> 'v promise" where
  "return_value v p = (case v of None \<Rightarrow> p | Some x \<Rightarrow> p\<lparr>p_data := Some x\<rparr>)"

text \<open>\<open>co_await\<close> on a future: the awaiter is stored and the coroutine of the future runs.\<close>

definition future_await :: "addr \<Rightarrow> coro \<Rightarrow> 'v frames \<Rightarrow> ('v frames \<times> awaiter_next) outcome" where
  "future_await h co fr =
     (if h = null then Inl Assertion_failed
      else bind_outcome (with_frame h fr (set_underlying (Coroutine_alt co))) (\<lambda>fr'. Inr (fr', Transfer_to h)))"

definition future_inline_await :: "addr \<Rightarrow> tagged_event \<Rightarrow> 'v frames \<Rightarrow> ('v frames \<times> action list) outcome" where
  "future_inline_await h ev fr =
     bind_outcome (with_frame h fr (set_underlying ev)) (\<lambda>fr'. Inr (fr', [Resume h]))"

text \<open>\<open>final_suspension\<close>: the awaiter is taken out, the promise marked complete, the awaiter
  continued.  Without an awaiter the handle transferred to is null.\<close>

definition final_suspend :: "addr \<Rightarrow> 'v frames \<Rightarrow> ('v frames \<times> action list) outcome" where
  "final_suspend h fr =
     (case fr h of
        None \<Rightarrow> Inl Bad_address
      | Some p \<Rightarrow>
          let fr' = fr(h \<mapsto> p\<lparr>p_underlying := Coroutine_alt null, p_complete := True\<rparr>)
          in case p_underlying p of
               Coroutine_alt co \<Rightarrow> if co = null then Inl Null_dereference else Inr (fr', [Resume co])
             | Event_alt e \<Rightarrow> bind_outcome (execute_event (Event_alt e)) (\<lambda>acts. Inr (fr', acts)))"

text \<open>\<open>await_resume\<close> and \<open>get_inline_result\<close>: a reference to the data, from which the awaiter
  moves.\<close>

definition take_result :: "addr \<Rightarrow> 'v frames \<Rightarrow> 'v option outcome" where
  "take_result h fr = (case fr h of None \<Rightarrow> Inl Bad_address | Some p \<Rightarrow> Inr (p_data p))"

text \<open>The destructor, the move constructor and the move assignment of \<open>simple_future\<close>; a future is the
  address of its frame.\<close>

definition destroy_future :: "addr \<Rightarrow> 'v frames \<Rightarrow> 'v frames outcome" where
  "destroy_future h fr =
     (if h = null then Inr fr
      else case fr h of
        None \<Rightarrow> Inl Bad_address
      | Some p \<Rightarrow> Inr (if p_complete p then fr(h := None) else fr))"

definition move_future :: "addr \<Rightarrow> addr \<times> addr" where
  "move_future other = (other, null)"

definition assign_future :: "addr \<Rightarrow> addr \<Rightarrow> 'v frames \<Rightarrow> ('v frames \<times> addr \<times> addr) outcome" where
  "assign_future h other fr =
     (if h = null then Inr (fr, other, null)
      else case fr h of None \<Rightarrow> Inl Bad_address | Some _ \<Rightarrow> Inr (fr(h := None), other, null))"

text \<open>The promises with other results: \<open>promise_always_resolves<T>\<close>, whose \<open>data()\<close> dereferences the optional
  value, and \<open>bool\<close>, which has a plain member.  (\<open>void\<close> has no data at all.)\<close>

definition always_data :: "'v promise \<Rightarrow> 'v outcome" where
  "always_data p = (case p_data p of None \<Rightarrow> Inl Null_dereference | Some v \<Rightarrow> Inr v)"

definition always_return_value :: "'v \<Rightarrow> 'v promise \<Rightarrow> 'v promise" where
  "always_return_value v p = p\<lparr>p_data := Some v\<rparr>"

record bool_promise =
  bp_return_value :: bool

definition new_bool_promise :: bool_promise where
  "new_bool_promise = \<lparr>bp_return_value = False\<rparr>"

definition bool_return_value :: "bool \<Rightarrow> bool_promise \<Rightarrow> bool_promise" where
  "bool_return_value b p = p\<lparr>bp_return_value := b\<rparr>"

definition bool_data :: "bool_promise \<Rightarrow> bool" where
  "bool_data p = bp_return_value p"

section \<open>Sequences of results\<close>

datatype gen_state = kEmpty | kItem | kComplete

text \<open>What the body of a generator does next: \<open>co_yield\<close> or \<open>co_return\<close> of an optional value.\<close>

datatype 'v gen_step = Yield_value "'v option" | Return_value "'v option"

record 'v reusable =
  g_state :: gen_state
  g_data :: "'v option"
  g_underlying :: coro
  g_script :: "'v gen_step list"

definition prepare :: "'v reusable \<Rightarrow> 'v reusable" where
  "prepare g = g\<lparr>g_state := (if g_state g = kItem then kEmpty else g_state g), g_data := None\<rparr>"

definition value_ready :: "'v reusable \<Rightarrow> bool" where
  "value_ready g \<longleftrightarrow> g_state g \<noteq> kEmpty"

definition gen_complete :: "'v reusable \<Rightarrow> bool" where
  "gen_complete g \<longleftrightarrow> g_state g = kComplete"

text \<open>\<open>yield_value\<close>, \<open>return_value\<close>: without a value the data stays as \<open>prepare\<close> left it.\<close>

definition store_item :: "gen_state \<Rightarrow> 'v option \<Rightarrow> 'v reusable \<Rightarrow> 'v reusable" where
  "store_item st v g = g\<lparr>g_state := st, g_data := (case v of None \<Rightarrow> g_data g | Some x \<Rightarrow> Some x)\<rparr>"

text \<open>\<open>final_suspend\<close>, also used by \<open>yield_value\<close>: continue with the awaiter, if any.\<close>

definition gen_suspend :: "'v reusable \<Rightarrow> 'v reusable \<times> action list" where
  "gen_suspend g = (g\<lparr>g_underlying := null\<rparr>, if g_underlying g = null then [] else [Resume (g_underlying g)])"

definition gen_resume :: "'v reusable \<Rightarrow> ('v reusable \<times> action list) outcome" where
  "gen_resume g =
     (case g_script g of
        [] \<Rightarrow> Inl Bad_address
      | Yield_value v # xs \<Rightarrow> Inr (gen_suspend (store_item kItem v (g\<lparr>g_script := xs\<rparr>)))
      | Return_value v # xs \<Rightarrow> Inr (gen_suspend (store_item kComplete v (g\<lparr>g_script := xs\<rparr>))))"

text \<open>\<open>co_await\<close> on a \<open>reusable_future\<close> by \<open>co\<close>: the result that the awaiter gets.\<close>

definition gen_await :: "coro \<Rightarrow> 'v reusable \<Rightarrow> ('v option \<times> 'v reusable) outcome" where
  "gen_await co g =
     (let g1 = prepare g
      in if value_ready g1 then Inr (g_data g1, g1)
         else bind_outcome (gen_resume (g1\<lparr>g_underlying := co\<rparr>)) (\<lambda>(g2, acts). Inr (g_data g2, g2)))"

datatype for_ctl = kBreak | kContinue

text \<open>\<open>for_each\<close> with a functor that returns a \<open>for_ctl\<close> (one without a value always goes on).\<close>

fun for_each :: "nat \<Rightarrow> coro \<Rightarrow> ('v option \<Rightarrow> 's \<Rightarrow> 's \<times> for_ctl) \<Rightarrow> 'v reusable \<Rightarrow> 's \<Rightarrow> ('v reusable \<times> 's) outcome" where
  "for_each 0 co f g s = Inl Out_of_fuel"
| "for_each (Suc n) co f g s =
     (if gen_complete g then Inr (g, s)
      else bind_outcome (gen_await co g) (\<lambda>(v, g').
        let (s', ctl) = f v s
        in if ctl = kBreak then Inr (g', s') else for_each n co f g' s'))"

section \<open>Deferred blocks\<close>

text \<open>\<open>defer_\<close> is an optional function; a block deferred later runs before it.\<close>

record 's defer_promise =
  defer_fn :: "('s \<Rightarrow> 's) option"

definition yield_defer :: "('s \<Rightarrow> 's) \<Rightarrow> 's defer_promise \<Rightarrow> 's defer_promise" where
  "yield_defer block p =
     (case defer_fn p of
        Some d \<Rightarrow> p\<lparr>defer_fn := Some (\<lambda>s. d (block s))\<rparr>
      | None \<Rightarrow> p\<lparr>defer_fn := Some block\<rparr>)"

definition yield_purge :: "'s defer_promise \<Rightarrow> 's defer_promise" where
  "yield_purge p = p\<lparr>defer_fn := None\<rparr>"

definition defer_final_suspend :: "'s defer_promise \<Rightarrow> 's \<Rightarrow> 's defer_promise \<times> 's" where
  "defer_final_suspend p s =
     (case defer_fn p of None \<Rightarrow> (p, s) | Some d \<Rightarrow> (p\<lparr>defer_fn := None\<rparr>, d s))"

definition destroy_defer_promise :: "'s defer_promise \<Rightarrow> 's \<Rightarrow> 's" where
  "destroy_defer_promise p s = (case defer_fn p of None \<Rightarrow> s | Some d \<Rightarrow> d s)"

text \<open>\<open>visitor_promise\<close>: the blocks are applied to the result when it is read; for \<open>void\<close> they run
  before the awaiter is continued.\<close>

record 'v visitor_promise =
  v_promise :: "'v promise"
  v_defer :: "'v option defer_promise"

definition visitor_data :: "'v visitor_promise \<Rightarrow> 'v option" where
  "visitor_data p =
     (case defer_fn (v_defer p) of None \<Rightarrow> p_data (v_promise p) | Some d \<Rightarrow> d (p_data (v_promise p)))"

definition visitor_yield :: "('v option \<Rightarrow> 'v option) \<Rightarrow> 'v visitor_promise \<Rightarrow> 'v visitor_promise" where
  "visitor_yield block p = p\<lparr>v_defer := yield_defer block (v_defer p)\<rparr>"

definition visitor_purge :: "'v visitor_promise \<Rightarrow> 'v visitor_promise" where
  "visitor_purge p = p\<lparr>v_defer := yield_purge (v_defer p)\<rparr>"

definition visitor_void_yield :: "('s \<Rightarrow> 's) \<Rightarrow> 's defer_promise \<Rightarrow> 's defer_promise" where
  "visitor_void_yield block d =
     d\<lparr>defer_fn := Some (case defer_fn d of None \<Rightarrow> block | Some f \<Rightarrow> (\<lambda>s. f (block s)))\<rparr>"

definition visitor_void_purge :: "'s defer_promise \<Rightarrow> 's defer_promise" where
  "visitor_void_purge d = d\<lparr>defer_fn := None\<rparr>"

definition visitor_void_final_suspend ::
  "'s defer_promise \<Rightarrow> addr \<Rightarrow> 'v frames \<Rightarrow> 's \<Rightarrow> ('s \<times> 'v frames \<times> action list) outcome" where
  "visitor_void_final_suspend d h fr s =
     bind_outcome (final_suspend h fr) (\<lambda>(fr', acts). Inr (destroy_defer_promise d s, fr', acts))"

section \<open>Properties\<close>

text \<open>C30: Awaiting a future runs its coroutine; when that returns \<open>v\<close>, the awaiter is resumed exactly
  once and reads \<open>v\<close>, and destroying the future, or one it was moved into, frees the frame.\<close>

theorem future_roundtrip:
  assumes "fr h = Some new_promise" and "h \<noteq> 0" and "co \<noteq> 0"
  shows "\<exists>fr1 fr2. future_await h co fr = Inr (fr1, Transfer_to h) \<and>
     bind_outcome (with_frame h fr1 (return_value v)) (final_suspend h) = Inr (fr2, [Resume co]) \<and>
     take_result h fr2 = Inr v \<and>
     destroy_future h fr2 = Inr (fr2(h := None)) \<and>
     bind_outcome (destroy_future (snd (move_future h)) fr2) (destroy_future (fst (move_future h))) = Inr (fr2(h := None))"
  using assms
  by (cases v) (simp_all add: future_await_def with_frame_def set_underlying_def return_value_def new_promise_def
      final_suspend_def take_result_def destroy_future_def move_future_def)

text \<open>A coroutine that finishes before anything awaits it transfers control to a null handle.\<close>

theorem unawaited_future_faults:
  assumes "fr h = Some new_promise"
  shows "bind_outcome (with_frame h fr (return_value v)) (final_suspend h) = Inl Null_dereference"
  using assms by (cases v) (simp_all add: with_frame_def return_value_def new_promise_def final_suspend_def)

text \<open>The values that the functor of \<open>for_each\<close> sees.\<close>

fun visit :: "('v option \<Rightarrow> 's \<Rightarrow> 's \<times> for_ctl) \<Rightarrow> 'v option list \<Rightarrow> 's \<Rightarrow> 's" where
  "visit f [] s = s"
| "visit f (v # vs) s = (let (s', ctl) = f v s in if ctl = kBreak then s' else visit f vs s')"

lemma gen_await_step:
  assumes "g_state g \<noteq> kComplete" and "g_script g = x # xs"
  shows "\<exists>g'. gen_await co g = Inr ((case x of Yield_value v \<Rightarrow> v | Return_value v \<Rightarrow> v), g') \<and> g_script g' = xs \<and>
     g_state g' = (case x of Yield_value _ \<Rightarrow> kItem | Return_value _ \<Rightarrow> kComplete)"
proof -
  have "\<not> value_ready (prepare g)" using assms(1) by (cases "g_state g") (simp_all add: value_ready_def prepare_def)
  moreover have "g_script (prepare g) = x # xs" "g_data (prepare g) = None" using assms(2) by (simp_all add: prepare_def)
  ultimately show ?thesis
    by (cases x) (simp_all add: gen_await_def gen_resume_def gen_suspend_def store_item_def Let_def split: option.splits)
qed


text \<open>After its end a generator is ready at once and gives no value, however often it is awaited.\<close>

theorem completed_generator_is_empty:
  assumes "g_state g = kComplete"
  shows "gen_await co g = Inr (None, g\<lparr>g_data := None\<rparr>)"
  using assms by (simp add: gen_await_def prepare_def value_ready_def)

lemma fold_yield_defer:
  fixes q :: "'s defer_promise"
  shows "fold yield_defer bs q = q\<lparr>defer_fn := (if bs = [] then defer_fn q
      else Some (\<lambda>s. (case defer_fn q of None \<Rightarrow> id | Some d \<Rightarrow> d) (fold (\<lambda>b s. b s) (rev bs) s)))\<rparr>"
proof (induction bs arbitrary: q)
  case (Cons b bs)
  have y: "yield_defer b q = q\<lparr>defer_fn := Some (\<lambda>s. (case defer_fn q of None \<Rightarrow> id | Some d \<Rightarrow> d) (b s))\<rparr>"
    by (cases "defer_fn q") (simp_all add: yield_defer_def)
  show ?case using Cons [of "yield_defer b q"] by (cases "bs = []") (simp_all add: y)
qed simp

text \<open>Deferred blocks run exactly once when the coroutine ends, the last deferred first, and the
  destructor of the promise does not run them again; a purge drops those before it.\<close>

theorem deferred_blocks_lifo:
  "defer_final_suspend (fold yield_defer blocks (yield_purge p)) s =
     (yield_purge p, fold (\<lambda>b s. b s) (rev blocks) s) \<and>
   destroy_defer_promise (fst (defer_final_suspend (fold yield_defer blocks (yield_purge p)) s)) s' = s'"
  using fold_yield_defer [of blocks "yield_purge p"]
  by (simp add: yield_purge_def defer_final_suspend_def destroy_defer_promise_def)

text \<open>The result of a visitor promise is the returned value after the blocks, the last deferred first; a purge
  drops those before it.\<close>

theorem visitor_applies_blocks:
  "visitor_data (fold visitor_yield blocks (visitor_purge p)) = fold (\<lambda>b v. b v) (rev blocks) (p_data (v_promise p))"
proof -
  have "fold visitor_yield bs q = q\<lparr>v_defer := fold yield_defer bs (v_defer q)\<rparr>" for bs and q :: "'a visitor_promise"
    by (induction bs arbitrary: q) (simp_all add: visitor_yield_def)
  then show ?thesis using fold_yield_defer [of blocks "yield_purge (v_defer p)"]
    by (simp add: visitor_data_def visitor_purge_def yield_purge_def)
qed

text \<open>A future that always resolves resumes its awaiter once, which then reads the returned value; if its
  coroutine ends without a value, the awaiter is resumed and reading the result is a fault.\<close>

theorem guaranteed_future_roundtrip:
  assumes "fr h = Some new_promise" and "h \<noteq> 0" and "co \<noteq> 0"
  shows "\<exists>fr1 fr2 p. future_await h co fr = Inr (fr1, Transfer_to h) \<and>
     bind_outcome (with_frame h fr1 (always_return_value v)) (final_suspend h) = Inr (fr2, [Resume co]) \<and>
     fr2 h = Some p \<and> always_data p = Inr v"
    and "\<exists>fr1 fr2 p. future_await h co fr = Inr (fr1, Transfer_to h) \<and> final_suspend h fr1 = Inr (fr2, [Resume co]) \<and>
     fr2 h = Some p \<and> always_data p = Inl Null_dereference"
  using assms by (simp_all add: future_await_def with_frame_def set_underlying_def always_return_value_def
    new_promise_def final_suspend_def always_data_def)

section \<open>Witnesses\<close>

theorem future_roundtrip_witness:
  "\<exists>fr1 fr2. future_await 16 32 [16 \<mapsto> new_promise] = Inr (fr1, Transfer_to 16) \<and>
     bind_outcome (with_frame 16 fr1 (return_value (Some (5 :: int)))) (final_suspend 16) = Inr (fr2, [Resume 32]) \<and>
     take_result 16 fr2 = Inr (Some 5)"
  using future_roundtrip [of "[16 \<mapsto> new_promise]" 16 32 "Some (5 :: int)"] by auto

theorem unawaited_future_faults_witness:
  "bind_outcome (with_frame 16 [16 \<mapsto> new_promise] (return_value (Some (5 :: int)))) (final_suspend 16) =
     Inl Null_dereference"
  by (rule unawaited_future_faults) simp


theorem completed_generator_is_empty_witness:
  "gen_await 32 \<lparr>g_state = kComplete, g_data = Some (1 :: int), g_underlying = 0, g_script = []\<rparr> =
     Inr (None, \<lparr>g_state = kComplete, g_data = None, g_underlying = 0, g_script = []\<rparr>)"
  using completed_generator_is_empty
    [of "\<lparr>g_state = kComplete, g_data = Some (1 :: int), g_underlying = 0, g_script = []\<rparr>" 32] by simp

end
