(* ===== verification/Network_Operation.thy ===== *)
theory Network_Operation
  imports Event_Loop
begin

text \<open>
  \<open>includes/zab/network_operation.hpp\<close> and \<open>src/network_operation.cpp\<close>: the class that owns a socket
  descriptor and the token of a pending operation, and gives both up in background coroutines.

  The socket calls that are made directly are recorded in order (\<open>syscalls\<close>); the io_uring requests go
  through the event loop of the calling thread.  A background coroutine is given what its awaitable needs
  from outside (\<open>background\<close>): whether a submission entry is free, the address of the \<open>io_event\<close> in its
  frame and its handle.  Without a free entry the request fails at once and the coroutine goes on inside
  the call.
\<close>

section \<open>State\<close>

datatype syscall =
    Sys_getsockopt_error int
  | Sys_close int
  | Sys_shutdown_wr int
  | Sys_socket int int int
  | Sys_reuse_address int
  | Sys_bind int int u16
  | Sys_listen int int

record net_world =
  nio :: io_state
  syscalls :: "syscall list"

record network_operation =
  net_engine :: addr
  cancel_token :: addr
  sd :: int
  last_err :: int

type_synonym background = "bool \<times> addr \<times> coro"

definition kNoDescriptor :: int where
  "kNoDescriptor = - 1"

definition sys :: "syscall \<Rightarrow> net_world \<Rightarrow> net_world" where
  "sys c w = w\<lparr>syscalls := syscalls w @ [c]\<rparr>"

definition on_io :: "(io_state \<Rightarrow> io_state outcome) \<Rightarrow> net_world \<Rightarrow> net_world outcome" where
  "on_io f w = bind_outcome (f (nio w)) (\<lambda>io. Inr (w\<lparr>nio := io\<rparr>))"

definition make_network_operation :: "addr \<Rightarrow> int \<Rightarrow> network_operation" where
  "make_network_operation eng fd = \<lparr>net_engine = eng, cancel_token = null, sd = fd, last_err = 0\<rparr>"

definition empty_network_operation :: network_operation where
  "empty_network_operation = make_network_operation null kNoDescriptor"

section \<open>Accessors\<close>

definition register_engine :: "addr \<Rightarrow> network_operation \<Rightarrow> network_operation" where
  "register_engine eng op = op\<lparr>net_engine := eng\<rparr>"

definition clear_descriptor :: "network_operation \<Rightarrow> network_operation" where
  "clear_descriptor op = op\<lparr>sd := kNoDescriptor\<rparr>"

definition last_error :: "network_operation \<Rightarrow> int \<times> network_operation" where
  "last_error op = (last_err op, op\<lparr>last_err := 0\<rparr>)"

definition peek_error :: "network_operation \<Rightarrow> int" where
  "peek_error op = last_err op"

definition clear_error :: "network_operation \<Rightarrow> network_operation" where
  "clear_error op = op\<lparr>last_err := 0\<rparr>"

definition set_error :: "int \<Rightarrow> network_operation \<Rightarrow> network_operation" where
  "set_error e op = op\<lparr>last_err := e\<rparr>"

definition set_cancel :: "addr \<Rightarrow> network_operation \<Rightarrow> network_operation" where
  "set_cancel tok op = op\<lparr>cancel_token := tok\<rparr>"

definition clear_cancel :: "network_operation \<Rightarrow> network_operation" where
  "clear_cancel op = op\<lparr>cancel_token := null\<rparr>"

text \<open>\<open>engine_->get_event_loop()\<close>: the pointer must not be null.\<close>

definition engine_io :: "addr \<Rightarrow> (io_state \<Rightarrow> io_state outcome) \<Rightarrow> net_world \<Rightarrow> net_world outcome" where
  "engine_io eng f w = (if eng = null then Inl Null_dereference else on_io f w)"

section \<open>Giving up the descriptor and the pending operation\<close>

text \<open>The end of \<open>background_close\<close>: when the ring did not close the descriptor it is closed directly.\<close>

definition background_close_end :: "int \<Rightarrow> int \<Rightarrow> net_world \<Rightarrow> net_world" where
  "background_close_end r fd w = (if r \<noteq> 0 then sys (Sys_close fd) w else w)"

definition background_close ::
    "background \<Rightarrow> network_operation \<Rightarrow> net_world \<Rightarrow> (network_operation \<times> net_world) outcome" where
  "background_close bg op w =
     (if sd op = kNoDescriptor then Inr (op, w)
      else let (sqe, ret, co) = bg;
               fd = sd op;
               w1 = sys (Sys_getsockopt_error fd) w;
               op1 = op\<lparr>sd := kNoDescriptor\<rparr>
           in if net_engine op = null then Inr (op1, background_close_end (- 1) fd w1)
              else bind_outcome (on_io (close_await sqe ret (Coroutine_alt co) null fd) w1) (\<lambda>w2.
                if sqe then Inr (op1, w2)
                else bind_outcome (io_resume ret (nio w2)) (\<lambda>r. Inr (op1, background_close_end r fd w2))))"

definition background_cancel ::
    "background \<Rightarrow> network_operation \<Rightarrow> net_world \<Rightarrow> (network_operation \<times> net_world) outcome" where
  "background_cancel bg op w =
     (let (sqe, ret, co) = bg; key = cancel_token op
      in bind_outcome (engine_io (net_engine op) (cancel_event_await sqe ret (Coroutine_alt co) key) w)
           (\<lambda>w'. Inr (op\<lparr>cancel_token := null\<rparr>, w')))"

text \<open>The two steps with which the destructor and the move assignment give up what the object holds.\<close>

definition give_up ::
    "background \<Rightarrow> background \<Rightarrow> network_operation \<Rightarrow> net_world \<Rightarrow> (network_operation \<times> net_world) outcome" where
  "give_up bc bl op w =
     bind_outcome (if cancel_token op \<noteq> null then background_cancel bc op w else Inr (op, w)) (\<lambda>(op1, w1).
     if 0 \<le> sd op1 then background_close bl op1 w1 else Inr (op1, w1))"

definition destroy_network_operation ::
    "background \<Rightarrow> background \<Rightarrow> network_operation \<Rightarrow> net_world \<Rightarrow> net_world outcome" where
  "destroy_network_operation bc bl op w = bind_outcome (give_up bc bl op w) (\<lambda>(op', w'). Inr w')"

definition swap_network_operation ::
    "network_operation \<Rightarrow> network_operation \<Rightarrow> network_operation \<times> network_operation" where
  "swap_network_operation a b =
     (a\<lparr>net_engine := net_engine b, cancel_token := cancel_token b, sd := sd b, last_err := last_err b\<rparr>,
      b\<lparr>net_engine := net_engine a, cancel_token := cancel_token a, sd := sd a, last_err := last_err a\<rparr>)"

text \<open>The move constructor: the new object and the one moved from.\<close>

definition move_network_operation :: "network_operation \<Rightarrow> network_operation \<times> network_operation" where
  "move_network_operation mv = swap_network_operation empty_network_operation mv"

definition assign_network_operation ::
    "background \<Rightarrow> background \<Rightarrow> network_operation \<Rightarrow> network_operation \<Rightarrow> net_world \<Rightarrow>
     (network_operation \<times> network_operation \<times> net_world) outcome" where
  "assign_network_operation bc bl self mv w =
     bind_outcome (give_up bc bl self w) (\<lambda>(self1, w1).
       let (a, b) = swap_network_operation self1 mv in Inr (a, b, w1))"

definition set_descriptor ::
    "background \<Rightarrow> int \<Rightarrow> network_operation \<Rightarrow> net_world \<Rightarrow> (network_operation \<times> net_world) outcome" where
  "set_descriptor bl fd op w =
     bind_outcome (if 0 \<le> sd op then background_close bl op w else Inr (op, w)) (\<lambda>(op1, w1).
     Inr (op1\<lparr>sd := fd\<rparr>, w1))"

section \<open>Awaitable cancel and close\<close>

definition cancel_ready :: "addr \<Rightarrow> bool" where
  "cancel_ready tok \<longleftrightarrow> tok = null"

definition cancel_suspend ::
    "bool \<Rightarrow> addr \<Rightarrow> tagged_event \<Rightarrow> addr \<Rightarrow> addr \<Rightarrow> net_world \<Rightarrow> net_world outcome" where
  "cancel_suspend sqe ret h eng tok w =
     engine_io eng
       (\<lambda>io. cancel_event sqe ret tok (io\<lparr>ios := (ios io)(ret \<mapsto> \<lparr>handle = h, result = - 1\<rparr>)\<rparr>)) w"

definition cancel_resume :: "addr \<Rightarrow> addr \<Rightarrow> net_world \<Rightarrow> (CancelResult \<times> addr) outcome" where
  "cancel_resume ret tok w =
     bind_outcome (io_resume ret (nio w)) (\<lambda>r.
       let c = cancel_code r in Inr (c, if c \<noteq> kFailed then null else tok))"

definition net_close_ready :: "network_operation \<Rightarrow> bool" where
  "net_close_ready op \<longleftrightarrow> sd op < 0"

definition net_close_suspend ::
    "bool \<Rightarrow> addr \<Rightarrow> tagged_event \<Rightarrow> network_operation \<Rightarrow> net_world \<Rightarrow> net_world outcome" where
  "net_close_suspend sqe ret h op w =
     engine_io (net_engine op) (close_await sqe ret h null (sd op)) (sys (Sys_getsockopt_error (sd op)) w)"

definition net_close_resume :: "int \<Rightarrow> network_operation \<Rightarrow> bool \<times> network_operation" where
  "net_close_resume r op =
     (if r = 0 then (True, op\<lparr>sd := kNoDescriptor\<rparr>) else (False, op\<lparr>last_err := - r\<rparr>))"

lemmas net_defs [zab_defs] =
  sys_def on_io_def engine_io_def background_close_end_def make_network_operation_def
  empty_network_operation_def kNoDescriptor_def

section \<open>Ownership of descriptors\<close>

text \<open>Objects in memory and what a client may do with them.  Every command carries the two background
  frames it may need.\<close>

datatype net_cmd =
    Construct addr addr int
  | Move_construct addr addr
  | Move_assign addr addr
  | Swap addr addr
  | Set_descriptor addr int
  | Begin_operation addr addr
  | Destroy addr

type_synonym net_store = "addr \<rightharpoonup> network_operation"

definition object_at :: "net_store \<Rightarrow> addr \<Rightarrow> (network_operation \<Rightarrow> 'a outcome) \<Rightarrow> 'a outcome" where
  "object_at m a f = (case m a of None \<Rightarrow> Inl Bad_address | Some op \<Rightarrow> f op)"

fun net_cmd_step ::
    "background \<times> background \<times> net_cmd \<Rightarrow> net_store \<times> net_world \<Rightarrow> (net_store \<times> net_world) outcome" where
  "net_cmd_step (bc, bl, Construct a eng fd) (m, w) = Inr (m(a \<mapsto> make_network_operation eng fd), w)"
| "net_cmd_step (bc, bl, Move_construct a b) (m, w) =
     object_at m b (\<lambda>op. let (x, y) = move_network_operation op in Inr (m(b \<mapsto> y, a \<mapsto> x), w))"
| "net_cmd_step (bc, bl, Move_assign a b) (m, w) =
     (if a = b then Inr (m, w)
      else object_at m a (\<lambda>self. object_at m b (\<lambda>other.
        bind_outcome (assign_network_operation bc bl self other w) (\<lambda>(x, y, w').
          Inr (m(b \<mapsto> y, a \<mapsto> x), w')))))"
| "net_cmd_step (bc, bl, Swap a b) (m, w) =
     object_at m a (\<lambda>self. object_at m b (\<lambda>other.
       let (x, y) = swap_network_operation self other in Inr (m(b \<mapsto> y, a \<mapsto> x), w)))"
| "net_cmd_step (bc, bl, Set_descriptor a fd) (m, w) =
     object_at m a (\<lambda>self. bind_outcome (set_descriptor bl fd self w) (\<lambda>(x, w'). Inr (m(a \<mapsto> x), w')))"
| "net_cmd_step (bc, bl, Begin_operation a tok) (m, w) =
     object_at m a (\<lambda>self. Inr (m(a \<mapsto> set_cancel tok self), w))"
| "net_cmd_step (bc, bl, Destroy a) (m, w) =
     object_at m a (\<lambda>self. bind_outcome (destroy_network_operation bc bl self w) (\<lambda>w'. Inr (m(a := None), w')))"

text \<open>A client uses objects properly when it constructs them at free addresses, uses only live ones and
  begins operations only on objects with an engine.  The map says which addresses are live and whether
  the object has an engine.\<close>

fun cmd_frames_ok :: "background \<times> background \<times> net_cmd \<Rightarrow> bool" where
  "cmd_frames_ok ((_, rc, _), (_, rl, _), _) \<longleftrightarrow> rc \<noteq> null \<and> rl \<noteq> null"

fun cmd_ok :: "net_cmd \<Rightarrow> (addr \<rightharpoonup> bool) \<Rightarrow> bool" where
  "cmd_ok (Construct a eng fd) live \<longleftrightarrow> live a = None"
| "cmd_ok (Move_construct a b) live \<longleftrightarrow> live a = None \<and> live b \<noteq> None"
| "cmd_ok (Move_assign a b) live \<longleftrightarrow> live a \<noteq> None \<and> live b \<noteq> None"
| "cmd_ok (Swap a b) live \<longleftrightarrow> live a \<noteq> None \<and> live b \<noteq> None"
| "cmd_ok (Set_descriptor a fd) live \<longleftrightarrow> live a \<noteq> None"
| "cmd_ok (Begin_operation a tok) live \<longleftrightarrow> live a = Some True"
| "cmd_ok (Destroy a) live \<longleftrightarrow> live a \<noteq> None"

fun live_after :: "net_cmd \<Rightarrow> (addr \<rightharpoonup> bool) \<Rightarrow> (addr \<rightharpoonup> bool)" where
  "live_after (Construct a eng fd) live = live(a \<mapsto> eng \<noteq> null)"
| "live_after (Move_construct a b) live = live(b \<mapsto> False, a := live b)"
| "live_after (Move_assign a b) live = live(b := live a, a := live b)"
| "live_after (Swap a b) live = live(b := live a, a := live b)"
| "live_after (Destroy a) live = live(a := None)"
| "live_after _ live = live"

fun used_properly :: "(background \<times> background \<times> net_cmd) list \<Rightarrow> (addr \<rightharpoonup> bool) \<Rightarrow> bool" where
  "used_properly [] live \<longleftrightarrow> True"
| "used_properly (c # cs) live \<longleftrightarrow>
     cmd_frames_ok c \<and> cmd_ok (snd (snd c)) live \<and> used_properly cs (live_after (snd (snd c)) live)"

fun live_run :: "(background \<times> background \<times> net_cmd) list \<Rightarrow> (addr \<rightharpoonup> bool) \<Rightarrow> (addr \<rightharpoonup> bool)" where
  "live_run [] live = live"
| "live_run (c # cs) live = live_run cs (live_after (snd (snd c)) live)"

text \<open>The descriptors that objects hold, that were handed to them, and whose closing was asked for, be it
  from the ring or directly.\<close>

definition fds :: "int \<Rightarrow> int multiset" where
  "fds fd = (if 0 \<le> fd then {#fd#} else {#})"

definition held :: "net_store \<Rightarrow> int multiset" where
  "held m = (\<Sum>a \<in> dom m. fds (sd (the (m a))))"

fun given :: "net_cmd \<Rightarrow> int multiset" where
  "given (Construct a eng fd) = fds fd"
| "given (Set_descriptor a fd) = fds fd"
| "given _ = {#}"

fun ring_close :: "uring_op \<times> addr \<Rightarrow> int multiset" where
  "ring_close (Prep_close fd, _) = {#fd#}"
| "ring_close _ = {#}"

fun sys_close :: "syscall \<Rightarrow> int multiset" where
  "sys_close (Sys_close fd) = {#fd#}"
| "sys_close _ = {#}"

definition closings :: "net_world \<Rightarrow> int multiset" where
  "closings w = (\<Sum>r \<leftarrow> sq (loop (nio w)). ring_close r) + (\<Sum>c \<leftarrow> syscalls w. sys_close c)"

definition store_ok :: "net_store \<Rightarrow> (addr \<rightharpoonup> bool) \<Rightarrow> bool" where
  "store_ok m live \<longleftrightarrow> finite (dom m) \<and>
     (\<forall>a. live a = map_option (\<lambda>op. net_engine op \<noteq> null) (m a)) \<and>
     (\<forall>a op. m a = Some op \<longrightarrow> cancel_token op \<noteq> null \<longrightarrow> net_engine op \<noteq> null)"

lemma held_fresh: "finite (dom m) \<Longrightarrow> m a = None \<Longrightarrow> held (m(a \<mapsto> op)) = held m + fds (sd op)"
proof -
  assume m: "finite (dom m)" "m a = None"
  have "(\<Sum>x \<in> dom m. fds (sd (the ((m(a \<mapsto> op)) x)))) = held m"
    unfolding held_def by (rule sum.cong) (use m in \<open>auto simp: domIff\<close>)
  then show ?thesis using m by (simp add: held_def domIff)
qed

lemma held_remove: "finite (dom m) \<Longrightarrow> m a = Some op \<Longrightarrow> held m = held (m(a := None)) + fds (sd op)"
  using held_fresh [of "m(a := None)" a op] by (simp add: fun_upd_idem)

lemma held_update:
  "finite (dom m) \<Longrightarrow> m a = Some op \<Longrightarrow> held (m(a \<mapsto> op')) + fds (sd op) = held m + fds (sd op')"
  using held_remove [of m a op] held_fresh [of "m(a := None)" a op'] by simp

text \<open>A background coroutine always gets under way, and moves the descriptor from the object to the
  closing ones.\<close>

lemma cancel_event_closings:
  assumes "net_engine op \<noteq> null" and "fst (snd bg) \<noteq> null"
  shows "\<exists>w'. background_cancel bg op w = Inr (op\<lparr>cancel_token := null\<rparr>, w') \<and> closings w' = closings w"
  using assms
  by (cases bg) (simp add: background_cancel_def net_defs cancel_event_await_def io_suspend_def
      cancel_event_def fail_no_sqe_def run_handle_def closings_def event_defs Let_def
      del: bind_outcome_eq_Inr)

lemma background_close_closings:
  assumes "0 \<le> sd op" and "fst (snd bg) \<noteq> null"
  shows "\<exists>w'. background_close bg op w = Inr (op\<lparr>sd := kNoDescriptor\<rparr>, w') \<and>
    closings w' = closings w + fds (sd op)"
  using assms
  by (cases bg) (simp add: background_close_def net_defs close_await_def io_suspend_def close_def
      do_op_impl_def fail_no_sqe_def run_handle_def closings_def event_defs io_resume_def fds_def ENOMEM_def Let_def
      del: bind_outcome_eq_Inr)

lemma give_up_closings:
  assumes "cancel_token op \<noteq> null \<longrightarrow> net_engine op \<noteq> null"
    and "fst (snd bc) \<noteq> null" and "fst (snd bl) \<noteq> null"
  shows "\<exists>op' w'. give_up bc bl op w = Inr (op', w') \<and> net_engine op' = net_engine op \<and>
    cancel_token op' = null \<and> sd op' < 0 \<and> closings w' = closings w + fds (sd op)"
proof -
  let ?op = "op\<lparr>cancel_token := null\<rparr>"
  have one: "\<exists>w1. (if cancel_token op \<noteq> null then background_cancel bc op w else Inr (op, w)) = Inr (?op, w1) \<and>
      closings w1 = closings w"
    using cancel_event_closings [of op bc w] assms(1,2) by auto
  then obtain w1 where w1: "(if cancel_token op \<noteq> null then background_cancel bc op w else Inr (op, w)) = Inr (?op, w1)"
    "closings w1 = closings w" by blast
  show ?thesis
  proof (cases "0 \<le> sd op")
    case True
    then obtain w2 where "background_close bl ?op w1 = Inr (?op\<lparr>sd := kNoDescriptor\<rparr>, w2)"
      "closings w2 = closings w1 + fds (sd op)"
      using background_close_closings [of ?op bl w1] assms(3) by auto
    with w1 True show ?thesis by (simp add: give_up_def kNoDescriptor_def)
  next
    case False
    with w1 show ?thesis by (simp add: give_up_def fds_def)
  qed
qed

definition engine_ok :: "network_operation \<Rightarrow> bool" where
  "engine_ok op \<longleftrightarrow> (cancel_token op \<noteq> null \<longrightarrow> net_engine op \<noteq> null)"

lemma store_ok_update:
  "store_ok m live \<Longrightarrow> engine_ok op \<Longrightarrow> store_ok (m(a \<mapsto> op)) (live(a \<mapsto> net_engine op \<noteq> null))"
  by (auto simp: store_ok_def engine_ok_def)

lemma store_ok_remove: "store_ok m live \<Longrightarrow> store_ok (m(a := None)) (live(a := None))"
  by (auto simp: store_ok_def split: if_splits)

lemma store_ok_lookup:
  assumes "store_ok m live" and "live a \<noteq> None"
  obtains op where "m a = Some op" and "engine_ok op" and "live a = Some (net_engine op \<noteq> null)"
  using assms by (auto simp: store_ok_def engine_ok_def)

lemma store_ok_free: "store_ok m live \<Longrightarrow> live a = None \<longleftrightarrow> m a = None"
  by (auto simp: store_ok_def)

lemma store_ok_finite: "store_ok m live \<Longrightarrow> finite (dom m)"
  by (simp add: store_ok_def)

lemma swap_is_exchange: "swap_network_operation a b = (b, a)"
  by (simp add: swap_network_operation_def)

text \<open>Two objects exchange what they hold.\<close>

lemma exchange_ok:
  assumes "store_ok m live" and "m a = Some x" and "m b = Some y"
  shows "store_ok (m(b \<mapsto> x, a \<mapsto> y)) (live(b := live a, a := live b))"
    and "held (m(b \<mapsto> x, a \<mapsto> y)) = held m"
proof -
  have e: "engine_ok x" "engine_ok y" "live a = Some (net_engine x \<noteq> null)" "live b = Some (net_engine y \<noteq> null)"
    using assms by (auto simp: store_ok_def engine_ok_def)
  show "store_ok (m(b \<mapsto> x, a \<mapsto> y)) (live(b := live a, a := live b))"
    using store_ok_update [OF store_ok_update [OF assms(1) e(1), of b] e(2), of a] e(3,4) by simp
  have fin: "finite (dom m)" using assms(1) by (rule store_ok_finite)
  show "held (m(b \<mapsto> x, a \<mapsto> y)) = held m"
  proof (cases "a = b")
    case True
    with assms show ?thesis by (simp add: fun_upd_idem)
  next
    case False
    then have "held (m(b \<mapsto> x, a \<mapsto> y)) + fds (sd x) = held (m(b \<mapsto> x)) + fds (sd y)"
      using held_update [of "m(b \<mapsto> x)" a x y] fin assms(2) by simp
    moreover have "held (m(b \<mapsto> x)) + fds (sd y) = held m + fds (sd x)"
      using held_update [of m b y x] fin assms(3) by simp
    ultimately show ?thesis by simp
  qed
qed

text \<open>One object gives up what it holds.\<close>

lemma give_up_ok:
  assumes "store_ok m live" and "m a = Some op" and "fst (snd bc) \<noteq> null" and "fst (snd bl) \<noteq> null"
  shows "\<exists>op' w'. give_up bc bl op w = Inr (op', w') \<and> net_engine op' = net_engine op \<and> engine_ok op' \<and> sd op' < 0 \<and>
    held (m(a \<mapsto> op')) + closings w' = held m + closings w"
proof -
  obtain op' w' where g: "give_up bc bl op w = Inr (op', w')" "net_engine op' = net_engine op"
    "cancel_token op' = null" "sd op' < 0" "closings w' = closings w + fds (sd op)"
    using give_up_closings [of op bc bl w] assms by (auto simp: store_ok_def)
  have "held (m(a \<mapsto> op')) + fds (sd op) = held m + fds (sd op')"
    using held_update [of m a op op'] assms(1,2) by (simp add: store_ok_finite)
  then have "held (m(a \<mapsto> op')) + fds (sd op) = held m" using g(4) by (simp add: fds_def)
  then have "held (m(a \<mapsto> op')) + closings w' = held m + closings w"
    using g(5) by (metis (no_types, lifting) add.commute add.left_commute)
  with g show ?thesis by (auto simp: engine_ok_def)
qed

lemma store_ok_same_engine:
  assumes "store_ok m live" and "m a = Some op" and "net_engine op' = net_engine op" and "engine_ok op'"
  shows "store_ok (m(a \<mapsto> op')) live"
proof -
  have "live(a \<mapsto> net_engine op' \<noteq> null) = live"
    using assms by (intro fun_upd_idem) (simp add: store_ok_def)
  then show ?thesis using store_ok_update [OF assms(1,4), of a] by simp
qed

text \<open>Every command of a proper client succeeds and accounts for the descriptors.\<close>

definition step_ok :: "background \<times> background \<times> net_cmd \<Rightarrow> net_store \<Rightarrow> net_world \<Rightarrow> (addr \<rightharpoonup> bool) \<Rightarrow> bool" where
  "step_ok c m w live \<longleftrightarrow> (\<exists>m' w'. net_cmd_step c (m, w) = Inr (m', w') \<and>
     store_ok m' (live_after (snd (snd c)) live) \<and>
     held m' + closings w' = held m + closings w + given (snd (snd c)))"

lemma step_ok_construct:
  assumes "store_ok m live" and "live a = None"
  shows "step_ok (bc, bl, Construct a eng fd) m w live"
proof -
  have "engine_ok (make_network_operation eng fd)"
    by (simp add: engine_ok_def make_network_operation_def)
  then show ?thesis
    using assms held_fresh [of m a "make_network_operation eng fd"] store_ok_update [of m live _ a]
    by (fastforce simp: step_ok_def store_ok_finite store_ok_free make_network_operation_def)
qed

lemma step_ok_move:
  assumes "store_ok m live" and "live a = None" and "live b \<noteq> None"
  shows "step_ok (bc, bl, Move_construct a b) m w live"
proof -
  obtain op where op: "m b = Some op" "live b = Some (net_engine op \<noteq> null)"
    using assms(1,3) by (rule store_ok_lookup)
  have ab: "m a = None" "a \<noteq> b" using assms op by (auto simp: store_ok_free)
  let ?e = empty_network_operation
  have e: "engine_ok ?e" "fds (sd ?e) = {#}" "net_engine ?e = null"
    by (simp_all add: engine_ok_def net_defs fds_def)
  have st: "store_ok (m(a \<mapsto> ?e)) (live(a \<mapsto> False))"
    using store_ok_update [OF assms(1) e(1), of a] e(3) by simp
  have swap: "(m(a \<mapsto> ?e))(b \<mapsto> ?e, a \<mapsto> op) = m(b \<mapsto> ?e, a \<mapsto> op)" using ab by (simp add: fun_upd_twist)
  have live: "(live(a \<mapsto> False))(b := (live(a \<mapsto> False)) a, a := (live(a \<mapsto> False)) b) = live(b \<mapsto> False, a := live b)"
    using ab by (simp add: fun_upd_twist)
  have "(m(a \<mapsto> ?e)) a = Some ?e" "(m(a \<mapsto> ?e)) b = Some op" using ab op by simp_all
  note x = exchange_ok [OF st this, unfolded swap live]
  have "held (m(a \<mapsto> ?e)) = held m"
    using held_fresh [of m a ?e] assms(1) ab e(2) by (simp add: store_ok_finite)
  then show ?thesis using x op
    by (simp add: step_ok_def object_at_def move_network_operation_def swap_is_exchange del: fun_upd_apply)
qed

lemma step_ok_assign:
  assumes "store_ok m live" and "live a \<noteq> None" and "live b \<noteq> None"
    and "fst (snd bc) \<noteq> null" and "fst (snd bl) \<noteq> null"
  shows "step_ok (bc, bl, Move_assign a b) m w live"
proof (cases "a = b")
  case True
  with assms(1) show ?thesis by (simp add: step_ok_def fun_upd_idem)
next
  case False
  obtain x where x: "m a = Some x" using assms(1,2) by (rule store_ok_lookup)
  obtain y where y: "m b = Some y" using assms(1,3) by (rule store_ok_lookup)
  obtain x' w' where g: "give_up bc bl x w = Inr (x', w')" "net_engine x' = net_engine x" "engine_ok x'"
    "held (m(a \<mapsto> x')) + closings w' = held m + closings w"
    using give_up_ok [OF assms(1) x assms(4,5), of w] by blast
  have st: "store_ok (m(a \<mapsto> x')) live" by (rule store_ok_same_engine [OF assms(1) x g(2,3)])
  have "(m(a \<mapsto> x')) a = Some x'" "(m(a \<mapsto> x')) b = Some y" using False y by simp_all
  note e = exchange_ok [OF st this]
  have eq: "(m(a \<mapsto> x'))(b \<mapsto> x', a \<mapsto> y) = m(b \<mapsto> x', a \<mapsto> y)" using False by (simp add: fun_upd_twist)
  show ?thesis using False x y g e
    by (simp add: step_ok_def object_at_def assign_network_operation_def swap_is_exchange eq del: fun_upd_apply)
qed

lemma step_ok_swap:
  assumes "store_ok m live" and "live a \<noteq> None" and "live b \<noteq> None"
  shows "step_ok (bc, bl, Swap a b) m w live"
proof -
  obtain x where x: "m a = Some x" using assms(1,2) by (rule store_ok_lookup)
  obtain y where y: "m b = Some y" using assms(1,3) by (rule store_ok_lookup)
  show ?thesis using x y exchange_ok [OF assms(1) x y]
    by (simp add: step_ok_def object_at_def swap_is_exchange del: fun_upd_apply)
qed

lemma step_ok_set_descriptor:
  assumes "store_ok m live" and "live a \<noteq> None" and "fst (snd bl) \<noteq> null"
  shows "step_ok (bc, bl, Set_descriptor a fd) m w live"
proof -
  obtain x where x: "m a = Some x" "engine_ok x" using assms(1,2) by (rule store_ok_lookup)
  have "\<exists>x' w'. set_descriptor bl fd x w = Inr (x', w') \<and> net_engine x' = net_engine x \<and>
      cancel_token x' = cancel_token x \<and> sd x' = fd \<and> closings w' = closings w + fds (sd x)"
  proof (cases "0 \<le> sd x")
    case True
    then show ?thesis using background_close_closings [of x bl w] assms(3) by (auto simp: set_descriptor_def)
  next
    case False
    then show ?thesis by (simp add: set_descriptor_def fds_def)
  qed
  then obtain x' w' where s: "set_descriptor bl fd x w = Inr (x', w')" "net_engine x' = net_engine x"
      "cancel_token x' = cancel_token x" "sd x' = fd" "closings w' = closings w + fds (sd x)" by blast
  have "held (m(a \<mapsto> x')) + fds (sd x) = held m + fds fd"
    using held_update [of m a x x'] assms(1) x(1) s(4) by (simp add: store_ok_finite)
  then have "held (m(a \<mapsto> x')) + closings w' = held m + closings w + fds fd"
    using s(5) by (metis (no_types, lifting) add.commute add.left_commute)
  moreover have "store_ok (m(a \<mapsto> x')) live"
    using store_ok_same_engine [OF assms(1) x(1) s(2)] x(2) s(2,3) by (simp add: engine_ok_def)
  ultimately show ?thesis using x(1) s(1) by (simp add: step_ok_def object_at_def del: fun_upd_apply)
qed

lemma step_ok_begin:
  assumes "store_ok m live" and "live a = Some True"
  shows "step_ok (bc, bl, Begin_operation a tok) m w live"
proof -
  obtain x where x: "m a = Some x" "live a = Some (net_engine x \<noteq> null)"
    using assms by (auto elim: store_ok_lookup)
  have "store_ok (m(a \<mapsto> set_cancel tok x)) live"
    by (rule store_ok_same_engine [OF assms(1) x(1)])
      (use assms(2) x(2) in \<open>simp_all add: set_cancel_def engine_ok_def\<close>)
  moreover have "held (m(a \<mapsto> set_cancel tok x)) = held m"
    using held_update [of m a x "set_cancel tok x"] assms(1) x(1) by (simp add: store_ok_finite set_cancel_def)
  ultimately show ?thesis using x(1) by (simp add: step_ok_def object_at_def del: fun_upd_apply)
qed

lemma step_ok_destroy:
  assumes "store_ok m live" and "live a \<noteq> None" and "fst (snd bc) \<noteq> null" and "fst (snd bl) \<noteq> null"
  shows "step_ok (bc, bl, Destroy a) m w live"
proof -
  obtain x where x: "m a = Some x" using assms(1,2) by (rule store_ok_lookup)
  obtain x' w' where g: "give_up bc bl x w = Inr (x', w')" "sd x' < 0"
    "held (m(a \<mapsto> x')) + closings w' = held m + closings w"
    using give_up_ok [OF assms(1) x assms(3,4), of w] by blast
  have "held (m(a \<mapsto> x')) = held (m(a := None))"
    using held_remove [of "m(a \<mapsto> x')" a x'] assms(1) g(2) by (simp add: store_ok_finite fds_def)
  then show ?thesis using x g store_ok_remove [OF assms(1), of a]
    by (simp add: step_ok_def object_at_def destroy_network_operation_def del: fun_upd_apply)
qed

lemma proper_step_ok:
  assumes "store_ok m live" and "cmd_frames_ok c" and "cmd_ok (snd (snd c)) live"
  shows "step_ok c m w live"
proof -
  obtain bc bl cmd where c: "c = (bc, bl, cmd)" by (cases c)
  have f: "fst (snd bc) \<noteq> null" "fst (snd bl) \<noteq> null" using assms(2) c by (cases bc; cases bl; simp)+
  show ?thesis using assms(3) f unfolding c
    by (cases cmd) (simp_all add: step_ok_construct step_ok_move step_ok_assign step_ok_swap
        step_ok_set_descriptor step_ok_begin step_ok_destroy assms(1))
qed

lemma proper_client_ok:
  assumes "store_ok m live" and "used_properly cs live"
  shows "\<exists>m' w'. fold_outcome net_cmd_step cs (m, w) = Inr (m', w') \<and>
    store_ok m' (live_run cs live) \<and>
    held m' + closings w' = held m + closings w + (\<Sum>c \<leftarrow> cs. given (snd (snd c)))"
  using assms
proof (induction cs arbitrary: m w live)
  case (Cons c cs)
  then obtain m1 w1 where s: "net_cmd_step c (m, w) = Inr (m1, w1)" "store_ok m1 (live_after (snd (snd c)) live)"
    "held m1 + closings w1 = held m + closings w + given (snd (snd c))"
    using proper_step_ok [of m live c w] by (auto simp: step_ok_def)
  with Cons.prems(2) obtain m' w' where "fold_outcome net_cmd_step cs (m1, w1) = Inr (m', w')"
    "store_ok m' (live_run cs (live_after (snd (snd c)) live))"
    "held m' + closings w' = held m1 + closings w1 + (\<Sum>c \<leftarrow> cs. given (snd (snd c)))"
    using Cons.IH [of m1 "live_after (snd (snd c)) live" w1] by auto
  with s show ?case by (simp add: add.assoc del: bind_outcome_eq_Inr)
qed simp

section \<open>Properties\<close>


text \<open>Awaiting \<open>close()\<close> on an object with a descriptor asks the ring to close that descriptor; when the
  answer is 0 the result is true and the descriptor is given up, otherwise it is false, the descriptor
  is kept and the error is recorded.  Without a descriptor it completes at once.\<close>

theorem net_close_spec:
  assumes "0 \<le> sd op" and "net_engine op \<noteq> null"
  shows "\<not> net_close_ready op \<and>
    (\<exists>w'. net_close_suspend True ret h op w = Inr w' \<and>
       sq (loop (nio w')) = sq (loop (nio w)) @ [(Prep_close (sd op), ret)] \<and>
       ios (nio w') ret = Some \<lparr>handle = h, result = 0\<rparr>) \<and>
    net_close_resume r op =
      (r = 0, if r = 0 then op\<lparr>sd := kNoDescriptor\<rparr> else op\<lparr>last_err := - r\<rparr>)"
  using assms
  by (simp add: net_close_ready_def net_close_suspend_def net_close_resume_def net_defs close_await_def
      io_suspend_def close_def do_op_impl_def Let_def)

section \<open>Witnesses\<close>

definition demo_frame :: background where
  "demo_frame = (True, 16, 32)"

definition demo_world :: net_world where
  "demo_world = \<lparr>nio = \<lparr>loop = init_event_loop 3 None 5 8, ios = Map.empty, tokens = Map.empty, executed = []\<rparr>,
     syscalls = []\<rparr>"

definition demo_client :: "(background \<times> background \<times> net_cmd) list" where
  "demo_client = map (\<lambda>c. (demo_frame, demo_frame, c))
     [Construct 100 8 4, Construct 200 8 (- 1), Begin_operation 100 48, Set_descriptor 200 6,
      Move_assign 200 100, Move_construct 300 200, Destroy 100, Destroy 200, Destroy 300]"


theorem net_close_spec_witness:
  "\<not> net_close_ready (make_network_operation 8 4) \<and>
   net_close_resume (- 9) (make_network_operation 8 4) = (False, (make_network_operation 8 4)\<lparr>last_err := 9\<rparr>)"
  using net_close_spec [of "make_network_operation 8 4" 16 "Coroutine_alt 32" demo_world "- 9"]
  by (simp add: make_network_operation_def)

end
