(* ===== verification/Tcp_Stream.thy ===== *)
theory Tcp_Stream
  imports Network_Operation Generic_Awaitable
begin

text \<open>
  \<open>includes/zab/tcp_stream.hpp\<close>: reading from and writing to a connected socket.  \<open>read_some\<close> and
  \<open>write_some\<close> issue one request; \<open>read\<close> and \<open>write\<close> are stateful awaitables that are notified of every
  completion and issue the next request until all bytes were transferred.

  A span is its address and its size, the arithmetic on sizes and addresses is that of 64 bit words.  The
  byte count \<open>so_far\<close> of the source is a \<open>long long\<close>; it is an int here, each completion adding at most
  the size of its request.  The requests of a transfer use the \<open>io_event\<close> in the awaitable (\<open>context_\<close>),
  whose handle is the callback that runs \<open>notify()\<close>.
\<close>

section \<open>Streams\<close>

record tcp_stream =
  net :: network_operation
  write_cancel :: addr

definition kMaxWrite :: u64 where
  "kMaxWrite = 65535"

definition kMaxRead :: u64 where
  "kMaxRead = 2147483647 - 2"

definition MSG_WAITALL :: int where
  "MSG_WAITALL = 256"

definition make_tcp_stream :: "addr \<Rightarrow> int \<Rightarrow> tcp_stream" where
  "make_tcp_stream eng fd = \<lparr>net = make_network_operation eng fd, write_cancel = null\<rparr>"

definition empty_tcp_stream :: tcp_stream where
  "empty_tcp_stream = \<lparr>net = empty_network_operation, write_cancel = null\<rparr>"

definition swap_tcp_stream :: "tcp_stream \<Rightarrow> tcp_stream \<Rightarrow> tcp_stream \<times> tcp_stream" where
  "swap_tcp_stream a b =
     (let (na, nb) = swap_network_operation (net a) (net b)
      in (a\<lparr>net := na, write_cancel := write_cancel b\<rparr>, b\<lparr>net := nb, write_cancel := write_cancel a\<rparr>))"

definition move_tcp_stream :: "tcp_stream \<Rightarrow> tcp_stream \<times> tcp_stream" where
  "move_tcp_stream mv = swap_tcp_stream empty_tcp_stream mv"

definition assign_tcp_stream :: "tcp_stream \<Rightarrow> tcp_stream \<Rightarrow> tcp_stream \<times> tcp_stream" where
  "assign_tcp_stream self mv = swap_tcp_stream self mv"

definition rebind :: "tcp_stream \<Rightarrow> tcp_stream \<times> tcp_stream" where
  "rebind other = swap_tcp_stream empty_tcp_stream other"

definition stream_last_error :: "tcp_stream \<Rightarrow> int \<times> tcp_stream" where
  "stream_last_error s = (let (e, n) = last_error (net s) in (e, s\<lparr>net := n\<rparr>))"

definition stream_set_error :: "int \<Rightarrow> tcp_stream \<Rightarrow> tcp_stream" where
  "stream_set_error e s = s\<lparr>net := set_error e (net s)\<rparr>"

section \<open>Cancelling and closing\<close>

definition cancel_read_suspend :: "bool \<Rightarrow> addr \<Rightarrow> tagged_event \<Rightarrow> tcp_stream \<Rightarrow> net_world \<Rightarrow> net_world outcome" where
  "cancel_read_suspend sqe ret h s w = cancel_suspend sqe ret h (net_engine (net s)) (cancel_token (net s)) w"

definition cancel_write_suspend :: "bool \<Rightarrow> addr \<Rightarrow> tagged_event \<Rightarrow> tcp_stream \<Rightarrow> net_world \<Rightarrow> net_world outcome" where
  "cancel_write_suspend sqe ret h s w = cancel_suspend sqe ret h (net_engine (net s)) (write_cancel s) w"

text \<open>Both are ready at once when there is no pending operation; resuming clears the token unless the
  request could not be made.\<close>

definition cancel_read_resume :: "int \<Rightarrow> tcp_stream \<Rightarrow> tcp_stream" where
  "cancel_read_resume r s =
     (if cancel_code r \<noteq> kFailed then s\<lparr>net := clear_cancel (net s)\<rparr> else s)"

definition cancel_write_resume :: "int \<Rightarrow> tcp_stream \<Rightarrow> tcp_stream" where
  "cancel_write_resume r s = (if cancel_code r \<noteq> kFailed then s\<lparr>write_cancel := null\<rparr> else s)"

definition stream_close_suspend :: "bool \<Rightarrow> addr \<Rightarrow> tagged_event \<Rightarrow> tcp_stream \<Rightarrow> net_world \<Rightarrow> net_world outcome" where
  "stream_close_suspend sqe ret h s w =
     (let w1 = sys (Sys_getsockopt_error (sd (net s))) w
      in if net_close_ready (net s) then Inr w1 else net_close_suspend sqe ret h (net s) w1)"

definition stream_close_resume :: "int \<Rightarrow> tcp_stream \<Rightarrow> bool \<times> tcp_stream" where
  "stream_close_resume r s = (let (ok, n) = net_close_resume r (net s) in (ok, s\<lparr>net := n\<rparr>))"

text \<open>The destructor: the pending write is cancelled in the background, errors are cleared when the
  descriptor is not 0 (it is \<open>-1\<close> when there is none), and the network operation is destroyed.\<close>

definition destroy_tcp_stream ::
    "background \<Rightarrow> background \<Rightarrow> background \<Rightarrow> tcp_stream \<Rightarrow> net_world \<Rightarrow> net_world outcome" where
  "destroy_tcp_stream bw bc bl s w =
     bind_outcome (if write_cancel s \<noteq> null
                   then cancel_write_suspend (fst bw) (fst (snd bw)) (Coroutine_alt (snd (snd bw))) s w
                   else Inr w) (\<lambda>w1.
       let w2 = (if sd (net s) \<noteq> 0 then sys (Sys_getsockopt_error (sd (net s))) w1 else w1)
       in destroy_network_operation bc bl (net s) w2)"

section \<open>Single requests\<close>

definition read_some_ready :: "buffer \<Rightarrow> bool" where
  "read_some_ready data \<longleftrightarrow> snd data = 0"

definition read_some_amount :: "u64 \<Rightarrow> u64 \<Rightarrow> u64" where
  "read_some_amount n off = min (n - off) kMaxRead"

definition read_some_suspend ::
    "bool \<Rightarrow> addr \<Rightarrow> tagged_event \<Rightarrow> buffer \<Rightarrow> u64 \<Rightarrow> int \<Rightarrow> tcp_stream \<Rightarrow> net_world \<Rightarrow> (tcp_stream \<times> net_world) outcome" where
  "read_some_suspend sqe ret h data off flags s w =
     (let s1 = s\<lparr>net := set_cancel ret (net s)\<rparr>;
          buf = (fst data + off, read_some_amount (snd data) off)
      in bind_outcome
           (engine_io (net_engine (net s1)) (recv_await sqe ret h null (sd (net s1)) buf flags) w)
           (\<lambda>w'. Inr (s1, w')))"

definition read_some_resume :: "int \<Rightarrow> tcp_stream \<Rightarrow> int \<times> tcp_stream" where
  "read_some_resume r s =
     (let s1 = s\<lparr>net := clear_cancel (net s)\<rparr>
      in if r > 0 then (r, s1) else (- 1, stream_set_error (- r) s1))"

definition write_some_ready :: "buffer \<Rightarrow> bool" where
  "write_some_ready data \<longleftrightarrow> snd data = 0"

definition write_some_amount :: "u64 \<Rightarrow> u64 \<Rightarrow> u64" where
  "write_some_amount n off = min (n - off) kMaxWrite"

definition write_some_suspend ::
    "bool \<Rightarrow> addr \<Rightarrow> tagged_event \<Rightarrow> buffer \<Rightarrow> u64 \<Rightarrow> int \<Rightarrow> tcp_stream \<Rightarrow> net_world \<Rightarrow> (tcp_stream \<times> net_world) outcome" where
  "write_some_suspend sqe ret h data off flags s w =
     (let s1 = s\<lparr>write_cancel := ret\<rparr>;
          buf = (fst data + off, write_some_amount (snd data) off)
      in bind_outcome
           (engine_io (net_engine (net s1)) (send_await sqe ret h null (sd (net s1)) buf flags) w)
           (\<lambda>w'. Inr (s1, w')))"

definition write_some_resume :: "int \<Rightarrow> tcp_stream \<Rightarrow> int \<times> tcp_stream" where
  "write_some_resume r s =
     (let s1 = s\<lparr>write_cancel := null\<rparr>
      in if r > 0 then (r, s1) else (- 1, stream_set_error (- r) s1))"

section \<open>Transfers\<close>

record transfer =
  stream :: tcp_stream
  world :: net_world
  so_far :: int

definition transfer_amount :: "u64 \<Rightarrow> int \<Rightarrow> u64 \<Rightarrow> u64" where
  "transfer_amount n k off = min (n - of_int k - off) kMaxRead"

definition transfer_notify :: "int \<Rightarrow> transfer \<Rightarrow> transfer \<times> notify_ctl" where
  "transfer_notify r t =
     (if r > 0 then (t\<lparr>so_far := so_far t + r\<rparr>, kReady)
      else (t\<lparr>stream := stream_set_error (- r) (stream t)\<rparr>, kResume))"

definition transfer_ready :: "buffer \<Rightarrow> transfer \<Rightarrow> transfer \<times> bool" where
  "transfer_ready data t = (t, so_far t = sint (snd data))"

definition read_suspend :: "bool \<Rightarrow> addr \<Rightarrow> buffer \<Rightarrow> u64 \<Rightarrow> int \<Rightarrow> transfer \<Rightarrow> (transfer \<times> bool) outcome" where
  "read_suspend sqe ctx_ev data off flags t =
     (let s = (stream t)\<lparr>net := set_cancel ctx_ev (net (stream t))\<rparr>;
          buf = (fst data + of_int (so_far t) + off, transfer_amount (snd data) (so_far t) off)
      in bind_outcome
           (engine_io (net_engine (net s)) (recv sqe ctx_ev (sd (net s)) buf (flags OR MSG_WAITALL)) (world t))
           (\<lambda>w. Inr (t\<lparr>stream := s, world := w\<rparr>, True)))"

definition read_functor :: "bool \<Rightarrow> addr \<Rightarrow> buffer \<Rightarrow> u64 \<Rightarrow> int \<Rightarrow> (transfer, int) stateful_functor" where
  "read_functor sqe ctx_ev data off flags =
     \<lparr>st_notify = transfer_notify, st_ready = transfer_ready data,
      st_suspend = read_suspend sqe ctx_ev data off flags\<rparr>"

definition read_resume :: "transfer \<Rightarrow> int \<times> tcp_stream" where
  "read_resume t =
     (if so_far t > 0 then so_far t else - 1, (stream t)\<lparr>net := clear_cancel (net (stream t))\<rparr>)"

definition write_suspend :: "bool \<Rightarrow> addr \<Rightarrow> buffer \<Rightarrow> u64 \<Rightarrow> int \<Rightarrow> transfer \<Rightarrow> (transfer \<times> bool) outcome" where
  "write_suspend sqe ctx_ev data off flags t =
     (let s = (stream t)\<lparr>write_cancel := ctx_ev\<rparr>;
          buf = (fst data + off + of_int (so_far t), transfer_amount (snd data) (so_far t) off)
      in bind_outcome
           (engine_io (net_engine (net s)) (send sqe ctx_ev (sd (net s)) buf flags) (world t))
           (\<lambda>w. Inr (t\<lparr>stream := s, world := w\<rparr>, True)))"

definition write_functor :: "bool \<Rightarrow> addr \<Rightarrow> buffer \<Rightarrow> u64 \<Rightarrow> int \<Rightarrow> (transfer, int) stateful_functor" where
  "write_functor sqe ctx_ev data off flags =
     \<lparr>st_notify = transfer_notify, st_ready = transfer_ready data,
      st_suspend = write_suspend sqe ctx_ev data off flags\<rparr>"

definition write_resume :: "transfer \<Rightarrow> int \<times> tcp_stream" where
  "write_resume t = (if so_far t > 0 then so_far t else - 1, (stream t)\<lparr>write_cancel := null\<rparr>)"

text \<open>The start of a transfer by the awaiter \<open>u\<close>, and what happens at each completion, until the awaiter is
  executed.  A request that finds the submission queue full is answered inside the call: the callback
  runs \<open>notify()\<close> with \<open>-ENOMEM\<close>.\<close>

definition notify_turn ::
    "bool \<Rightarrow> (transfer, int) stateful_functor \<Rightarrow> tagged_event \<Rightarrow> int \<Rightarrow> transfer \<Rightarrow> (transfer \<times> action list) outcome" where
  "notify_turn sqe f u r t =
     bind_outcome (notify 3 f u r t) (\<lambda>(t', acts).
       if acts = [] \<and> \<not> sqe then notify 3 f u (- ENOMEM) t' else Inr (t', acts))"

definition transfer_start ::
    "bool \<Rightarrow> (transfer, int) stateful_functor \<Rightarrow> tagged_event \<Rightarrow> transfer \<Rightarrow> (transfer \<times> action list) outcome" where
  "transfer_start sqe f u t =
     (let (t1, ready) = st_ready f t
      in if ready then bind_outcome (execute_event u) (\<lambda>acts. Inr (t1, acts))
         else bind_outcome (st_suspend f t1) (\<lambda>(t2, under_way).
           if \<not> under_way then bind_outcome (execute_event u) (\<lambda>acts. Inr (t2, acts))
           else if sqe then Inr (t2, []) else notify 3 f u (- ENOMEM) t2))"

fun transfer_run ::
    "(transfer, int) stateful_functor \<Rightarrow> tagged_event \<Rightarrow> int list \<Rightarrow> transfer \<Rightarrow> (transfer \<times> action list) outcome" where
  "transfer_run f u [] t = Inr (t, [])"
| "transfer_run f u (r # rs) t =
     bind_outcome (notify_turn True f u r t) (\<lambda>(t', acts).
       if acts = [] then transfer_run f u rs t' else Inr (t', acts))"

section \<open>Shutting down\<close>

text \<open>An awaited cancellation whose completion has the result \<open>r\<close>; it is ready at once, and its result 0,
  when nothing is pending.\<close>

definition await_cancel_read ::
    "addr \<Rightarrow> tagged_event \<Rightarrow> int \<Rightarrow> tcp_stream \<Rightarrow> net_world \<Rightarrow> (tcp_stream \<times> net_world) outcome" where
  "await_cancel_read ret h r s w =
     (if cancel_ready (cancel_token (net s)) then Inr (cancel_read_resume 0 s, w)
      else bind_outcome (cancel_read_suspend True ret h s w) (\<lambda>w'. Inr (cancel_read_resume r s, w')))"

definition await_cancel_write ::
    "addr \<Rightarrow> tagged_event \<Rightarrow> int \<Rightarrow> tcp_stream \<Rightarrow> net_world \<Rightarrow> (tcp_stream \<times> net_world) outcome" where
  "await_cancel_write ret h r s w =
     (if cancel_ready (write_cancel s) then Inr (cancel_write_resume 0 s, w)
      else bind_outcome (cancel_write_suspend True ret h s w) (\<lambda>w'. Inr (cancel_write_resume r s, w')))"

text \<open>The loop of \<open>shutdown()\<close> that empties the receive buffer: up to five reads of 1028 bytes, ended by a
  result that is not positive.  \<open>rs\<close> are the completions of the reads; when they run out the coroutine
  stays suspended in its last read (the bool is false).\<close>

fun deplete ::
    "nat \<Rightarrow> addr \<Rightarrow> tagged_event \<Rightarrow> addr \<Rightarrow> int list \<Rightarrow> tcp_stream \<Rightarrow> net_world \<Rightarrow> (bool \<times> tcp_stream \<times> net_world) outcome" where
  "deplete 0 ret h buf rs s w = Inr (True, s, w)"
| "deplete (Suc n) ret h buf rs s w =
     bind_outcome (read_some_suspend True ret h (buf, 1028) 0 0 s w) (\<lambda>(s1, w1).
       case rs of
         [] \<Rightarrow> Inr (False, s1, w1)
       | r # rs' \<Rightarrow>
           let (res, s2) = read_some_resume r s1
           in if res \<le> 0 then Inr (True, s2, w1) else deplete n ret h buf rs' s2 w1)"

definition shutdown ::
    "addr \<Rightarrow> tagged_event \<Rightarrow> addr \<Rightarrow> int \<Rightarrow> int \<Rightarrow> int \<Rightarrow> int list \<Rightarrow> tcp_stream \<Rightarrow> net_world \<Rightarrow> (bool \<times> tcp_stream \<times> net_world) outcome" where
  "shutdown ret h buf cr cw rc rs s w =
     bind_outcome (await_cancel_read ret h cr s w) (\<lambda>(s1, w1).
     bind_outcome (await_cancel_write ret h cw s1 w1) (\<lambda>(s2, w2).
       let w3 = sys (Sys_shutdown_wr (sd (net s2))) w2
       in if rc \<noteq> - 1 then deplete 5 ret h buf rs s2 w3 else Inr (True, s2, w3)))"

lemmas stream_defs [zab_defs] =
  stream_set_error_def set_error_def set_cancel_def clear_cancel_def transfer_notify_def transfer_ready_def

section \<open>What a transfer does\<close>

lemma sum_list_pos_iff:
  fixes rs :: "int list"
  assumes "\<forall>r \<in> set rs. 0 < r"
  shows "0 \<le> sum_list rs" and "(0 < sum_list rs) = (rs \<noteq> [])"
proof -
  show nonneg: "0 \<le> sum_list rs" using assms by (intro sum_list_nonneg) (simp add: less_imp_le)
  show "(0 < sum_list rs) = (rs \<noteq> [])" using assms
  proof (induction rs)
    case (Cons a rs)
    then show ?case by (cases rs) auto
  qed simp
qed

lemma resume_result:
  "0 < so_far t \<Longrightarrow> fst (read_resume t) = so_far t"
  "0 < so_far t \<Longrightarrow> fst (write_resume t) = so_far t"
  "cancel_token (net (snd (read_resume t))) = null"
  "write_cancel (snd (write_resume t)) = null"
  by (simp_all add: read_resume_def write_resume_def clear_cancel_def)

text \<open>
  The contract that \<open>read\<close> and \<open>write\<close> share: a positive completion is added to the count, any other ends
  the transfer, which is complete when the count is \<open>total\<close>; each suspension issues the request \<open>req\<close> for
  the bytes from the count on.
\<close>

definition requests :: "transfer \<Rightarrow> (uring_op \<times> addr) list" where
  "requests t = sq (loop (nio (world t)))"

definition usable :: "int \<Rightarrow> transfer \<Rightarrow> bool" where
  "usable fd t \<longleftrightarrow> net_engine (net (stream t)) \<noteq> null \<and> sd (net (stream t)) = fd"

fun requests_at :: "(int \<Rightarrow> uring_op \<times> addr) \<Rightarrow> int \<Rightarrow> int list \<Rightarrow> (uring_op \<times> addr) list" where
  "requests_at req k [] = []"
| "requests_at req k (r # rs) = req (k + r) # requests_at req (k + r) rs"

locale stream_transfer =
  fixes f :: "(transfer, int) stateful_functor" and req :: "int \<Rightarrow> uring_op \<times> addr"
    and total :: int and fd :: int
  assumes notified: "st_notify f = transfer_notify"
    and readiness: "st_ready f t = (t, so_far t = total)"
    and suspension: "usable fd t \<Longrightarrow>
      \<exists>t'. st_suspend f t = Inr (t', True) \<and> so_far t' = so_far t \<and> usable fd t' \<and>
        last_err (net (stream t')) = last_err (net (stream t)) \<and>
        requests t' = requests t @ [req (so_far t)]"
begin

lemma turn_progress:
  assumes "usable fd t" and "0 < r" and "so_far t + r \<noteq> total"
  shows "\<exists>t'. notify_turn True f u r t = Inr (t', []) \<and> so_far t' = so_far t + r \<and> usable fd t' \<and>
    last_err (net (stream t')) = last_err (net (stream t)) \<and> requests t' = requests t @ [req (so_far t + r)]"
proof -
  let ?t = "t\<lparr>so_far := so_far t + r\<rparr>"
  have "usable fd ?t" using assms(1) by (simp add: usable_def)
  from suspension [OF this] obtain t' where "st_suspend f ?t = Inr (t', True)" "so_far t' = so_far t + r"
    "usable fd t'" "last_err (net (stream t')) = last_err (net (stream t))" "requests t' = requests t @ [req (so_far t + r)]"
    by (auto simp: requests_def)
  then show ?thesis using assms(2,3)
    by (simp add: notify_turn_def notify_def notified readiness transfer_notify_def numeral_3_eq_3)
qed

lemma turn_complete:
  assumes "0 < r" and "so_far t + r = total" and "co \<noteq> 0"
  shows "notify_turn True f (Coroutine_alt co) r t = Inr (t\<lparr>so_far := total\<rparr>, [Resume co])"
  using assms
  by (simp add: notify_turn_def notify_def notified readiness transfer_notify_def numeral_3_eq_3 event_defs)

lemma turn_failed:
  assumes "r \<le> 0" and "co \<noteq> 0"
  shows "notify_turn True f (Coroutine_alt co) r t =
    Inr (t\<lparr>stream := stream_set_error (- r) (stream t)\<rparr>, [Resume co])"
  using assms
  by (simp add: notify_turn_def notify_def notified transfer_notify_def numeral_3_eq_3 event_defs)

text \<open>Positive completions that do not reach the total leave the transfer under way.\<close>

lemma run_under_way:
  assumes "usable fd t" and "\<forall>r \<in> set rs. 0 < r" and "so_far t + sum_list rs < total"
  shows "\<exists>t'. transfer_run f u (rs @ qs) t = transfer_run f u qs t' \<and> so_far t' = so_far t + sum_list rs \<and>
    usable fd t' \<and> last_err (net (stream t')) = last_err (net (stream t)) \<and>
    requests t' = requests t @ requests_at req (so_far t) rs"
  using assms
proof (induction rs arbitrary: t)
  case (Cons r rs)
  have "0 \<le> sum_list rs" using Cons.prems(2) by (simp add: sum_list_pos_iff)
  then have "so_far t + r \<noteq> total" using Cons.prems(3) by simp
  with Cons.prems obtain t1 where t1: "notify_turn True f u r t = Inr (t1, [])" "so_far t1 = so_far t + r"
    "usable fd t1" "last_err (net (stream t1)) = last_err (net (stream t))" "requests t1 = requests t @ [req (so_far t + r)]"
    using turn_progress [of t r u] by auto
  with Cons.prems Cons.IH [of t1] show ?case by (auto simp: add.assoc)
qed auto

lemma run_complete:
  assumes "usable fd t" and "\<forall>r \<in> set rs. 0 < r" and "rs \<noteq> []" and "so_far t + sum_list rs = total" and "co \<noteq> 0"
  shows "\<exists>t'. transfer_run f (Coroutine_alt co) rs t = Inr (t', [Resume co]) \<and> so_far t' = total \<and> usable fd t' \<and>
    last_err (net (stream t')) = last_err (net (stream t)) \<and>
    requests t' = requests t @ requests_at req (so_far t) (butlast rs)"
proof -
  obtain ps r where rs: "rs = ps @ [r]" using assms(3) by (cases rs rule: rev_cases) auto
  with assms have "0 < r" "so_far t + sum_list ps < total" "\<forall>r \<in> set ps. 0 < r" by auto
  with assms(1) obtain t1 where t1: "transfer_run f (Coroutine_alt co) rs t = transfer_run f (Coroutine_alt co) [r] t1"
    "so_far t1 = so_far t + sum_list ps" "last_err (net (stream t1)) = last_err (net (stream t))"
    "requests t1 = requests t @ requests_at req (so_far t) ps" "usable fd t1"
    using run_under_way [of t ps "Coroutine_alt co" "[r]"] rs by auto
  have "so_far t1 + r = total" using assms(4) t1(2) rs by simp
  from turn_complete [OF \<open>0 < r\<close> this assms(5)] show ?thesis
    using t1 rs by (simp add: requests_def usable_def)
qed

text \<open>A whole transfer: its start and the completions up to the total.\<close>

lemma start_and_complete:
  assumes "usable fd t" and "so_far t = 0" and "\<forall>r \<in> set rs. 0 < r" and "sum_list rs = total" and "0 < total" and "co \<noteq> 0"
  shows "\<exists>t1 t2. transfer_start True f (Coroutine_alt co) t = Inr (t1, []) \<and>
    transfer_run f (Coroutine_alt co) rs t1 = Inr (t2, [Resume co]) \<and> so_far t2 = total \<and>
    usable fd t2 \<and> last_err (net (stream t2)) = last_err (net (stream t)) \<and>
    requests t2 = requests t @ req 0 # requests_at req 0 (butlast rs)"
proof -
  obtain t1 where t1: "st_suspend f t = Inr (t1, True)" "so_far t1 = 0" "usable fd t1"
    "requests t1 = requests t @ [req 0]" "last_err (net (stream t1)) = last_err (net (stream t))"
    using suspension [OF assms(1)] assms(2) by auto
  have "transfer_start True f (Coroutine_alt co) t = Inr (t1, [])"
    using t1(1) assms(2,5) by (simp add: transfer_start_def readiness)
  moreover have "rs \<noteq> []" using assms(4,5) by auto
  ultimately show ?thesis
    using run_complete [OF t1(3) assms(3) _ _ assms(6)] t1 assms(4) by auto
qed

lemma run_failed:
  assumes "usable fd t" and "\<forall>r \<in> set rs. 0 < r" and "so_far t + sum_list rs < total" and "r \<le> 0" and "co \<noteq> 0"
  shows "\<exists>t'. transfer_run f (Coroutine_alt co) (rs @ [r]) t = Inr (t', [Resume co]) \<and>
    so_far t' = so_far t + sum_list rs \<and> last_err (net (stream t')) = - r"
proof -
  obtain t1 where "transfer_run f (Coroutine_alt co) (rs @ [r]) t = transfer_run f (Coroutine_alt co) [r] t1"
    "so_far t1 = so_far t + sum_list rs"
    using run_under_way [OF assms(1-3), of "Coroutine_alt co" "[r]"] by auto
  with turn_failed [OF assms(4,5), of t1] show ?thesis by (simp add: stream_defs)
qed

end

definition read_request :: "addr \<Rightarrow> int \<Rightarrow> buffer \<Rightarrow> u64 \<Rightarrow> int \<Rightarrow> int \<Rightarrow> uring_op \<times> addr" where
  "read_request ctx_ev fd data off flags k =
     (Prep_recv fd (fst data + of_int k + off, transfer_amount (snd data) k off) (flags OR MSG_WAITALL), ctx_ev)"

definition write_request :: "addr \<Rightarrow> int \<Rightarrow> buffer \<Rightarrow> u64 \<Rightarrow> int \<Rightarrow> int \<Rightarrow> uring_op \<times> addr" where
  "write_request ctx_ev fd data off flags k =
     (Prep_send fd (fst data + off + of_int k, transfer_amount (snd data) k off) flags, ctx_ev)"

interpretation rd: stream_transfer "read_functor True c data off flags" "read_request c fd data off flags"
    "sint (snd data)" fd
  by unfold_locales
    (auto simp: read_functor_def transfer_ready_def read_suspend_def usable_def net_defs stream_defs
      recv_def do_op_impl_def requests_def read_request_def Let_def)

interpretation wr: stream_transfer "write_functor True c data off flags" "write_request c fd data off flags"
    "sint (snd data)" fd
  by unfold_locales
    (auto simp: write_functor_def transfer_ready_def write_suspend_def usable_def net_defs stream_defs
      send_def do_op_impl_def requests_def write_request_def Let_def)

section \<open>Properties\<close>

text \<open>C33: \<open>read\<close> into a span: its first request asks for the whole span, and each further one, after \<open>k\<close>
  bytes have arrived, for the rest of the span from byte \<open>k\<close> on.  However the bytes are split over the
  completions, the awaiter is resumed exactly once, by the completion that fills the span, and gets the
  size of the span.\<close>

theorem read_completes:
  assumes "usable fd t" and "so_far t = 0" and "\<forall>r \<in> set rs. 0 < r"
    and "sum_list rs = sint (snd data)" and "0 < sint (snd data)" and "co \<noteq> 0"
  shows "\<exists>t1 t2. transfer_start True (read_functor True c data 0 flags) (Coroutine_alt co) t = Inr (t1, []) \<and>
    transfer_run (read_functor True c data 0 flags) (Coroutine_alt co) rs t1 = Inr (t2, [Resume co]) \<and>
    fst (read_resume t2) = sint (snd data) \<and> cancel_token (net (snd (read_resume t2))) = null \<and>
    requests t2 = requests t @ read_request c fd data 0 flags 0 #
      requests_at (read_request c fd data 0 flags) 0 (butlast rs)"
  using rd.start_and_complete [of fd t rs data co c 0 flags] assms
  by (metis resume_result(1,3))

text \<open>The same for \<open>write\<close>: every byte of the span is sent exactly once and in order, whatever part of a
  request the kernel accepts, and the awaiter is resumed once, with the size of the span.\<close>

theorem write_completes:
  assumes "usable fd t" and "so_far t = 0" and "\<forall>r \<in> set rs. 0 < r"
    and "sum_list rs = sint (snd data)" and "0 < sint (snd data)" and "co \<noteq> 0"
  shows "\<exists>t1 t2. transfer_start True (write_functor True c data 0 flags) (Coroutine_alt co) t = Inr (t1, []) \<and>
    transfer_run (write_functor True c data 0 flags) (Coroutine_alt co) rs t1 = Inr (t2, [Resume co]) \<and>
    fst (write_resume t2) = sint (snd data) \<and> write_cancel (snd (write_resume t2)) = null \<and>
    requests t2 = requests t @ write_request c fd data 0 flags 0 #
      requests_at (write_request c fd data 0 flags) 0 (butlast rs)"
  using wr.start_and_complete [of fd t rs data co c 0 flags] assms
  by (metis resume_result(2,4))

text \<open>C34: A completion that is zero or an error ends a \<open>read\<close> or \<open>write\<close>: the awaiter is resumed once, the
  error is recorded, and the result is the number of bytes transferred before it, or \<open>-1\<close> if there were
  none.\<close>

theorem transfer_error:
  assumes "usable fd t" and "so_far t = 0" and "\<forall>r \<in> set rs. 0 < r"
    and "sum_list rs < sint (snd data)" and "r \<le> 0" and "co \<noteq> 0"
  shows "(\<exists>t'. transfer_run (read_functor True c data off flags) (Coroutine_alt co) (rs @ [r]) t = Inr (t', [Resume co]) \<and>
      fst (read_resume t') = (if rs = [] then - 1 else sum_list rs) \<and>
      last_err (net (snd (read_resume t'))) = - r) \<and>
    (\<exists>t'. transfer_run (write_functor True c data off flags) (Coroutine_alt co) (rs @ [r]) t = Inr (t', [Resume co]) \<and>
      fst (write_resume t') = (if rs = [] then - 1 else sum_list rs) \<and>
      last_err (net (snd (write_resume t'))) = - r)"
proof -
  note pos = sum_list_pos_iff [OF assms(3)]
  have lt: "so_far t + sum_list rs < sint (snd data)" using assms(2,4) by simp
  have "fst (read_resume t') = (if rs = [] then - 1 else sum_list rs)"
    "fst (write_resume t') = (if rs = [] then - 1 else sum_list rs)"
    "last_err (net (snd (read_resume t'))) = last_err (net (stream t'))"
    "last_err (net (snd (write_resume t'))) = last_err (net (stream t'))"
    if "so_far t' = so_far t + sum_list rs" for t'
    using that pos(2) assms(2) by (auto simp: read_resume_def write_resume_def clear_cancel_def)
  then show ?thesis
    using rd.run_failed [OF assms(1,3) lt assms(5,6), of c off flags]
      wr.run_failed [OF assms(1,3) lt assms(5,6), of c off flags]
    by metis
qed

lemma unat_min_diff:
  fixes n m c :: u64
  assumes "m \<le> n"
  shows "unat m + unat (min (n - m) c) \<le> unat n"
proof -
  have "unat (min (n - m) c) \<le> unat (n - m)" by (simp add: word_le_nat_alt [symmetric])
  then show ?thesis using assms by (simp add: unat_sub word_le_nat_alt)
qed


text \<open>\<open>read\<close> with an offset does not notice that it is complete: the count is compared with the size of the
  whole span, so when all the bytes after the offset have arrived, the awaiter is not resumed but an
  empty receive is requested.\<close>

theorem read_offset_requests_empty_receive:
  assumes "usable fd t" and "0 < off" and "off \<le> snd data" and "unat (snd data) < 2 ^ 63"
    and "0 < r" and "so_far t + r = int (unat (snd data)) - int (unat off)"
  shows "\<exists>t'. notify_turn True (read_functor True c data off flags) u r t = Inr (t', []) \<and>
    requests t' = requests t @ [(Prep_recv fd (fst data + snd data, 0) (flags OR MSG_WAITALL), c)]"
proof -
  have sint: "sint (snd data) = int (unat (snd data))"
    using assms(4) by (simp add: sint_uint uint_nat signed_take_bit_int_eq_self del: of_nat_unat)
  have "0 < unat off" using assms(2) by (simp add: word_less_nat_alt)
  then have ne: "so_far t + r \<noteq> sint (snd data)" using assms(6) sint by linarith
  have "of_int (so_far t + r) = snd data - off"
    using assms(6) by simp
  then have "read_request c fd data off flags (so_far t + r) =
      (Prep_recv fd (fst data + snd data, 0) (flags OR MSG_WAITALL), c)"
    by (simp add: read_request_def transfer_amount_def)
  then show ?thesis using rd.turn_progress [OF assms(1,5) ne, of c off flags u] by auto
qed

lemma read_some_spec:
  assumes "net_engine (net s) \<noteq> null"
  shows "\<exists>w'. read_some_suspend True ret h data off flags s w = Inr (s\<lparr>net := set_cancel ret (net s)\<rparr>, w') \<and>
    length (sq (loop (nio w'))) = Suc (length (sq (loop (nio w))))"
  using assms
  by (simp add: read_some_suspend_def net_defs stream_defs recv_await_def io_suspend_def recv_def do_op_impl_def Let_def)

lemma deplete_spec:
  assumes "net_engine (net s) \<noteq> null"
  shows "\<exists>fin s' w'. deplete n ret h buf rs s w = Inr (fin, s', w') \<and>
    length (sq (loop (nio w'))) \<le> length (sq (loop (nio w))) + n \<and>
    (n \<le> length rs \<or> (\<exists>r \<in> set rs. r \<le> 0) \<longrightarrow> fin) \<and>
    (fin \<longrightarrow> 0 < n \<longrightarrow> cancel_token (net s') = null) \<and> write_cancel s' = write_cancel s"
  using assms
proof (induction n arbitrary: rs s w)
  case (Suc n)
  let ?s = "s\<lparr>net := set_cancel ret (net s)\<rparr>"
  obtain w1 where w1: "read_some_suspend True ret h (buf, 1028) 0 0 s w = Inr (?s, w1)"
    "length (sq (loop (nio w1))) = Suc (length (sq (loop (nio w))))"
    using read_some_spec [OF Suc.prems, of ret h "(buf, 1028)" 0 0 w] by blast
  show ?case
  proof (cases rs)
    case Nil
    with w1 show ?thesis by auto
  next
    case (Cons r rs')
    let ?s2 = "s\<lparr>net := clear_cancel (set_cancel ret (net s))\<rparr>"
    show ?thesis
    proof (cases "0 < r")
      case True
      have "net_engine (net ?s2) \<noteq> null" using Suc.prems by (simp add: stream_defs)
      from Suc.IH [OF this, of rs' w1] obtain fin s' w' where
        "deplete n ret h buf rs' ?s2 w1 = Inr (fin, s', w')"
        "length (sq (loop (nio w'))) \<le> length (sq (loop (nio w1))) + n"
        "n \<le> length rs' \<or> (\<exists>r \<in> set rs'. r \<le> 0) \<longrightarrow> fin"
        "fin \<longrightarrow> 0 < n \<longrightarrow> cancel_token (net s') = null" "write_cancel s' = write_cancel s" by auto
      moreover have "n = 0 \<Longrightarrow> cancel_token (net ?s2) = null" by (simp add: stream_defs)
      ultimately show ?thesis using w1 Cons True
        by (cases n) (auto simp: read_some_resume_def)
    next
      case False
      with w1 Cons show ?thesis by (auto simp: read_some_resume_def stream_defs)
    qed
  qed
qed auto

lemma await_cancel_spec:
  assumes "net_engine (net s) \<noteq> null"
  shows "\<exists>w'. await_cancel_read ret h r s w = Inr (cancel_read_resume (if cancel_token (net s) = null then 0 else r) s, w') \<and>
      length (sq (loop (nio w'))) \<le> Suc (length (sq (loop (nio w))))"
    and "\<exists>w'. await_cancel_write ret h r s w = Inr (cancel_write_resume (if write_cancel s = null then 0 else r) s, w') \<and>
      length (sq (loop (nio w'))) \<le> Suc (length (sq (loop (nio w))))"
  using assms
  by (simp_all add: await_cancel_read_def await_cancel_write_def cancel_ready_def cancel_read_suspend_def
      cancel_write_suspend_def cancel_suspend_def net_defs cancel_event_def)

lemma shutdown_returns:
  assumes "net_engine (net s) \<noteq> null"
  shows "\<exists>fin s' w'. shutdown ret h buf cr cw rc rs s w = Inr (fin, s', w') \<and>
    length (sq (loop (nio w'))) \<le> length (sq (loop (nio w))) + 7 \<and>
    (rc = - 1 \<or> 5 \<le> length rs \<or> (\<exists>r \<in> set rs. r \<le> 0) \<longrightarrow> fin) \<and>
    (fin \<longrightarrow> cr \<noteq> - ENOMEM \<longrightarrow> cw \<noteq> - ENOMEM \<longrightarrow> cancel_token (net s') = null \<and> write_cancel s' = null)"
proof -
  let ?s1 = "cancel_read_resume (if cancel_token (net s) = null then 0 else cr) s"
  let ?s2 = "cancel_write_resume (if write_cancel ?s1 = null then 0 else cw) ?s1"
  have e1: "net_engine (net ?s1) \<noteq> null" using assms by (simp add: cancel_read_resume_def stream_defs)
  have e2: "net_engine (net ?s2) \<noteq> null" using e1 by (simp add: cancel_write_resume_def)
  obtain w1 where w1: "await_cancel_read ret h cr s w = Inr (?s1, w1)"
      "length (sq (loop (nio w1))) \<le> Suc (length (sq (loop (nio w))))"
    using await_cancel_spec(1) [OF assms] by blast
  obtain w2 where w2: "await_cancel_write ret h cw ?s1 w1 = Inr (?s2, w2)"
      "length (sq (loop (nio w2))) \<le> Suc (length (sq (loop (nio w1))))"
    using await_cancel_spec(2) [OF e1] by blast
  have tok: "cancel_token (net ?s2) = null" if "cr \<noteq> - ENOMEM"
    using that by (auto simp: cancel_read_resume_def cancel_write_resume_def cancel_code_def stream_defs ENOMEM_def ENOENT_def EALREADY_def)
  have wtok: "write_cancel ?s2 = null" if "cw \<noteq> - ENOMEM"
    using that by (auto simp: cancel_write_resume_def cancel_code_def stream_defs ENOMEM_def ENOENT_def EALREADY_def)
  let ?w3 = "sys (Sys_shutdown_wr (sd (net ?s2))) w2"
  have len: "length (sq (loop (nio ?w3))) \<le> length (sq (loop (nio w))) + 2"
    using w1(2) w2(2) by (simp add: sys_def)
  show ?thesis
  proof (cases "rc = - 1")
    case True
    have "shutdown ret h buf cr cw rc rs s w = Inr (True, ?s2, ?w3)"
      using True by (simp only: shutdown_def w1(1) w2(1) bind_outcome.simps prod.case Let_def) simp
    with len tok wtok show ?thesis by auto
  next
    case False
    have sd: "shutdown ret h buf cr cw rc rs s w = deplete 5 ret h buf rs ?s2 ?w3"
      using False by (simp only: shutdown_def w1(1) w2(1) bind_outcome.simps prod.case Let_def) simp
    obtain fin s' w' where "deplete 5 ret h buf rs ?s2 ?w3 = Inr (fin, s', w')"
      "length (sq (loop (nio w'))) \<le> length (sq (loop (nio ?w3))) + 5"
      "5 \<le> length rs \<or> (\<exists>r \<in> set rs. r \<le> 0) \<longrightarrow> fin"
      "fin \<longrightarrow> cancel_token (net s') = null" "write_cancel s' = write_cancel ?s2"
      using deplete_spec [OF e2, of 5 ret h buf rs ?w3] by auto
    then show ?thesis using False len wtok unfolding sd by (intro exI [of _ fin] exI [of _ s'] exI [of _ w']) auto
  qed
qed

text \<open>\<open>shutdown()\<close> ends whatever the peer does: it makes at most two cancellations and five reads, and
  once five reads, or one that returns no data, have completed it is finished and no operation of the
  stream is pending (unless a cancellation could not be requested).\<close>

theorem shutdown_ends:
  assumes "net_engine (net s) \<noteq> null"
  shows "\<exists>fin s' w'. shutdown ret h buf cr cw rc rs s w = Inr (fin, s', w') \<and>
    length (sq (loop (nio w'))) \<le> length (sq (loop (nio w))) + 7 \<and>
    (rc = - 1 \<or> 5 \<le> length rs \<or> (\<exists>r \<in> set rs. r \<le> 0) \<longrightarrow> fin) \<and>
    (fin \<longrightarrow> cr \<noteq> - ENOMEM \<longrightarrow> cw \<noteq> - ENOMEM \<longrightarrow> cancel_token (net s') = null \<and> write_cancel s' = null)"
  using assms by (rule shutdown_returns)

text \<open>A transfer that finds the submission queue full is over at once: the awaiter is resumed with \<open>-1\<close> and
  the error \<open>ENOMEM\<close>, and nothing was requested.\<close>

theorem read_full_queue:
  assumes "usable fd t" and "so_far t = 0" and "sint (snd data) \<noteq> 0" and "c \<noteq> null" and "co \<noteq> 0"
    and "ios (nio (world t)) c = Some \<lparr>handle = Event_alt \<lparr>cb = Cb_user k, ctx = a\<rparr>, result = x\<rparr>"
  shows "\<exists>t'. transfer_start False (read_functor False c data off flags) (Coroutine_alt co) t = Inr (t', [Resume co]) \<and>
    fst (read_resume t') = - 1 \<and> last_err (net (snd (read_resume t'))) = ENOMEM \<and> requests t' = requests t"
  using assms
  by (simp add: transfer_start_def read_functor_def read_suspend_def stream_defs usable_def net_defs recv_def
      do_op_impl_def fail_no_sqe_def run_handle_def Let_def notify_def numeral_3_eq_3 event_defs ENOMEM_def
      read_resume_def requests_def del: bind_outcome_eq_Inr)

section \<open>Witnesses\<close>

definition demo_transfer :: transfer where
  "demo_transfer = \<lparr>stream = make_tcp_stream 8 4, world = demo_world, so_far = 0\<rparr>"

lemma demo_transfer_usable: "usable 4 demo_transfer" "so_far demo_transfer = 0" "requests demo_transfer = []"
  by (simp_all add: usable_def demo_transfer_def make_tcp_stream_def make_network_operation_def requests_def
      demo_world_def init_event_loop_def)

theorem read_completes_witness:
  "\<exists>t1 t2. transfer_start True (read_functor True 16 (4096, 10) 0 0) (Coroutine_alt 32) demo_transfer = Inr (t1, []) \<and>
    transfer_run (read_functor True 16 (4096, 10) 0 0) (Coroutine_alt 32) [3, 7] t1 = Inr (t2, [Resume 32]) \<and>
    fst (read_resume t2) = 10 \<and>
    requests t2 = [(Prep_recv 4 (4096, 10) 256, 16), (Prep_recv 4 (4099, 7) 256, 16)]"
  using read_completes [OF demo_transfer_usable(1,2), of "[3, 7]" "(4096, 10)" 32 16 0] demo_transfer_usable(3)
  by (auto simp: read_request_def transfer_amount_def kMaxRead_def MSG_WAITALL_def
      simp del: transfer_run.simps bind_outcome_eq_Inr)

theorem write_completes_witness:
  "\<exists>t1 t2. transfer_start True (write_functor True 16 (4096, 10) 0 0) (Coroutine_alt 32) demo_transfer = Inr (t1, []) \<and>
    transfer_run (write_functor True 16 (4096, 10) 0 0) (Coroutine_alt 32) [4, 6] t1 = Inr (t2, [Resume 32]) \<and>
    fst (write_resume t2) = 10 \<and>
    requests t2 = [(Prep_send 4 (4096, 10) 0, 16), (Prep_send 4 (4100, 6) 0, 16)]"
  using write_completes [OF demo_transfer_usable(1,2), of "[4, 6]" "(4096, 10)" 32 16 0] demo_transfer_usable(3)
  by (auto simp: write_request_def transfer_amount_def kMaxRead_def
      simp del: transfer_run.simps bind_outcome_eq_Inr)

theorem transfer_error_witness:
  "\<exists>t'. transfer_run (read_functor True 16 (4096, 10) 0 0) (Coroutine_alt 32) ([3] @ [- 104]) demo_transfer = Inr (t', [Resume 32]) \<and>
    fst (read_resume t') = 3 \<and> last_err (net (snd (read_resume t'))) = 104"
  using transfer_error [OF demo_transfer_usable(1,2), of "[3]" "(4096, 10)" "- 104" 32 16 0 0]
  by (simp del: append.simps transfer_run.simps)


theorem read_offset_requests_empty_receive_witness:
  "\<exists>t'. notify_turn True (read_functor True 16 (4096, 10) 4 0) (Coroutine_alt 32) 6 demo_transfer = Inr (t', []) \<and>
    requests t' = [(Prep_recv 4 (4106, 0) 256, 16)]"
  using read_offset_requests_empty_receive [OF demo_transfer_usable(1), of 4 "(4096, 10)" 6 16 0 "Coroutine_alt 32"]
    demo_transfer_usable(2,3) by (simp add: MSG_WAITALL_def)

theorem shutdown_ends_witness:
  "\<exists>s' w'. shutdown 16 (Coroutine_alt 32) 4096 0 0 0 [20, 0] (make_tcp_stream 8 4) demo_world = Inr (True, s', w') \<and>
    cancel_token (net s') = null"
  using shutdown_ends [of "make_tcp_stream 8 4" 16 "Coroutine_alt 32" 4096 0 0 0 "[20, 0]" demo_world]
  by (auto simp: make_tcp_stream_def make_network_operation_def ENOMEM_def simp del: bind_outcome_eq_Inr)

end
