(* ===== verification/Tcp_Networking.thy ===== *)
theory Tcp_Networking
  imports Tcp_Stream
begin

text \<open>
  \<open>includes/zab/tcp_networking.hpp\<close> and \<open>src/tcp_networking.cpp\<close>: accepting connections and connecting.
  The answers of the socket calls, and \<open>errno\<close> after a failing one, are arguments; the calls themselves
  are recorded in \<open>syscalls\<close>.
\<close>

section \<open>Listening\<close>

definition AF_INET :: int where "AF_INET = 2"
definition AF_INET6 :: int where "AF_INET6 = 10"
definition EINVAL :: int where "EINVAL = 22"
definition SOCK_STREAM :: int where "SOCK_STREAM = 1"
definition SOCK_CLOEXEC :: int where "SOCK_CLOEXEC = 524288"

definition htons :: "u16 \<Rightarrow> u16" where
  "htons p = (push_bit 8 p OR drop_bit 8 p)"

record socket_answers =
  socket_rc :: int
  reuse_rc :: int
  bind_rc :: int
  listen_rc :: int
  errno :: int

definition make_tcp_acceptor :: "addr \<Rightarrow> network_operation" where
  "make_tcp_acceptor eng = make_network_operation eng kNoDescriptor"

definition swap_tcp_acceptor :: "network_operation \<Rightarrow> network_operation \<Rightarrow> network_operation \<times> network_operation" where
  "swap_tcp_acceptor a b = swap_network_operation a b"

text \<open>The address that \<open>listen\<close> binds to: the family and the port in network byte order, any address.\<close>

definition listen_address :: "int \<Rightarrow> u16 \<Rightarrow> (int \<times> u16) option" where
  "listen_address family port =
     (if family = AF_INET then Some (AF_INET, port)
      else if family = AF_INET6 then Some (AF_INET6, port)
      else None)"

definition listen_socket ::
    "background \<Rightarrow> int \<Rightarrow> socket_answers \<Rightarrow> network_operation \<Rightarrow> net_world \<Rightarrow> (bool \<times> network_operation \<times> net_world) outcome" where
  "listen_socket bl family ans op w =
     (if sd op < 0 then
        let w1 = sys (Sys_socket family (SOCK_STREAM OR SOCK_CLOEXEC) 0) w
        in if socket_rc ans < 0 then Inr (False, set_error (errno ans) op, w1)
           else bind_outcome (set_descriptor bl (socket_rc ans) op w1) (\<lambda>(op1, w2). Inr (True, op1, w2))
      else Inr (True, op, w))"

definition listen_bind ::
    "int \<Rightarrow> u16 \<Rightarrow> int \<Rightarrow> socket_answers \<Rightarrow> network_operation \<Rightarrow> net_world \<Rightarrow> bool \<times> network_operation \<times> net_world" where
  "listen_bind family port backlog ans op w =
     (case listen_address family port of
        None \<Rightarrow> (False, set_error EINVAL op, w)
      | Some (fam, p) \<Rightarrow>
          let w1 = sys (Sys_bind (sd op) fam p) w
          in if bind_rc ans \<noteq> 0 then (False, set_error (errno ans) op, w1)
             else let w2 = sys (Sys_listen (sd op) backlog) w1
                  in if listen_rc ans \<noteq> 0 then (False, set_error (errno ans) op, w2) else (True, op, w2))"

definition listen ::
    "background \<Rightarrow> int \<Rightarrow> u16 \<Rightarrow> int \<Rightarrow> socket_answers \<Rightarrow> network_operation \<Rightarrow> net_world \<Rightarrow>
     (bool \<times> network_operation \<times> net_world) outcome" where
  "listen bl family port backlog ans op w =
     bind_outcome (listen_socket bl family ans op w) (\<lambda>(has_socket, op1, w1).
       if \<not> has_socket then Inr (False, op1, w1)
       else let w2 = sys (Sys_reuse_address (sd op1)) w1
            in if reuse_rc ans \<noteq> 0 then Inr (False, set_error (errno ans) op1, w2)
               else Inr (listen_bind family (htons port) backlog ans op1 w2))"

section \<open>Accepting\<close>

text \<open>\<open>accept\<close> begins with \<open>memset(&_address, 0, sizeof(_address))\<close>, which clears the pointer it was given,
  not the address it points to.\<close>

definition accept_suspend ::
    "bool \<Rightarrow> addr \<Rightarrow> tagged_event \<Rightarrow> addr \<Rightarrow> addr \<Rightarrow> int \<Rightarrow> network_operation \<Rightarrow> net_world \<Rightarrow> (network_operation \<times> net_world) outcome" where
  "accept_suspend sqe ret h address len flags op w =
     (let address = null; op1 = set_cancel ret op
      in bind_outcome (engine_io (net_engine op1) (accept_await sqe ret h null (sd op1) address len flags) w)
           (\<lambda>w'. Inr (op1, w')))"

definition accept_resume :: "int \<Rightarrow> network_operation \<Rightarrow> tcp_stream option \<times> network_operation" where
  "accept_resume r op =
     (let op1 = set_cancel null op
      in if r \<ge> 0 then (Some (make_tcp_stream (net_engine op1) r), op1)
         else (None, set_error (- r) op1))"

section \<open>Connecting\<close>

text \<open>The part of \<open>tcp_connect\<close> that runs at the call: the operation that the awaitable owns.\<close>

definition tcp_connect :: "background \<Rightarrow> addr \<Rightarrow> int \<Rightarrow> int \<Rightarrow> int \<Rightarrow> int \<Rightarrow> net_world \<Rightarrow> (network_operation \<times> net_world) outcome" where
  "tcp_connect bl eng family sock_flags sock_rc err w =
     (let op = make_network_operation eng kNoDescriptor;
          w1 = sys (Sys_socket family (SOCK_STREAM OR sock_flags) 0) w
      in bind_outcome
           (if sock_rc \<ge> 0 then set_descriptor bl sock_rc op w1 else Inr (set_error err op, w1))
           (\<lambda>(op1, w2). let (op2, moved) = move_network_operation op1 in Inr (op2, w2)))"

definition connect_ready :: "network_operation \<Rightarrow> bool" where
  "connect_ready op \<longleftrightarrow> peek_error op \<noteq> 0"

definition connect_suspend ::
    "bool \<Rightarrow> addr \<Rightarrow> tagged_event \<Rightarrow> addr \<Rightarrow> addr \<Rightarrow> int \<Rightarrow> network_operation \<Rightarrow> net_world \<Rightarrow> net_world outcome" where
  "connect_suspend sqe ret h ct details len op w =
     engine_io (net_engine op) (connect_await sqe ret h ct (sd op) details len) w"

definition connect_resume :: "int \<Rightarrow> network_operation \<Rightarrow> tcp_stream \<times> network_operation" where
  "connect_resume r op =
     (let op1 = set_cancel null op
      in if r = 0 then (make_tcp_stream (net_engine op1) (sd op1), clear_descriptor op1)
         else (stream_set_error (- r) (make_tcp_stream (net_engine op1) kNoDescriptor), op1))"

section \<open>Properties\<close>

lemmas networking_defs =
  set_cancel_def set_error_def clear_descriptor_def make_tcp_stream_def stream_set_error_def net_defs

lemma htons_involution: "htons (htons p) = p"
proof (rule bit_eqI)
  fix n
  assume "possible_bit TYPE(16 word) n"
  then show "bit (htons (htons p)) n = bit p n"
    by (auto simp: htons_def bit_simps possible_bit_word)
qed

lemma listen_new_socket:
  assumes "sd op = kNoDescriptor"
  shows "listen_socket bl family ans op w =
    Inr (0 \<le> socket_rc ans,
         if 0 \<le> socket_rc ans then op\<lparr>sd := socket_rc ans\<rparr> else set_error (errno ans) op,
         sys (Sys_socket family (SOCK_STREAM OR SOCK_CLOEXEC) 0) w)"
  using assms by (simp add: listen_socket_def set_descriptor_def kNoDescriptor_def)

text \<open>\<open>listen\<close> succeeds exactly when the family is known and every system call succeeds; then it has made
  the calls socket, setsockopt, bind and listen in this order on the one new descriptor, which the acceptor
  owns, with the port in network byte order.  Otherwise the error of the failing step is recorded.\<close>

theorem listen_spec:
  assumes "sd op = kNoDescriptor"
  shows "\<exists>ok op' w'. listen bl family port backlog ans op w = Inr (ok, op', w') \<and>
    (ok \<longleftrightarrow> 0 \<le> socket_rc ans \<and> reuse_rc ans = 0 \<and> (family = AF_INET \<or> family = AF_INET6) \<and>
       bind_rc ans = 0 \<and> listen_rc ans = 0) \<and>
    (ok \<longrightarrow> op' = op\<lparr>sd := socket_rc ans\<rparr> \<and>
       syscalls w' = syscalls w @ [Sys_socket family (SOCK_STREAM OR SOCK_CLOEXEC) 0, Sys_reuse_address (socket_rc ans),
         Sys_bind (socket_rc ans) family (htons port), Sys_listen (socket_rc ans) backlog]) \<and>
    (\<not> ok \<longrightarrow> last_err op' = errno ans \<or> last_err op' = EINVAL \<and> family \<noteq> AF_INET \<and> family \<noteq> AF_INET6)"
proof (cases "0 \<le> socket_rc ans \<and> reuse_rc ans = 0")
  case True
  then have l: "listen bl family port backlog ans op w =
      Inr (listen_bind family (htons port) backlog ans (op\<lparr>sd := socket_rc ans\<rparr>)
        (sys (Sys_reuse_address (socket_rc ans)) (sys (Sys_socket family (SOCK_STREAM OR SOCK_CLOEXEC) 0) w)))"
    by (simp add: listen_def listen_new_socket [OF assms])
  show ?thesis
  proof (cases "family = AF_INET \<or> family = AF_INET6")
    case known: True
    then have "listen_address family (htons port) = Some (family, htons port)" by (auto simp: listen_address_def)
    with True known show ?thesis unfolding l by (simp add: listen_bind_def set_error_def sys_def Let_def)
  next
    case False
    then have "listen_address family (htons port) = None" by (simp add: listen_address_def)
    with False show ?thesis unfolding l by (auto simp: listen_bind_def set_error_def)
  qed
next
  case False
  then have "\<exists>op' w'. listen bl family port backlog ans op w = Inr (False, op', w') \<and> last_err op' = errno ans"
    by (auto simp: listen_def listen_new_socket [OF assms] set_error_def)
  with False show ?thesis by auto
qed

text \<open>However a connection attempt ends, its socket is not lost: on success the stream owns it, on failure
  the stream has no descriptor but the error, and destroying the awaitable closes the socket.\<close>

theorem connect_keeps_socket:
  assumes "0 \<le> fd" and "eng \<noteq> null" and "fst (snd bl) \<noteq> null"
  shows "\<exists>op w1. tcp_connect bl eng family flags fd err w = Inr (op, w1) \<and> \<not> connect_ready op \<and> sd op = fd \<and>
    (let (s, op') = connect_resume r op
     in sd (net s) = (if r = 0 then fd else - 1) \<and> last_err (net s) = - r \<and>
        (\<exists>w2. destroy_network_operation bc bl op' w1 = Inr w2 \<and>
           closings w2 = closings w + (if r = 0 then {#} else {#fd#})))"
proof -
  let ?op = "make_network_operation eng fd"
  let ?w = "sys (Sys_socket family (SOCK_STREAM OR flags) 0) w"
  have t: "tcp_connect bl eng family flags fd err w = Inr (?op, ?w)"
    using assms(1) by (simp add: tcp_connect_def set_descriptor_def move_network_operation_def swap_is_exchange networking_defs)
  have cw: "closings ?w = closings w" by (simp add: closings_def sys_def)
  show ?thesis
  proof (cases "r = 0")
    case True
    have "destroy_network_operation bc bl (clear_descriptor ?op) ?w = Inr ?w"
      by (simp add: destroy_network_operation_def give_up_def networking_defs)
    with True t cw show ?thesis
      by (simp add: connect_ready_def peek_error_def connect_resume_def networking_defs)
  next
    case False
    have g: "give_up bc bl ?op ?w = background_close bl ?op ?w"
      using assms(1) by (simp add: give_up_def networking_defs)
    obtain w2 where "background_close bl ?op ?w = Inr (?op\<lparr>sd := kNoDescriptor\<rparr>, w2)" "closings w2 = closings w + {#fd#}"
      using background_close_closings [of ?op bl ?w] assms cw by (auto simp: networking_defs fds_def)
    then have "destroy_network_operation bc bl ?op ?w = Inr w2"
      using g by (simp add: destroy_network_operation_def)
    moreover have "connect_resume r ?op = (stream_set_error (- r) (make_tcp_stream eng kNoDescriptor), ?op)"
      using False by (simp add: connect_resume_def networking_defs)
    ultimately show ?thesis using False t \<open>closings w2 = closings w + {#fd#}\<close>
      by (simp add: connect_ready_def peek_error_def networking_defs)
  qed
qed

text \<open>When no socket can be created, \<open>tcp_connect\<close> does not suspend, and the stream it returns has neither a
  descriptor nor an error: the failure is recorded in the operation that is thrown away.\<close>

theorem connect_socket_failure_unreported:
  assumes "fd < 0" and "err \<noteq> 0"
  shows "\<exists>op w1. tcp_connect bl eng family flags fd err w = Inr (op, w1) \<and> connect_ready op \<and>
    sd (net (fst (connect_resume 0 op))) = kNoDescriptor \<and> last_err (net (fst (connect_resume 0 op))) = 0"
  using assms
  by (simp add: tcp_connect_def move_network_operation_def swap_is_exchange connect_ready_def peek_error_def
      connect_resume_def networking_defs)

text \<open>Accepting never reports the address of the peer: whatever address the caller passes, the request has
  a null one.  The completion gives a stream that owns the new descriptor, or an error.\<close>

theorem accept_ignores_address:
  assumes "net_engine op \<noteq> null"
  shows "(\<exists>w'. accept_suspend True ret h address len flags op w = Inr (op\<lparr>cancel_token := ret\<rparr>, w') \<and>
      sq (loop (nio w')) = sq (loop (nio w)) @ [(Prep_accept (sd op) null len flags, ret)]) \<and>
    accept_resume r op =
      (if 0 \<le> r then (Some (make_tcp_stream (net_engine op) r), op\<lparr>cancel_token := null\<rparr>)
       else (None, op\<lparr>cancel_token := null, last_err := - r\<rparr>))"
  using assms
  by (simp add: accept_suspend_def accept_resume_def accept_await_def io_suspend_def accept_def do_op_impl_def
      networking_defs Let_def)

section \<open>Witnesses\<close>

definition demo_answers :: socket_answers where
  "demo_answers = \<lparr>socket_rc = 7, reuse_rc = 0, bind_rc = 0, listen_rc = 0, errno = 0\<rparr>"

theorem listen_spec_witness:
  "\<exists>op' w'. listen demo_frame AF_INET 8080 10 demo_answers (make_tcp_acceptor 8) demo_world = Inr (True, op', w') \<and>
     sd op' = 7 \<and> htons 8080 = 36895"
  using listen_spec [of "make_tcp_acceptor 8" demo_frame AF_INET 8080 10 demo_answers demo_world]
  by (auto simp: make_tcp_acceptor_def make_network_operation_def demo_answers_def htons_def)

theorem connect_keeps_socket_witness:
  "\<exists>op w1. tcp_connect demo_frame 8 AF_INET 0 7 0 demo_world = Inr (op, w1) \<and> \<not> connect_ready op \<and> sd op = 7"
  using connect_keeps_socket [of 7 8 demo_frame AF_INET 0 0 demo_world 0 demo_frame]
  by (auto simp: demo_frame_def)

theorem connect_socket_failure_unreported_witness:
  "\<exists>op w1. tcp_connect demo_frame 8 AF_INET 0 (- 1) 24 demo_world = Inr (op, w1) \<and> connect_ready op \<and>
     last_err (net (fst (connect_resume 0 op))) = 0"
  using connect_socket_failure_unreported [of "- 1" 24 demo_frame 8 AF_INET 0 demo_world] by auto

theorem accept_ignores_address_witness:
  "\<exists>w'. accept_suspend True 16 (Coroutine_alt 32) 4096 4200 SOCK_CLOEXEC (make_network_operation 8 4) demo_world =
     Inr ((make_network_operation 8 4)\<lparr>cancel_token := 16\<rparr>, w') \<and>
     sq (loop (nio w')) = [(Prep_accept 4 null 4200 SOCK_CLOEXEC, 16)]"
  using accept_ignores_address [of "make_network_operation 8 4" 16 "Coroutine_alt 32" 4096 4200 SOCK_CLOEXEC demo_world 0]
  by (simp add: make_network_operation_def demo_world_def init_event_loop_def)

end
