(* ===== verification/Async_File.thy ===== *)
theory Async_File
  imports Network_Operation
begin

text \<open>
  \<open>includes/zab/async_file.hpp\<close>: files opened, read, written and closed through the ring.

  The awaitables are their parts at \<open>await_ready\<close>, \<open>await_suspend\<close> and \<open>await_resume\<close>, as in
  \<open>Network_Operation\<close>.  For the two loops \<open>read_file\<close> and \<open>write_to_file\<close> the content of the file and of
  the buffer are lists of bytes, and the kernel is what its manual says of \<open>pread\<close> and \<open>pwrite\<close>: a request
  for the buffer \<open>b\<close> at the file offset \<open>off\<close> that completes with \<open>r\<close> has transferred the first \<open>r\<close> bytes
  of \<open>b\<close>, to or from the file bytes from \<open>off\<close> on.  The completions are an argument; a loop that has used
  them up is suspended.
\<close>

section \<open>Options and flags\<close>

datatype Option = kRead | kTrunc | kAppend | kReadWrite | kRWTruncate | kRWAppend
datatype Offset = kBegin | kCurrent | kEnd

definition O_RDONLY :: int where "O_RDONLY = 0"
definition O_WRONLY :: int where "O_WRONLY = 1"
definition O_RDWR :: int where "O_RDWR = 2"
definition O_CREAT :: int where "O_CREAT = 64"
definition O_TRUNC :: int where "O_TRUNC = 512"
definition O_APPEND :: int where "O_APPEND = 1024"
definition O_TMPFILE :: int where "O_TMPFILE = 4259840"
definition AT_FDCWD :: int where "AT_FDCWD = - 100"

lemmas flag_defs = O_RDONLY_def O_WRONLY_def O_RDWR_def O_CREAT_def O_TRUNC_def O_APPEND_def O_TMPFILE_def

fun open_options :: "Option \<Rightarrow> int" where
  "open_options kRead = O_RDONLY"
| "open_options kTrunc = (O_WRONLY OR O_CREAT OR O_TRUNC)"
| "open_options kAppend = (O_WRONLY OR O_CREAT OR O_APPEND)"
| "open_options kReadWrite = O_RDWR"
| "open_options kRWTruncate = (O_RDWR OR O_CREAT OR O_TRUNC)"
| "open_options kRWAppend = (O_RDWR OR O_CREAT OR O_APPEND)"

definition kDefaultMode :: int where
  "kDefaultMode = (256 OR 128)"

section \<open>Opening and closing\<close>

record async_file =
  file_engine :: addr
  file_fd :: int

text \<open>The constructor does not initialise \<open>file_\<close>; the value it happens to have is an argument.\<close>

definition make_async_file :: "addr \<Rightarrow> int \<Rightarrow> async_file" where
  "make_async_file eng uninitialised = \<lparr>file_engine = eng, file_fd = uninitialised\<rparr>"

definition good :: "async_file \<Rightarrow> bool" where
  "good f \<longleftrightarrow> file_fd f \<noteq> 0"

definition open_ready :: "int \<Rightarrow> int \<Rightarrow> bool" where
  "open_ready flags mode \<longleftrightarrow> mode = 0 \<and> ((flags AND O_CREAT) \<noteq> 0 \<or> (flags AND O_TMPFILE) \<noteq> 0)"

definition open_suspend ::
    "bool \<Rightarrow> addr \<Rightarrow> tagged_event \<Rightarrow> int \<Rightarrow> string \<Rightarrow> int \<Rightarrow> int \<Rightarrow> async_file \<Rightarrow> net_world \<Rightarrow> net_world outcome" where
  "open_suspend sqe ret h dfd path flags mode f w =
     engine_io (file_engine f) (open_at_await sqe ret h null dfd path flags mode) w"

definition open_resume :: "int \<Rightarrow> async_file \<Rightarrow> bool \<times> async_file" where
  "open_resume r f = (if r > 0 then (True, f\<lparr>file_fd := r\<rparr>) else (False, f))"

definition relative_dir :: int where
  "relative_dir = AT_FDCWD"

definition open_option_suspend ::
    "bool \<Rightarrow> addr \<Rightarrow> tagged_event \<Rightarrow> string \<Rightarrow> Option \<Rightarrow> int \<Rightarrow> async_file \<Rightarrow> net_world \<Rightarrow> net_world outcome" where
  "open_option_suspend sqe ret h path opt mode f w =
     open_suspend sqe ret h relative_dir path (open_options opt) mode f w"

definition open_flags_suspend ::
    "bool \<Rightarrow> addr \<Rightarrow> tagged_event \<Rightarrow> string \<Rightarrow> int \<Rightarrow> int \<Rightarrow> async_file \<Rightarrow> net_world \<Rightarrow> net_world outcome" where
  "open_flags_suspend sqe ret h path flags mode f w = open_suspend sqe ret h relative_dir path flags mode f w"

definition open_dir_suspend ::
    "bool \<Rightarrow> addr \<Rightarrow> tagged_event \<Rightarrow> int \<Rightarrow> string \<Rightarrow> Option \<Rightarrow> int \<Rightarrow> async_file \<Rightarrow> net_world \<Rightarrow> net_world outcome" where
  "open_dir_suspend sqe ret h dfd path opt mode f w =
     open_suspend sqe ret h dfd path (open_options opt) mode f w"

text \<open>The static \<open>open\<close>, which makes the file object; it has no readiness test.\<close>

definition static_open_suspend ::
    "bool \<Rightarrow> addr \<Rightarrow> tagged_event \<Rightarrow> addr \<Rightarrow> int \<Rightarrow> string \<Rightarrow> int \<Rightarrow> int \<Rightarrow> net_world \<Rightarrow> net_world outcome" where
  "static_open_suspend sqe ret h eng dfd path flags mode w =
     engine_io eng (open_at_await sqe ret h null dfd path flags mode) w"

definition static_open_resume :: "addr \<Rightarrow> int \<Rightarrow> async_file option" where
  "static_open_resume eng r = (if r > 0 then Some ((make_async_file eng r)\<lparr>file_fd := r\<rparr>) else None)"

definition file_close_suspend ::
    "bool \<Rightarrow> addr \<Rightarrow> tagged_event \<Rightarrow> addr \<Rightarrow> int \<Rightarrow> net_world \<Rightarrow> net_world outcome" where
  "file_close_suspend sqe ret h eng fd w = engine_io eng (close_await sqe ret h null fd) w"

definition file_close_resume :: "int \<Rightarrow> bool" where
  "file_close_resume r \<longleftrightarrow> r = 0"

text \<open>The member \<open>close()\<close>: the object gives the descriptor up before the request is made.\<close>

definition file_close :: "async_file \<Rightarrow> int \<times> async_file" where
  "file_close f = (file_fd f, f\<lparr>file_fd := 0\<rparr>)"

definition close_in_background_end :: "int \<Rightarrow> int \<Rightarrow> net_world \<Rightarrow> net_world" where
  "close_in_background_end r fd w = (if \<not> file_close_resume r then sys (Sys_close fd) w else w)"

definition close_in_background :: "background \<Rightarrow> addr \<Rightarrow> int \<Rightarrow> net_world \<Rightarrow> net_world outcome" where
  "close_in_background bg eng fd w =
     (let (sqe, ret, co) = bg
      in bind_outcome (file_close_suspend sqe ret (Coroutine_alt co) eng fd w) (\<lambda>w1.
           if sqe then Inr w1
           else bind_outcome (io_resume ret (nio w1)) (\<lambda>r. Inr (close_in_background_end r fd w1))))"

definition destroy_async_file :: "background \<Rightarrow> async_file \<Rightarrow> net_world \<Rightarrow> net_world outcome" where
  "destroy_async_file bg f w =
     (if file_fd f \<noteq> 0 then close_in_background bg (file_engine f) (file_fd f) w else Inr w)"

definition move_async_file :: "async_file \<Rightarrow> async_file \<times> async_file" where
  "move_async_file mv = (\<lparr>file_engine = file_engine mv, file_fd = file_fd mv\<rparr>, mv\<lparr>file_fd := 0\<rparr>)"

text \<open>The move assignment takes the engine first, so the old file is closed through the engine of the other
  object.  (Its body has no return statement.)\<close>

definition assign_async_file ::
    "background \<Rightarrow> async_file \<Rightarrow> async_file \<Rightarrow> net_world \<Rightarrow> (async_file \<times> async_file \<times> net_world) outcome" where
  "assign_async_file bg self mv w =
     (let self1 = self\<lparr>file_engine := file_engine mv\<rparr>
      in bind_outcome (if file_fd self1 \<noteq> 0 then close_in_background bg (file_engine self1) (file_fd self1) w else Inr w)
           (\<lambda>w'. Inr (self1\<lparr>file_fd := file_fd mv\<rparr>, mv\<lparr>file_fd := 0\<rparr>, w')))"

section \<open>Reading and writing once\<close>

text \<open>The size of the request that \<open>read_some(data, off)\<close> and \<open>write_some(data, off)\<close> make.  The offset is a
  32 bit integer; \<open>convert\<close> makes a span from the start of the buffer.\<close>

definition kMaxFileRequest :: u64 where
  "kMaxFileRequest = 2147483647 - 1"

definition some_amount :: "u64 \<Rightarrow> 32 word \<Rightarrow> u64" where
  "some_amount n off = min (n - scast off) kMaxFileRequest"

definition convert :: "addr \<Rightarrow> u64 \<Rightarrow> buffer" where
  "convert data len = (data, len)"

definition some_buffer :: "buffer \<Rightarrow> 32 word \<Rightarrow> buffer" where
  "some_buffer data off = convert (fst data) (scast off + some_amount (snd data) off)"

definition file_read_some_suspend ::
    "bool \<Rightarrow> addr \<Rightarrow> tagged_event \<Rightarrow> buffer \<Rightarrow> 32 word \<Rightarrow> async_file \<Rightarrow> net_world \<Rightarrow> net_world outcome" where
  "file_read_some_suspend sqe ret h data off f w =
     engine_io (file_engine f) (read_await sqe ret h null (file_fd f) (some_buffer data off) (sint off)) w"

definition file_write_some_suspend ::
    "bool \<Rightarrow> addr \<Rightarrow> tagged_event \<Rightarrow> buffer \<Rightarrow> 32 word \<Rightarrow> async_file \<Rightarrow> net_world \<Rightarrow> net_world outcome" where
  "file_write_some_suspend sqe ret h data off f w =
     engine_io (file_engine f) (write_await sqe ret h null (file_fd f) (some_buffer data off) (sint off)) w"

definition some_resume :: "int \<Rightarrow> nat option" where
  "some_resume r = (if r \<ge> 0 then Some (nat r) else None)"

text \<open>\<open>read_some(amount)\<close> reads into a vector of its own, from the start of the file.\<close>

definition read_amount_suspend ::
    "bool \<Rightarrow> addr \<Rightarrow> tagged_event \<Rightarrow> buffer \<Rightarrow> async_file \<Rightarrow> net_world \<Rightarrow> net_world outcome" where
  "read_amount_suspend sqe ret h data f w =
     engine_io (file_engine f) (read_await sqe ret h null (file_fd f) (convert (fst data) (snd data)) 0) w"

definition read_amount_resume :: "int \<Rightarrow> 'b list \<Rightarrow> 'b list option" where
  "read_amount_resume r data = (if r \<ge> 0 then Some (take (nat r) data) else None)"

section \<open>Reading and writing whole files\<close>

definition pwrite :: "'b list \<Rightarrow> nat \<Rightarrow> 'b list \<Rightarrow> 'b::zero list" where
  "pwrite content off bs =
     take off content @ replicate (off - length content) 0 @ bs @ drop (off + length bs) content"

definition pread :: "'b list \<Rightarrow> nat \<Rightarrow> nat \<Rightarrow> 'b list" where
  "pread content off r = take r (drop off content)"

text \<open>The result of a loop over awaited requests: it ended, it is suspended in a request, or it has made a
  request that reaches past the end of the buffer.\<close>

datatype 'a loop_result = Finished 'a | Waiting 'a | Overrun

definition request_length :: "nat \<Rightarrow> nat \<Rightarrow> nat" where
  "request_length n pos = unat (snd (some_buffer (null, of_nat n) (of_nat pos)))"

text \<open>\<open>write_to_file\<close>: \<open>rs\<close> are the completions, \<open>pos\<close> is the variable \<open>current\<close>.\<close>

fun write_loop :: "'b::zero list \<Rightarrow> int list \<Rightarrow> nat \<Rightarrow> 'b list \<Rightarrow> (nat \<times> 'b list) loop_result" where
  "write_loop data rs pos content =
     (if pos = length data then Finished (pos, content)
      else if request_length (length data) pos > length data then Overrun
      else case rs of
        [] \<Rightarrow> Waiting (pos, content)
      | r # rs' \<Rightarrow>
          (case some_resume r of
             Some k \<Rightarrow>
               if k > 0 then write_loop data rs' (pos + k) (pwrite content pos (take k data))
               else Finished (pos, content)
           | None \<Rightarrow> Finished (pos, content)))"

definition write_to_file :: "'b::zero list \<Rightarrow> int list \<Rightarrow> 'b list \<Rightarrow> (nat \<times> 'b list) loop_result" where
  "write_to_file data rs content = write_loop data rs 0 content"

text \<open>\<open>read_file\<close>: a read stores its bytes at the start of the vector.\<close>

fun read_loop :: "int list \<Rightarrow> nat \<Rightarrow> 'b list \<Rightarrow> 'b::zero list \<Rightarrow> 'b list loop_result" where
  "read_loop rs pos content data =
     (if pos = length data then Finished data
      else if request_length (length data) pos > length data then Overrun
      else case rs of
        [] \<Rightarrow> Waiting data
      | r # rs' \<Rightarrow>
          (case some_resume r of
             Some k \<Rightarrow> read_loop rs' (pos + k) content (pread content pos k @ drop k data)
           | None \<Rightarrow> Finished (take pos data @ replicate (pos - length data) 0)))"

definition read_file :: "int list \<Rightarrow> 'b list \<Rightarrow> 'b::zero list loop_result" where
  "read_file rs content = read_loop rs 0 content (replicate (length content) 0)"

declare write_loop.simps [simp del] read_loop.simps [simp del]

section \<open>The file position\<close>

definition lseek :: "nat \<Rightarrow> int \<Rightarrow> Offset \<Rightarrow> int \<Rightarrow> int option" where
  "lseek len pos whence off =
     (let p = (case whence of kBegin \<Rightarrow> off | kCurrent \<Rightarrow> pos + off | kEnd \<Rightarrow> int len + off)
      in if 0 \<le> p then Some p else None)"

definition position :: "nat \<Rightarrow> int \<Rightarrow> Offset \<Rightarrow> int \<Rightarrow> bool \<times> int" where
  "position len off whence pos =
     (case lseek len pos whence off of Some p \<Rightarrow> (True, p) | None \<Rightarrow> (False, pos))"

text \<open>\<open>size()\<close>: the result and the position afterwards.\<close>

definition file_size :: "nat \<Rightarrow> int \<Rightarrow> int \<times> int" where
  "file_size len pos =
     (let p1 = (case lseek len pos kCurrent 0 of Some p \<Rightarrow> p | None \<Rightarrow> - 1);
          p2 = (case lseek len p1 kEnd 0 of Some p \<Rightarrow> p | None \<Rightarrow> - 1);
          p3 = (case lseek len p2 kBegin p1 of Some p \<Rightarrow> p | None \<Rightarrow> p2)
      in (p2, p3))"

section \<open>Properties\<close>

text \<open>Requests of a buffer below the size limit always span the whole buffer, whatever the offset.\<close>

lemma request_length_whole:
  assumes "pos \<le> n" and "n < 2147483647"
  shows "request_length n pos = n"
proof -
  have u32: "uint (of_nat pos :: 32 word) = int pos"
    using assms by (simp add: unsigned_of_nat take_bit_nat_eq_self)
  have s32: "sint (of_nat pos :: 32 word) = int pos"
    using assms by (simp add: sint_uint u32 signed_take_bit_int_eq_self)
  then have off: "(scast (of_nat pos :: 32 word) :: u64) = of_nat pos"
    by (simp add: scast_eq)
  have diff: "(of_nat n - of_nat pos :: u64) = of_nat (n - pos)" using assms(1) by simp
  have "(of_nat (n - pos) :: u64) \<le> kMaxFileRequest"
    using assms by (simp add: kMaxFileRequest_def word_le_nat_alt unat_of_nat del: of_nat_diff)
  then have "some_amount (of_nat n) (of_nat pos) = of_nat (n - pos)"
    by (simp add: some_amount_def off diff)
  then show ?thesis using assms
    by (simp add: request_length_def some_buffer_def convert_def off unat_of_nat)
qed

lemma write_loop_step:
  assumes "pos < length data" and "length data < 2147483647" and "0 < k"
  shows "write_loop data (int k # rs) pos content = write_loop data rs (pos + k) (pwrite content pos (take k data))"
  using assms by (subst write_loop.simps) (simp add: request_length_whole some_resume_def)

lemma read_loop_step:
  assumes "pos < length data" and "length data < 2147483647"
  shows "read_loop (int k # rs) pos content data = read_loop rs (pos + k) content (pread content pos k @ drop k data)"
  using assms by (subst read_loop.simps) (simp add: request_length_whole some_resume_def)

text \<open>If the first write transfers everything, \<open>write_to_file\<close> ends, returns the size of the data, and the
  file begins with exactly the data.  If the first read transfers everything, \<open>read_file\<close> returns the
  content of the file.\<close>

theorem whole_file_in_one_request:
  assumes "data \<noteq> []" and "length data < 2147483647" and "content \<noteq> []" and "length content < 2147483647"
  shows "write_to_file data [int (length data)] content = Finished (length data, data @ drop (length data) content) \<and>
    read_file [int (length content)] content = Finished content"
proof -
  have "write_to_file data [int (length data)] content =
      write_loop data [] (length data) (pwrite content 0 (take (length data) data))"
    unfolding write_to_file_def using assms(1,2) write_loop_step [of 0 data "length data" "[]" content] by simp
  moreover have "read_file [int (length content)] content =
      read_loop [] (length content) content (pread content 0 (length content) @ drop (length content) (replicate (length content) 0))"
    unfolding read_file_def
    using assms(3,4) read_loop_step [of 0 "replicate (length content) 0" "length content" "[]" content] by simp
  ultimately show ?thesis
    by (simp add: write_loop.simps [of data "[]"] read_loop.simps [of "[]"] pwrite_def pread_def)
qed

text \<open>\<open>write_to_file\<close> after a partial write: when the kernel takes the first \<open>k\<close> bytes and then \<open>m\<close> more,
  \<open>k + m\<close> being the size of the data, the function reports that everything was written, but the second part
  of the file holds the first \<open>m\<close> bytes of the data again, since every request starts at the beginning of the
  buffer.\<close>

theorem write_to_file_repeats_prefix:
  assumes "0 < k" and "0 < m" and "k + m = length data" and "length data < 2147483647"
  shows "write_to_file data [int k, int m] [] = Finished (length data, take k data @ take m data)"
proof -
  have len: "0 < length data" using assms by linarith
  have "write_to_file data [int k, int m] [] = write_loop data [int m] k (take k data)"
    unfolding write_to_file_def using len assms write_loop_step [of 0 data k "[int m]" "[]"] by (simp add: pwrite_def)
  also have "\<dots> = write_loop data [] (length data) (take k data @ take m data)"
    using assms write_loop_step [of k data m "[]" "take k data"] by (simp add: pwrite_def)
  finally show ?thesis by (simp add: write_loop.simps [of data "[]"])
qed

text \<open>The same in \<open>read_file\<close>: after a partial read the next part is stored over the first one, and the rest
  of the result stays zero.\<close>

theorem read_file_overwrites_prefix:
  assumes "0 < k" and "0 < m" and "k + m = length content" and "m \<le> k" and "length content < 2147483647"
  shows "read_file [int k, int m] content =
    Finished (drop k content @ drop m (take k content) @ replicate m (0 :: 'b::zero))"
proof -
  let ?d = "replicate (length content) (0 :: 'b)"
  have len: "0 < length ?d" "length ?d < 2147483647" using assms by (auto simp del: length_greater_0_conv)
  have rest: "drop k ?d = replicate m 0" using assms(3) by (metis add_diff_cancel_left' drop_replicate)
  have "read_file [int k, int m] content = read_loop [int m] k content (take k content @ replicate m 0)"
    unfolding read_file_def read_loop_step [OF len] rest by (simp add: pread_def)
  also have "\<dots> = read_loop [] (length content) content (drop k content @ drop m (take k content) @ replicate m 0)"
    using assms read_loop_step [of k "take k content @ replicate m 0" m "[]" content]
    by (simp add: pread_def min_def)
  finally show ?thesis using assms by (simp add: read_loop.simps [of "[]"])
qed

text \<open>A file that became shorter while it is read makes \<open>read_file\<close> wait forever: reads that return 0 are
  repeated without end.\<close>

theorem read_file_spins_at_end:
  assumes "content \<noteq> []" and "length content < 2147483647"
  shows "read_file (replicate n 0) content = Waiting (replicate (length content) 0)"
proof -
  let ?d = "replicate (length content) 0"
  have "read_loop (replicate n 0) 0 content ?d = Waiting ?d"
  proof (induction n)
    case 0
    then show ?case using assms by (subst read_loop.simps) (simp add: request_length_whole)
  next
    case (Suc n)
    then show ?case using assms read_loop_step [of 0 ?d 0 "replicate n 0" content] by (simp add: pread_def)
  qed
  then show ?thesis by (simp add: read_file_def)
qed

text \<open>The flags of every option select the access mode of the documented table: reading only for \<open>kRead\<close>,
  reading and writing for the three read/write options, writing only for the others; a file is created
  exactly by the truncating and the appending ones.\<close>

theorem open_options_table:
  "open_options opt AND 3 = (case opt of kRead \<Rightarrow> O_RDONLY | kTrunc \<Rightarrow> O_WRONLY | kAppend \<Rightarrow> O_WRONLY | _ \<Rightarrow> O_RDWR) \<and>
   ((open_options opt AND O_CREAT \<noteq> 0) = (opt \<notin> {kRead, kReadWrite})) \<and>
   ((open_options opt AND O_TRUNC \<noteq> 0) = (opt \<in> {kTrunc, kRWTruncate})) \<and>
   ((open_options opt AND O_APPEND \<noteq> 0) = (opt \<in> {kAppend, kRWAppend}))"
  by (cases opt) (simp_all add: flag_defs)

lemma close_in_background_closings:
  assumes "eng \<noteq> null" and "fst (snd bg) \<noteq> null"
  shows "\<exists>w'. close_in_background bg eng fd w = Inr w' \<and> closings w' = closings w + {#fd#}"
  using assms
  by (cases bg) (simp add: close_in_background_def file_close_suspend_def close_in_background_end_def
      file_close_resume_def net_defs close_await_def io_suspend_def close_def do_op_impl_def fail_no_sqe_def
      run_handle_def closings_def event_defs io_resume_def ENOMEM_def Let_def del: bind_outcome_eq_Inr)

definition file_fds :: "async_file \<Rightarrow> int multiset" where
  "file_fds f = (if file_fd f \<noteq> 0 then {#file_fd f#} else {#})"

text \<open>A file descriptor that was opened is closed exactly once, through the object that has it last: moving
  transfers it, assigning closes the one overwritten, and destroying an object without one does nothing.\<close>

theorem file_closed_once:
  assumes "file_engine f \<noteq> null" and "file_engine g \<noteq> null" and "fst (snd bg) \<noteq> null"
  shows "(\<exists>w'. destroy_async_file bg f w = Inr w' \<and> closings w' = closings w + file_fds f) \<and>
    (let (a, b) = move_async_file f in file_fds a = file_fds f \<and> file_fds b = {#}) \<and>
    (\<exists>a b w'. assign_async_file bg f g w = Inr (a, b, w') \<and>
       file_fds a = file_fds g \<and> file_fds b = {#} \<and> closings w' = closings w + file_fds f)"
  using close_in_background_closings [OF assms(1,3), of "file_fd f" w] close_in_background_closings [OF assms(2,3), of "file_fd f" w]
  by (auto simp: destroy_async_file_def move_async_file_def assign_async_file_def file_fds_def Let_def)

text \<open>\<open>size()\<close> gives the length of the file and leaves the position where it was.\<close>

theorem file_size_keeps_position:
  "0 \<le> pos \<Longrightarrow> file_size len pos = (int len, pos)"
  by (simp add: file_size_def lseek_def)

section \<open>Witnesses\<close>

theorem whole_file_in_one_request_witness:
  "write_to_file [1, 2, 3 :: int] [3] [9, 9, 9, 9] = Finished (3, [1, 2, 3, 9]) \<and>
   read_file [4] [9, 9, 9, 9 :: int] = Finished [9, 9, 9, 9]"
  using whole_file_in_one_request [of "[1, 2, 3 :: int]" "[9, 9, 9, 9]"] by simp

theorem write_to_file_repeats_prefix_witness:
  "write_to_file [1, 2, 3, 4 :: int] [2, 2] [] = Finished (4, [1, 2, 1, 2])"
  using write_to_file_repeats_prefix [of 2 2 "[1, 2, 3, 4 :: int]"] by simp

theorem read_file_overwrites_prefix_witness:
  "read_file [2, 2] [1, 2, 3, 4 :: int] = Finished [3, 4, 0, 0]"
  using read_file_overwrites_prefix [of 2 2 "[1, 2, 3, 4 :: int]"] by (simp add: numeral_2_eq_2)

theorem read_file_spins_at_end_witness:
  "read_file [0, 0, 0] [1, 2 :: int] = Waiting [0, 0]"
  using read_file_spins_at_end [of "[1, 2 :: int]" 3] by (simp add: numeral_3_eq_3 numeral_2_eq_2)

theorem file_closed_once_witness:
  "\<exists>w'. destroy_async_file demo_frame (make_async_file 8 5) demo_world = Inr w' \<and> closings w' = {#5#}"
  using file_closed_once [of "make_async_file 8 5" "make_async_file 8 6" demo_frame demo_world]
  by (auto simp: make_async_file_def demo_frame_def file_fds_def closings_def demo_world_def init_event_loop_def)

end
