(* ===== verification/Signal_Handler.thy ===== *)
theory Signal_Handler
  imports Engine
begin

text \<open>
  \<open>includes/zab/signal_handler.hpp\<close> and \<open>src/signal_handler.cpp\<close>: signals are turned into bytes on a pipe
  by the handler that is installed in the operating system, and the coroutine \<open>run()\<close> reads the bytes and
  executes the registered functions through the engine.

  The pointer to the one active handler (\<open>handler_\<close> in the source) is \<open>active\<close>, the bytes in the pipe are
  \<open>pipe\<close>; what \<open>::pipe2\<close>, \<open>::signal\<close> and the reads return are arguments.  A registered function is the
  coroutine frame in which \<open>engine::execute\<close> will run it: \<open>frame_of f sig\<close> is the frame for the call of the
  function \<open>f\<close> with the signal \<open>sig\<close>.
\<close>

section \<open>State\<close>

definition kSignalThread :: thread_t where
  "kSignalThread = Thread_t 0"

record signal_handler =
  handler_addr :: addr
  handlers :: "(int \<times> (thread_t \<times> nat) list) list"
  handler_fds :: "int \<times> int"
  running :: bool
  read_handle :: addr

record signal_world =
  active :: addr
  pipe :: "int list"
  installed :: "int list"
  sig_engine :: engine

definition SIGKILL :: int where
  "SIGKILL = 9"

text \<open>The constructor: only the first handler becomes the active one; for any other the descriptors keep
  the values the memory happens to have (\<open>garbage\<close>).  \<open>pipe_rc\<close> and \<open>fds\<close> are the answers of \<open>::pipe2\<close>.\<close>

definition make_signal_handler ::
    "addr \<Rightarrow> int \<times> int \<Rightarrow> int \<Rightarrow> int \<times> int \<Rightarrow> signal_world \<Rightarrow> (signal_handler \<times> signal_world) outcome" where
  "make_signal_handler self garbage pipe_rc fds w =
     (let h = \<lparr>handler_addr = self, handlers = [], handler_fds = garbage, running = False, read_handle = null\<rparr>
      in if active w \<noteq> null then Inr (h, w)
         else if pipe_rc = - 1 then Inl Aborted
         else Inr (h\<lparr>handler_fds := fds\<rparr>, w\<lparr>active := self\<rparr>))"

definition is_active :: "signal_handler \<Rightarrow> signal_world \<Rightarrow> bool" where
  "is_active h w \<longleftrightarrow> active w = handler_addr h"

text \<open>The destructor; \<open>close_rc\<close> are the answers of \<open>::close\<close> (the second is not called when the first
  fails, either failure aborts).  The result says whether the suspended coroutine is destroyed.\<close>

definition destroy_signal_handler :: "int \<times> int \<Rightarrow> signal_handler \<Rightarrow> signal_world \<Rightarrow> (bool \<times> signal_world) outcome" where
  "destroy_signal_handler close_rc h w =
     (let w1 = (if active w = handler_addr h then w\<lparr>active := null\<rparr> else w)
      in if fst close_rc \<noteq> 0 \<or> snd close_rc \<noteq> 0 then Inl Aborted
         else Inr (read_handle h \<noteq> null, w1))"

section \<open>Registering\<close>

text \<open>\<open>std::map::operator[]\<close> followed by \<open>emplace_back\<close>: the map is kept sorted by the signal.\<close>

definition registered :: "int \<Rightarrow> signal_handler \<Rightarrow> (thread_t \<times> nat) list" where
  "registered sig h = (case map_of (handlers h) sig of None \<Rightarrow> [] | Some fs \<Rightarrow> fs)"

definition add_handler :: "int \<Rightarrow> thread_t \<Rightarrow> nat \<Rightarrow> signal_handler \<Rightarrow> signal_handler" where
  "add_handler sig th f h =
     h\<lparr>handlers := (case map_of (handlers h) sig of
        None \<Rightarrow> insert_key sig [(th, f)] (handlers h)
      | Some _ \<Rightarrow> update_key sig (\<lambda>fs. fs @ [(th, f)]) (handlers h))\<rparr>"

text \<open>\<open>handle()\<close>; \<open>previous\<close> is what \<open>::signal\<close> returns: 0 (\<open>SIG_DFL\<close>), the address of the previous
  handler, or \<open>-1\<close> (\<open>SIG_ERR\<close>).\<close>

definition signal_handle ::
    "int \<Rightarrow> int \<Rightarrow> thread_t \<Rightarrow> nat \<Rightarrow> signal_handler \<Rightarrow> signal_world \<Rightarrow> bool \<times> signal_handler \<times> signal_world" where
  "signal_handle previous sig th f h w =
     (if \<not> is_active h w then (False, h, w)
      else let h1 = add_handler sig th f h
           in if length (registered sig h1) = 1
              then (previous = 0, h1, if previous = - 1 then w else w\<lparr>installed := sig # installed w\<rparr>)
              else (True, h1, w))"

text \<open>The function installed in the operating system: it writes the signal as one byte.\<close>

definition os_handler :: "int \<Rightarrow> signal_world \<Rightarrow> signal_world" where
  "os_handler sig w = w\<lparr>pipe := pipe w @ [sint (word_of_int sig :: 8 word)]\<rparr>"

section \<open>Running\<close>

definition signal_run_start :: "signal_handler \<Rightarrow> signal_world \<Rightarrow> bool \<times> signal_handler" where
  "signal_run_start h w = (if \<not> is_active h w then (False, h) else (True, h\<lparr>running := True\<rparr>))"

text \<open>Suspending in the read: one byte is requested from the pipe, and \<open>handle_\<close> points to the \<open>io_event\<close> of
  the read.\<close>

definition signal_run_suspend :: "addr \<Rightarrow> signal_handler \<Rightarrow> (int \<times> nat) \<times> signal_handler" where
  "signal_run_suspend ret h = ((fst (handler_fds h), 1), h\<lparr>read_handle := ret\<rparr>)"

text \<open>Executing the functions of one signal; they run on the thread they were registered for.\<close>

definition execute_handlers ::
    "thread_t \<Rightarrow> (nat \<Rightarrow> int \<Rightarrow> coro) \<Rightarrow> int \<Rightarrow> (thread_t \<times> nat) list \<Rightarrow> engine \<Rightarrow> engine outcome" where
  "execute_handlers cur frame_of sig fs e =
     fold_outcome (\<lambda>(th, f). execute cur (frame_of f sig) now th) fs e"

text \<open>One turn of the loop: \<open>rc\<close> is the result of the read.  A read of one byte takes it from the pipe.
  The loop goes on as long as \<open>running_\<close> holds.\<close>

definition signal_run_turn ::
    "thread_t \<Rightarrow> (nat \<Rightarrow> int \<Rightarrow> coro) \<Rightarrow> int \<Rightarrow> signal_handler \<Rightarrow> signal_world \<Rightarrow> (signal_handler \<times> signal_world) outcome" where
  "signal_run_turn cur frame_of rc h w =
     (let h1 = h\<lparr>read_handle := null\<rparr>
      in if rc = 1 then
           (case pipe w of
              [] \<Rightarrow> Inl Bad_address
            | b # bs \<Rightarrow>
                bind_outcome (execute_handlers cur frame_of b (registered b h1) (sig_engine w)) (\<lambda>e.
                Inr (h1, w\<lparr>pipe := bs, sig_engine := e\<rparr>)))
         else Inr (h1\<lparr>running := False\<rparr>, w))"

fun signal_run :: "thread_t \<Rightarrow> (nat \<Rightarrow> int \<Rightarrow> coro) \<Rightarrow> int list \<Rightarrow> signal_handler \<Rightarrow> signal_world \<Rightarrow> (signal_handler \<times> signal_world) outcome" where
  "signal_run cur frame_of [] h w = Inr (h, w)"
| "signal_run cur frame_of (rc # rcs) h w =
     (if \<not> running h then Inr (h, w)
      else bind_outcome (signal_run_turn cur frame_of rc h w) (\<lambda>(h', w'). signal_run cur frame_of rcs h' w'))"

definition signal_stop :: "int \<Rightarrow> signal_handler \<Rightarrow> signal_world \<Rightarrow> signal_handler \<times> signal_world" where
  "signal_stop write_rc h w =
     (if \<not> is_active h w then (h, w)
      else (h\<lparr>running := False\<rparr>,
            w\<lparr>installed := filter (\<lambda>s. s \<notin> fst ` set (handlers h)) (installed w),
              pipe := (if 0 \<le> write_rc then pipe w @ [SIGKILL] else pipe w)\<rparr>))"

text \<open>Registrations made one after the other, with the answers of \<open>::signal\<close>.\<close>

fun register_all :: "(int \<times> int \<times> thread_t \<times> nat) list \<Rightarrow> signal_handler \<Rightarrow> signal_world \<Rightarrow> signal_handler \<times> signal_world" where
  "register_all [] h w = (h, w)"
| "register_all ((previous, sig, th, f) # rs) h w =
     (let (_, h1, w1) = signal_handle previous sig th f h w in register_all rs h1 w1)"

section \<open>Immediate execution is a resume service\<close>

interpretation exn: resume_service "\<lambda>h th. delayed_resume cur h now th" accepts room queued
proof
  fix e th h
  assume acc: "accepts e th" and r: "0 < room e"
  let ?th = "resolve_thread th e"
  have "unat (thread_id ?th) < length (loops e)" by (rule resolve_thread_in_range [OF acc r])
  then have "accepts e ?th" using acc by (auto simp: accepts_def)
  from eng.resume_law [OF this r, of h]
  show "\<exists>e'. delayed_resume cur h now th e = Inr e' \<and> queued e' = add_mset h (queued e) \<and>
      accepts e' = accepts e \<and> room e \<le> Suc (room e')"
    by (simp add: delayed_resume_def now_def)
qed

lemma fold_outcome_map: "fold_outcome f (map g xs) s = fold_outcome (f \<circ> g) xs s"
  by (induction xs arbitrary: s) (simp_all cong: bind_outcome_cong)

lemma execute_is_resume: "execute cur fr ord th = delayed_resume cur (resume_event fr) ord th"
  by (simp add: fun_eq_iff execute_def yield_ordered_def)

lemma execute_handlers_all:
  assumes "\<forall>(th, f) \<in> set fs. accepts e th" and "length fs \<le> room e"
  shows "\<exists>e'. execute_handlers cur frame_of sig fs e = Inr e' \<and>
    queued e' = queued e + mset (map (\<lambda>(th, f). resume_event (frame_of f sig)) fs)"
proof -
  let ?g = "\<lambda>(th, f). (resume_event (frame_of f sig), th)"
  have "execute_handlers cur frame_of sig fs e = fold_outcome (\<lambda>(h, th). delayed_resume cur h now th) (map ?g fs) e"
    by (simp add: execute_handlers_def fold_outcome_map comp_def case_prod_unfold execute_is_resume)
  moreover have "\<forall>(h, th) \<in> set (map ?g fs). accepts e th" using assms(1) by auto
  ultimately show ?thesis
    using exn.resume_all [of "map ?g fs" e cur] assms(2) by (auto simp: comp_def case_prod_unfold)
qed

section \<open>Registrations\<close>

lemma registered_add:
  "registered s (add_handler sig th f h) = registered s h @ (if s = sig then [(th, f)] else [])"
proof (cases "map_of (handlers h) sig")
  case None
  then show ?thesis by (simp add: registered_def add_handler_def map_of_insert_key)
next
  case (Some fs)
  then show ?thesis by (auto simp: registered_def add_handler_def map_of_update_key split: option.splits)
qed

lemma signal_handle_fields:
  assumes "is_active h w"
  shows "fst (snd (signal_handle previous sig th f h w)) = add_handler sig th f h"
    and "is_active (add_handler sig th f h) (snd (snd (signal_handle previous sig th f h w)))"
    and "sig_engine (snd (snd (signal_handle previous sig th f h w))) = sig_engine w"
    and "pipe (snd (snd (signal_handle previous sig th f h w))) = pipe w"
  using assms by (simp_all add: signal_handle_def is_active_def add_handler_def Let_def)

lemma register_all_registered:
  assumes "is_active h w" and "register_all rs h w = (h', w')"
  shows "(\<forall>s. registered s h' =
      registered s h @ map (\<lambda>(p, sig, th, f). (th, f)) (filter (\<lambda>(p, sig, th, f). sig = s) rs)) \<and>
    sig_engine w' = sig_engine w \<and> pipe w' = pipe w"
  using assms
proof (induction rs arbitrary: h w)
  case (Cons r rs)
  obtain p sig th f where r: "r = (p, sig, th, f)" by (cases r)
  let ?w = "snd (snd (signal_handle p sig th f h w))"
  note fields = signal_handle_fields [OF Cons.prems(1), where previous = p and sig = sig and th = th and f = f]
  have run: "register_all rs (add_handler sig th f h) ?w = (h', w')"
    using Cons.prems(2) fields(1) by (simp add: r case_prod_unfold)
  from Cons.IH [OF fields(2) run] show ?case by (simp add: r registered_add fields(3,4))
qed simp

lemma os_handler_byte:
  assumes "0 \<le> sig" and "sig < 128"
  shows "pipe (os_handler sig w) = pipe w @ [sig]" "sig_engine (os_handler sig w) = sig_engine w"
  using assms by (simp_all add: os_handler_def sint_uint uint_word_of_int take_bit_int_eq_self signed_take_bit_int_eq_self)

section \<open>Properties\<close>


text \<open>\<open>stop()\<close> ends the loop at its next turn, whatever byte that turn reads, and restores the default action
  of every signal with a handler.\<close>

theorem signal_stop_ends_loop:
  assumes "is_active h w" and "\<forall>s. \<forall>(th, f) \<in> set (registered s h). accepts (sig_engine w) th"
    and "\<forall>s. length (registered s h) \<le> room (sig_engine w)" and "0 \<le> write_rc"
    and "signal_stop write_rc h w = (h1, w1)"
  shows "\<exists>h2 w2. signal_run_turn cur frame_of 1 h1 w1 = Inr (h2, w2) \<and>
    signal_run cur frame_of rcs h2 w2 = Inr (h2, w2) \<and> (\<forall>s \<in> fst ` set (handlers h). s \<notin> set (installed w2))"
proof -
  have st: "h1 = h\<lparr>running := False\<rparr>" "sig_engine w1 = sig_engine w" "pipe w1 = pipe w @ [SIGKILL]"
    "installed w1 = filter (\<lambda>s. s \<notin> fst ` set (handlers h)) (installed w)"
    using assms(1,4,5) by (auto simp: signal_stop_def)
  obtain b bs where p: "pipe w1 = b # bs" using st(3) by (cases "pipe w") auto
  have reg: "registered b (h1\<lparr>read_handle := null\<rparr>) = registered b h" by (simp add: st(1) registered_def)
  obtain e where e: "execute_handlers cur frame_of b (registered b h) (sig_engine w) = Inr e"
    using execute_handlers_all [of "registered b h" "sig_engine w" cur frame_of b] assms(2,3) by blast
  then have t: "signal_run_turn cur frame_of 1 h1 w1 =
      Inr (h1\<lparr>read_handle := null\<rparr>, w1\<lparr>pipe := bs, sig_engine := e\<rparr>)"
    by (simp add: signal_run_turn_def p reg st(2) Let_def)
  moreover have "signal_run cur frame_of rcs (h1\<lparr>read_handle := null\<rparr>) w' = Inr (h1\<lparr>read_handle := null\<rparr>, w')" for w'
    by (cases rcs) (simp_all add: st(1))
  ultimately show ?thesis using st(4) by simp
qed

text \<open>\<open>handle()\<close> keeps the function even when it reports failure: its result is false when the previous
  handler of the signal was not the default one, or could not be replaced, but the function is registered.\<close>

theorem signal_handle_keeps_function:
  assumes "is_active h w" and "registered sig h = []"
  shows "fst (signal_handle previous sig th f h w) = (previous = 0) \<and>
    registered sig (fst (snd (signal_handle previous sig th f h w))) = [(th, f)]"
  using assms by (simp add: signal_handle_def registered_add Let_def)

section \<open>Witnesses\<close>

definition demo_signal_world :: signal_world where
  "demo_signal_world = \<lparr>active = 512, pipe = [], installed = [], sig_engine = demo_engine\<rparr>"

definition demo_handler :: signal_handler where
  "demo_handler = \<lparr>handler_addr = 512, handlers = [], handler_fds = (3, 4), running = True, read_handle = null\<rparr>"


end
