(* ===== verification/Observable.thy ===== *)
theory Observable
  imports Async_Latch Async_Mutex
begin

text \<open>
  \<open>includes/zab/observable.hpp\<close>: values emitted to all connected observers.  An emission makes one
  \<open>pending_result\<close> per observer, appends it to the list of that observer and wakes it when it is suspended;
  the emitter then waits at a latch that every observer counts down when it is done with the value.

  Every operation on the list of observers runs with the \<open>async_mutex\<close> of the observable held, which
  \<open>Async_Mutex\<close> shows to be exclusive, so each is one step here; the mutex of one observer is only held
  inside such a step.  The results live in the frames of the emitting coroutines, the latches too: they are
  reached through their addresses.
\<close>

section \<open>State\<close>

record 'v pending_result =
  res_latch :: addr
  res_items :: 'v
  res_next :: addr

record internal_observer =
  obs_result :: addr
  obs_handle :: coro
  obs_thread :: thread_t

record 'v observable =
  obs_engine :: engine
  observers :: "(addr \<times> internal_observer) list"
  pendings :: "addr \<rightharpoonup> 'v pending_result"
  latches :: "addr \<rightharpoonup> async_latch"
  destroyed_frames :: "coro list"

text \<open>The handle a user holds: the observable is the one of the state; \<open>ob_internal\<close> is null after a
  disconnect, \<open>ob_connected\<close> is false after a move.\<close>

record observer =
  ob_connected :: bool
  ob_internal :: addr

definition make_observable :: "engine \<Rightarrow> 'v observable" where
  "make_observable e = \<lparr>obs_engine = e, observers = [], pendings = Map.empty, latches = Map.empty, destroyed_frames = []\<rparr>"

definition new_internal_observer :: internal_observer where
  "new_internal_observer = \<lparr>obs_result = null, obs_handle = null, obs_thread = thread_any\<rparr>"

definition move_observer :: "observer \<Rightarrow> observer \<times> observer" where
  "move_observer mv = (mv, \<lparr>ob_connected = False, ob_internal = null\<rparr>)"

section \<open>Latches\<close>

text \<open>A latch refers to the engine of the observable.\<close>

definition latch_count_down :: "nat \<Rightarrow> addr \<Rightarrow> 'v observable \<Rightarrow> 'v observable outcome" where
  "latch_count_down n la s =
     (case latches s la of
        None \<Rightarrow> Inl Bad_address
      | Some l \<Rightarrow>
          bind_outcome (count_down n 1 (l\<lparr>complete := (complete l)\<lparr>pt_engine := obs_engine s\<rparr>\<rparr>)) (\<lambda>l'.
          Inr (s\<lparr>latches := (latches s)(la \<mapsto> l'), obs_engine := pt_engine (complete l')\<rparr>)))"

definition latch_arrive_and_wait ::
    "nat \<Rightarrow> thread_t \<Rightarrow> addr \<Rightarrow> coro \<Rightarrow> addr \<Rightarrow> 'v observable \<Rightarrow> ('v observable \<times> bool) outcome" where
  "latch_arrive_and_wait n cur a co la s =
     (case latches s la of
        None \<Rightarrow> Inl Bad_address
      | Some l \<Rightarrow>
          bind_outcome (arrive_and_wait n 1 [] cur a co (l\<lparr>complete := (complete l)\<lparr>pt_engine := obs_engine s\<rparr>\<rparr>))
            (\<lambda>(l', b). Inr (s\<lparr>latches := (latches s)(la \<mapsto> l'), obs_engine := pt_engine (complete l')\<rparr>, b)))"

section \<open>Emitting\<close>

text \<open>The loop that finds the end of the list of an observer; \<open>n\<close> bounds its iterations.\<close>

fun find_tail :: "nat \<Rightarrow> addr \<Rightarrow> (addr \<rightharpoonup> 'v pending_result) \<Rightarrow> addr outcome" where
  "find_tail 0 p m = Inl Out_of_fuel"
| "find_tail (Suc n) p m =
     (case m p of
        None \<Rightarrow> Inl Bad_address
      | Some r \<Rightarrow> if res_next r = null then Inr p else find_tail n (res_next r) m)"

definition append_pending ::
    "nat \<Rightarrow> addr \<Rightarrow> addr \<Rightarrow> (addr \<rightharpoonup> 'v pending_result) \<Rightarrow> (addr \<times> (addr \<rightharpoonup> 'v pending_result)) outcome" where
  "append_pending n head new m =
     (if head = null then Inr (new, m)
      else bind_outcome (find_tail n head m) (\<lambda>t.
        case m t of None \<Rightarrow> Inl Bad_address | Some r \<Rightarrow> Inr (head, m(t \<mapsto> r\<lparr>res_next := new\<rparr>))))"

text \<open>One iteration of the loop of \<open>emit\<close>, for the observer \<open>o\<close> and the new result at \<open>p\<close>.\<close>

definition emit_one ::
    "nat \<Rightarrow> addr \<Rightarrow> 'v \<Rightarrow> addr \<Rightarrow> internal_observer \<Rightarrow> (addr \<rightharpoonup> 'v pending_result) \<Rightarrow> engine \<Rightarrow>
     (internal_observer \<times> (addr \<rightharpoonup> 'v pending_result) \<times> engine) outcome" where
  "emit_one n la v p ob m e =
     bind_outcome (append_pending n (obs_result ob) p (m(p \<mapsto> \<lparr>res_latch = la, res_items = v, res_next = null\<rparr>)))
       (\<lambda>(head, m').
          if obs_handle ob \<noteq> null
          then bind_outcome (thread_resume (resume_event (obs_handle ob)) (obs_thread ob) e) (\<lambda>e'.
                 Inr (ob\<lparr>obs_result := head, obs_handle := null\<rparr>, m', e'))
          else Inr (ob\<lparr>obs_result := head\<rparr>, m', e))"

fun emit_loop ::
    "nat \<Rightarrow> addr \<Rightarrow> 'v \<Rightarrow> addr list \<Rightarrow> (addr \<times> internal_observer) list \<Rightarrow> (addr \<rightharpoonup> 'v pending_result) \<Rightarrow> engine \<Rightarrow>
     ((addr \<times> internal_observer) list \<times> (addr \<rightharpoonup> 'v pending_result) \<times> engine) outcome" where
  "emit_loop n la v prs [] m e = Inr ([], m, e)"
| "emit_loop n la v [] (x # xs) m e = Inl Bad_address"
| "emit_loop n la v (p # prs) ((a, ob) # xs) m e =
     bind_outcome (emit_one n la v p ob m e) (\<lambda>(ob', m', e').
     bind_outcome (emit_loop n la v prs xs m' e') (\<lambda>(xs', m'', e''). Inr ((a, ob') # xs', m'', e'')))"

text \<open>\<open>emit\<close> while it holds the mutex: \<open>la\<close> is the address of its latch, \<open>prs\<close> those of the results.  The
  result says whether there is a latch to wait for.\<close>

definition emit :: "nat \<Rightarrow> addr \<Rightarrow> addr list \<Rightarrow> 'v \<Rightarrow> 'v observable \<Rightarrow> ('v observable \<times> bool) outcome" where
  "emit n la prs v s =
     (if observers s = [] then Inr (s, False)
      else let l = make_latch (obs_engine s) (of_nat (length (observers s)) + 1)
           in bind_outcome (emit_loop n la v prs (observers s) (pendings s) (obs_engine s)) (\<lambda>(os, m, e).
              Inr (s\<lparr>observers := os, pendings := m, obs_engine := e, latches := (latches s)(la \<mapsto> l)\<rparr>, True)))"

section \<open>Observing\<close>

definition observe_suspend :: "thread_t \<Rightarrow> coro \<Rightarrow> internal_observer \<Rightarrow> bool \<times> internal_observer" where
  "observe_suspend cur co ob =
     (if obs_result ob = null then (True, ob\<lparr>obs_handle := co, obs_thread := cur\<rparr>) else (False, ob))"

text \<open>\<open>await_resume\<close> takes the first result; what it returns, the \<open>observer_guard\<close>, is the address of it.\<close>

definition observe_resume ::
    "(addr \<rightharpoonup> 'v pending_result) \<Rightarrow> internal_observer \<Rightarrow> (addr \<times> internal_observer) outcome" where
  "observe_resume m ob =
     (if obs_result ob = null then Inl Null_dereference
      else case m (obs_result ob) of
        None \<Rightarrow> Inl Bad_address
      | Some r \<Rightarrow> Inr (obs_result ob, ob\<lparr>obs_result := res_next r\<rparr>))"

definition guard_event :: "addr \<Rightarrow> 'v observable \<Rightarrow> 'v outcome" where
  "guard_event g s = (case pendings s g of None \<Rightarrow> Inl Bad_address | Some r \<Rightarrow> Inr (res_items r))"

definition destroy_observer_guard :: "nat \<Rightarrow> addr \<Rightarrow> 'v observable \<Rightarrow> 'v observable outcome" where
  "destroy_observer_guard n g s =
     (case pendings s g of None \<Rightarrow> Inl Bad_address | Some r \<Rightarrow> latch_count_down n (res_latch r) s)"

section \<open>Connecting\<close>

definition connect_observer :: "addr \<Rightarrow> 'v observable \<Rightarrow> observer \<times> 'v observable" where
  "connect_observer a s =
     (\<lparr>ob_connected = True, ob_internal = a\<rparr>, s\<lparr>observers := observers s @ [(a, new_internal_observer)]\<rparr>)"

text \<open>The destructor of an \<open>internal_observer\<close>: every result that was not observed is counted down.  The
  suspended coroutine, if there is one, is destroyed; \<open>destroyed_frames\<close> records it.\<close>

fun release_results :: "nat \<Rightarrow> nat \<Rightarrow> addr \<Rightarrow> 'v observable \<Rightarrow> 'v observable outcome" where
  "release_results 0 n p s = (if p = null then Inr s else Inl Out_of_fuel)"
| "release_results (Suc k) n p s =
     (if p = null then Inr s
      else case pendings s p of
        None \<Rightarrow> Inl Bad_address
      | Some r \<Rightarrow> bind_outcome (latch_count_down n (res_latch r) s) (release_results k n (res_next r)))"

definition destroy_internal_observer ::
    "nat \<Rightarrow> nat \<Rightarrow> internal_observer \<Rightarrow> 'v observable \<Rightarrow> 'v observable outcome" where
  "destroy_internal_observer k n io s =
     bind_outcome (release_results k n (obs_result io) s) (\<lambda>s'.
       Inr (if obs_handle io \<noteq> null then s'\<lparr>destroyed_frames := destroyed_frames s' @ [obs_handle io]\<rparr> else s'))"

fun erase_observer :: "addr \<Rightarrow> (addr \<times> internal_observer) list \<Rightarrow> (internal_observer option \<times> (addr \<times> internal_observer) list)" where
  "erase_observer a [] = (None, [])"
| "erase_observer a ((b, ob) # xs) =
     (if b = a then (Some ob, xs) else let (r, ys) = erase_observer a xs in (r, (b, ob) # ys))"

definition disconnect :: "nat \<Rightarrow> nat \<Rightarrow> observer \<Rightarrow> 'v observable \<Rightarrow> (observer \<times> 'v observable) outcome" where
  "disconnect k n ob s =
     (if ob_internal ob = null then Inr (ob, s)
      else case erase_observer (ob_internal ob) (observers s) of
        (None, _) \<Rightarrow> Inr (ob\<lparr>ob_internal := null\<rparr>, s)
      | (Some io, xs) \<Rightarrow>
          bind_outcome (destroy_internal_observer k n io (s\<lparr>observers := xs\<rparr>)) (\<lambda>s'.
          Inr (ob\<lparr>ob_internal := null\<rparr>, s')))"

definition destroy_observer :: "nat \<Rightarrow> nat \<Rightarrow> observer \<Rightarrow> 'v observable \<Rightarrow> 'v observable outcome" where
  "destroy_observer k n ob s =
     (if ob_connected ob then bind_outcome (disconnect k n ob s) (\<lambda>(ob', s'). Inr s') else Inr s)"

text \<open>One turn of \<open>await_disconnect\<close>: whether it returns; otherwise it yields for 100 milliseconds.\<close>

definition await_disconnect_turn :: "'v observable \<Rightarrow> order_t option" where
  "await_disconnect_turn s = (if observers s = [] then None else Some (in_milli 100))"

section \<open>Lists of results\<close>

definition pend_next :: "(addr \<rightharpoonup> 'v pending_result) \<Rightarrow> addr \<Rightarrow> addr option" where
  "pend_next m p = map_option res_next (m p)"

definition result_of :: "(addr \<rightharpoonup> 'v pending_result) \<Rightarrow> addr \<Rightarrow> 'v \<times> addr" where
  "result_of m p = (res_items (the (m p)), res_latch (the (m p)))"

lemma pend_next_upd [simp]: "pend_next (m(a \<mapsto> r)) = (pend_next m)(a \<mapsto> res_next r)"
  by (auto simp: pend_next_def)

lemma pend_next_Some: "pend_next m a = Some q \<longleftrightarrow> (\<exists>r. m a = Some r \<and> res_next r = q)"
  by (auto simp: pend_next_def)

lemma chain_snoc:
  "chain nx p (xs @ [a]) q \<Longrightarrow> b \<notin> set (xs @ [a]) \<Longrightarrow> b \<noteq> q \<Longrightarrow>
   chain (nx(a \<mapsto> b, b \<mapsto> q)) p (xs @ [a, b]) q"
proof (induction xs arbitrary: p)
  case (Cons x xs)
  from Cons.prems(1) have "distinct (x # xs @ [a])" using chain_distinct by fastforce
  with Cons show ?case by auto
qed auto

lemma find_tail_last:
  "chain (pend_next m) p (xs @ [a]) null \<Longrightarrow> length xs < n \<Longrightarrow> find_tail n p m = Inr a"
proof (induction xs arbitrary: p n)
  case Nil
  then show ?case by (cases n) (auto simp: pend_next_Some)
next
  case (Cons x xs)
  then obtain k r where n: "n = Suc k" and r: "m x = Some r" "chain (pend_next m) (res_next r) (xs @ [a]) null"
    by (cases n) (auto simp: pend_next_Some)
  from r(2) have "res_next r \<noteq> null" by (cases xs) auto
  with Cons n r show ?case by simp
qed

lemma append_pending_chain:
  assumes "chain (pend_next m) head ps null" and "p \<notin> set ps" and "p \<noteq> null" and "m p = Some r"
    and "res_next r = null" and "length ps \<le> n"
  shows "\<exists>head' m'. append_pending n head p m = Inr (head', m') \<and> chain (pend_next m') head' (ps @ [p]) null \<and>
    (\<forall>x. x \<notin> set ps \<longrightarrow> m' x = m x) \<and> (\<forall>x. result_of m' x = result_of m x)"
proof (cases ps rule: rev_cases)
  case Nil
  then show ?thesis using assms by (auto simp: append_pending_def pend_next_Some)
next
  case (snoc xs a)
  then have c: "chain (pend_next m) head (xs @ [a]) null" using assms(1) by simp
  have hd: "head \<noteq> null" using c by (cases xs) auto
  obtain q where q: "m a = Some q"
    using chain_append_suffix [OF c] by (auto simp: pend_next_Some)
  have t: "find_tail n head m = Inr a" using c assms(6) snoc by (intro find_tail_last) auto
  let ?m = "m(a \<mapsto> q\<lparr>res_next := p\<rparr>)"
  have "pend_next ?m = (pend_next m)(a \<mapsto> p, p \<mapsto> null)"
    using assms(2,4,5) snoc by (auto simp: fun_eq_iff pend_next_def)
  then have "chain (pend_next ?m) head (ps @ [p]) null"
    using chain_snoc [OF c, of p] assms(2,3) snoc by simp
  moreover have "append_pending n head p m = Inr (head, ?m)" using hd t q by (simp add: append_pending_def)
  moreover have "result_of ?m x = result_of m x" for x using q by (simp add: result_of_def)
  ultimately show ?thesis using snoc by auto
qed

section \<open>The queues of the observers\<close>

text \<open>\<open>queues m xs pss\<close>: the results of the observers \<open>xs\<close> that are linked in \<open>m\<close> are the lists \<open>pss\<close>, and
  no result is in two of them.\<close>

definition queues :: "(addr \<rightharpoonup> 'v pending_result) \<Rightarrow> (addr \<times> internal_observer) list \<Rightarrow> addr list list \<Rightarrow> bool" where
  "queues m xs pss \<longleftrightarrow>
     list_all2 (\<lambda>(a, ob) ps. chain (pend_next m) (obs_result ob) ps null) xs pss \<and> distinct (concat pss)"

text \<open>The coroutines that wait for a value, with the threads they wait on.\<close>

definition sleepers :: "(addr \<times> internal_observer) list \<Rightarrow> (coro \<times> thread_t) list" where
  "sleepers xs = map (\<lambda>(a, ob). (obs_handle ob, obs_thread ob)) (filter (\<lambda>(a, ob). obs_handle ob \<noteq> null) xs)"

lemma sleepers_Nil [simp]: "sleepers [] = []"
  by (simp add: sleepers_def)

lemma sleepers_Cons [simp]:
  "sleepers ((a, ob) # xs) =
     (if obs_handle ob \<noteq> null then [(obs_handle ob, obs_thread ob)] else []) @ sleepers xs"
  by (simp add: sleepers_def)

definition sleeper_events :: "(addr \<times> internal_observer) list \<Rightarrow> tagged_event multiset" where
  "sleeper_events xs = mset (map (\<lambda>(co, th). resume_event co) (sleepers xs))"

lemma sleeper_events_Cons: "sleeper_events (x # xs) = sleeper_events [x] + sleeper_events xs"
  by (cases x) (simp add: sleeper_events_def)

lemma queues_Cons [simp]:
  "queues m ((a, ob) # xs) (ps # pss) \<longleftrightarrow>
     chain (pend_next m) (obs_result ob) ps null \<and> set ps \<inter> \<Union> (set (map set pss)) = {} \<and> queues m xs pss"
  by (auto simp: queues_def dest: chain_distinct)

lemma queues_cong:
  assumes "\<And>p. p \<in> set (concat pss) \<Longrightarrow> m p = m' p"
  shows "queues m xs pss = queues m' xs pss"
proof -
  have "chain (pend_next m) q ps null = chain (pend_next m') q ps null" if "ps \<in> set pss" for q ps
  proof (intro chain_cong)
    fix a assume "a \<in> set ps"
    with that have "a \<in> set (concat pss)" by auto
    then show "pend_next m a = pend_next m' a" using assms by (simp add: pend_next_def)
  qed
  then show ?thesis by (auto simp: queues_def list_all2_conv_all_nth split_beta)
qed

lemma set_snocs: "ps \<in> set (map2 (\<lambda>ps p. ps @ [p]) pss prs) \<Longrightarrow> set ps \<subseteq> set (concat pss) \<union> set prs"
  using set_zip_leftD set_zip_rightD by fastforce

lemma emit_one_appends:
  assumes "chain (pend_next m) (obs_result ob) ps null" and "p \<notin> set ps" and "p \<noteq> null" and "length ps \<le> n"
    and "obs_handle ob \<noteq> null \<Longrightarrow> accepts e (obs_thread ob) \<and> 0 < room e"
  shows "\<exists>ob' m' e'. emit_one n la v p ob m e = Inr (ob', m', e') \<and>
     chain (pend_next m') (obs_result ob') (ps @ [p]) null \<and> obs_handle ob' = null \<and>
     (\<forall>x. x \<notin> insert p (set ps) \<longrightarrow> m' x = m x) \<and> (\<forall>x. x \<noteq> p \<longrightarrow> result_of m' x = result_of m x) \<and>
     result_of m' p = (v, la) \<and> accepts e' = accepts e \<and>
     room e \<le> length (sleepers [(a, ob)]) + room e' \<and>
     queued e' = queued e + sleeper_events [(a, ob)]"
proof -
  let ?r = "\<lparr>res_latch = la, res_items = v, res_next = null\<rparr>"
  have "chain (pend_next (m(p \<mapsto> ?r))) (obs_result ob) ps null" using assms(1,2) by simp
  from append_pending_chain [OF this assms(2,3) _ _ assms(4), of ?r] obtain head m' where
    a: "append_pending n (obs_result ob) p (m(p \<mapsto> ?r)) = Inr (head, m')"
      "chain (pend_next m') head (ps @ [p]) null" "\<forall>x. x \<notin> set ps \<longrightarrow> m' x = (m(p \<mapsto> ?r)) x"
      "\<forall>x. result_of m' x = result_of (m(p \<mapsto> ?r)) x" by auto
  have r: "result_of m' p = (v, la)" "\<forall>x. x \<noteq> p \<longrightarrow> result_of m' x = result_of m x"
    using a(4) by (simp_all add: result_of_def)
  show ?thesis
  proof (cases "obs_handle ob = null")
    case True
    with a r show ?thesis by (simp add: emit_one_def sleepers_def sleeper_events_def)
  next
    case False
    with assms(5) obtain e' where "thread_resume (resume_event (obs_handle ob)) (obs_thread ob) e = Inr e'"
      "queued e' = add_mset (resume_event (obs_handle ob)) (queued e)" "accepts e' = accepts e"
      "room e \<le> Suc (room e')" using eng.resume_total [of e "obs_thread ob" "resume_event (obs_handle ob)"]
      by blast
    then have "emit_one n la v p ob m e = Inr (ob\<lparr>obs_result := head, obs_handle := null\<rparr>, m', e')"
      and "queued e' = queued e + sleeper_events [(a, ob)]"
      and "room e \<le> length (sleepers [(a, ob)]) + room e'" and "accepts e' = accepts e"
      using False a(1) by (simp_all add: emit_one_def sleeper_events_def)
    with a r show ?thesis
      by (intro exI [of _ "ob\<lparr>obs_result := head, obs_handle := null\<rparr>"] exI [of _ m'] exI [of _ e'])
        (simp del: sleepers_Cons)
  qed
qed

lemma emit_loop_appends:
  assumes "queues m xs pss" and "distinct prs" and "set prs \<inter> set (concat pss) = {}" and "null \<notin> set prs"
    and "length prs = length xs" and "\<forall>ps \<in> set pss. length ps \<le> n"
    and "\<forall>(co, th) \<in> set (sleepers xs). accepts e th" and "length (sleepers xs) \<le> room e"
  shows "\<exists>ys m' e'. emit_loop n la v prs xs m e = Inr (ys, m', e') \<and>
     queues m' ys (map2 (\<lambda>ps p. ps @ [p]) pss prs) \<and> map fst ys = map fst xs \<and> sleepers ys = [] \<and>
     (\<forall>x. x \<notin> set (concat pss) \<union> set prs \<longrightarrow> m' x = m x) \<and>
     (\<forall>x. x \<notin> set prs \<longrightarrow> result_of m' x = result_of m x) \<and> (\<forall>p \<in> set prs. result_of m' p = (v, la)) \<and>
     queued e' = queued e + sleeper_events xs"
  using assms
proof (induction xs arbitrary: pss prs m e)
  case Nil
  then show ?case by (simp add: queues_def sleepers_def sleeper_events_def)
next
  case (Cons x xs)
  obtain a ob where x: "x = (a, ob)" by force
  obtain p prs' where prs: "prs = p # prs'" using Cons.prems(5) by (cases prs) auto
  obtain ps pss' where pss: "pss = ps # pss'" using Cons.prems(1) by (cases pss) (auto simp: queues_def)
  from Cons.prems(1) have c: "chain (pend_next m) (obs_result ob) ps null" and q: "queues m xs pss'"
    and dj: "set ps \<inter> set (concat pss') = {}" by (auto simp: x pss)
  have "obs_handle ob \<noteq> null \<Longrightarrow> accepts e (obs_thread ob) \<and> 0 < room e" using Cons.prems(7,8) by (auto simp: x)
  from emit_one_appends [OF c _ _ _ this, of p n la v a] Cons.prems(3,4,6) obtain ob' m1 e1 where
    1: "emit_one n la v p ob m e = Inr (ob', m1, e1)" "chain (pend_next m1) (obs_result ob') (ps @ [p]) null"
      "obs_handle ob' = null" "\<forall>y. y \<notin> insert p (set ps) \<longrightarrow> m1 y = m y"
      "\<forall>y. y \<noteq> p \<longrightarrow> result_of m1 y = result_of m y" "result_of m1 p = (v, la)" "accepts e1 = accepts e"
      "room e \<le> length (sleepers [(a, ob)]) + room e1"
      "queued e1 = queued e + sleeper_events [(a, ob)]"
    by (auto simp: prs pss)
  have "queues m1 xs pss'"
    using q queues_cong [of pss' m m1 xs] 1(4) dj Cons.prems(3) by (fastforce simp: prs pss)
  moreover have "distinct prs'" "set prs' \<inter> set (concat pss') = {}" "null \<notin> set prs'" "length prs' = length xs"
    "\<forall>ps \<in> set pss'. length ps \<le> n" using Cons.prems(2-6) by (auto simp: prs pss)
  moreover have "\<forall>(co, th) \<in> set (sleepers xs). accepts e1 th" "length (sleepers xs) \<le> room e1"
    using Cons.prems(7,8) 1(7,8) by (auto simp: x split: if_splits)
  ultimately obtain ys m2 e2 where
    2: "emit_loop n la v prs' xs m1 e1 = Inr (ys, m2, e2)"
      "queues m2 ys (map2 (\<lambda>ps p. ps @ [p]) pss' prs')" "map fst ys = map fst xs" "sleepers ys = []"
      "\<forall>y. y \<notin> set (concat pss') \<union> set prs' \<longrightarrow> m2 y = m1 y"
      "\<forall>y. y \<notin> set prs' \<longrightarrow> result_of m2 y = result_of m1 y" "\<forall>p \<in> set prs'. result_of m2 p = (v, la)"
      "queued e2 = queued e1 + sleeper_events xs"
    using Cons.IH [of m1 pss' prs' e1] by blast
  have new: "y \<notin> set (concat pss') \<union> set prs'" if "y \<in> set (ps @ [p])" for y
    using that dj Cons.prems(2,3) by (auto simp: prs pss)
  then have "chain (pend_next m2) (obs_result ob') (ps @ [p]) null"
    using 1(2) 2(5) chain_cong [of "ps @ [p]" "pend_next m1" "pend_next m2"] by (simp add: pend_next_def)
  moreover have "set (ps @ [p]) \<inter> \<Union> (set (map set (map2 (\<lambda>ps p. ps @ [p]) pss' prs'))) = {}"
  proof -
    have "set qs \<subseteq> set (concat pss') \<union> set prs'" if "qs \<in> set (map2 (\<lambda>ps p. ps @ [p]) pss' prs')" for qs
      using that by (rule set_snocs)
    then show ?thesis using new unfolding set_map [of set] by blast
  qed
  ultimately have "queues m2 ((a, ob') # ys) (map2 (\<lambda>ps p. ps @ [p]) pss prs)"
    using 2(2) by (simp add: pss prs)
  moreover have "emit_loop n la v prs (x # xs) m e = Inr ((a, ob') # ys, m2, e2)"
    using 1(1) 2(1) by (simp add: x prs)
  moreover have "queued e2 = queued e + sleeper_events (x # xs)"
    using 1(9) 2(8) sleeper_events_Cons [of x xs] by (simp add: x)
  moreover have "\<forall>y. y \<notin> set (concat pss) \<union> set prs \<longrightarrow> m2 y = m y" using 1(4) 2(5) by (simp add: prs pss)
  moreover have "\<forall>y. y \<notin> set prs \<longrightarrow> result_of m2 y = result_of m y" using 1(5) 2(6) by (simp add: prs)
  moreover have "\<forall>q \<in> set prs. result_of m2 q = (v, la)" using 1(6) 2(6,7) Cons.prems(2) by (simp add: prs)
  ultimately show ?case using 1(3) 2(3,4) x
    by (intro exI [of _ "(a, ob') # ys"] exI [of _ m2] exI [of _ e2]) (simp add: sleepers_def)
qed

section \<open>Waiting for the observers\<close>

text \<open>The latch at \<open>la\<close> still counts \<open>k\<close>, and the coroutine \<open>co\<close>, which arrived on \<open>th\<close>, waits for it.\<close>

definition emitter_waits :: "'v observable \<Rightarrow> addr \<Rightarrow> int \<Rightarrow> coro \<Rightarrow> thread_t \<Rightarrow> bool" where
  "emitter_waits s la k co th \<longleftrightarrow>
     (\<exists>l a. latches s la = Some l \<and> sint (count l) = k \<and> waits (complete l) [a] \<and>
        events_of (pausers (complete l)) [a] = [(resume_event co, th)])"

lemma emitter_arrives:
  assumes "latches s la = Some (make_latch e amount)" and "1 < sint amount" and "a \<noteq> 0" and "a AND kUnpausedFlag = 0"
  shows "\<exists>s'. latch_arrive_and_wait n th a co la s = Inr (s', True) \<and> emitter_waits s' la (sint amount - 1) co th \<and>
     pendings s' = pendings s \<and> obs_engine s' = obs_engine s \<and> observers s' = observers s"
proof -
  let ?l = "(make_latch e amount)\<lparr>complete := (complete (make_latch e amount))\<lparr>pt_engine := obs_engine s\<rparr>\<rparr>"
  have "waits (complete ?l) []" by (simp add: waits_def make_latch_def make_token_def)
  from arrive_early [OF this, of a n "[]" th co] assms(2-4) obtain l' where
    "arrive_and_wait n 1 [] th a co ?l = Inr (l', True)" "waits (complete l') [a]" "sint (count l') = sint amount - 1"
    "events_of (pausers (complete l')) [a] = [(resume_event co, th)]" "pt_engine (complete l') = obs_engine s"
    by (auto simp: make_latch_def events_of_def)
  then show ?thesis using assms(1) by (auto simp: latch_arrive_and_wait_def emitter_waits_def)
qed

lemma guard_before_last:
  assumes "emitter_waits s la k co th" and "1 < k" and "pendings s g = Some r" and "res_latch r = la"
  shows "\<exists>s'. destroy_observer_guard n g s = Inr s' \<and> emitter_waits s' la (k - 1) co th \<and>
     pendings s' = pendings s \<and> obs_engine s' = obs_engine s"
proof -
  from assms(1) obtain l a where l: "latches s la = Some l" "sint (count l) = k" "waits (complete l) [a]"
    "events_of (pausers (complete l)) [a] = [(resume_event co, th)]" by (auto simp: emitter_waits_def)
  have "sint (count l - 1) = k - 1"
    using l(2) assms(2) sint_lt [of "count l"] sint_sub_exact [of "count l" 1] by simp
  then show ?thesis using l assms
    by (auto simp: destroy_observer_guard_def latch_count_down_def count_down_def opens_def Let_def
      emitter_waits_def waits_def)
qed

lemma guard_last:
  assumes "emitter_waits s la 1 co th" and "pendings s g = Some r" and "res_latch r = la"
    and "0 < n" and "accepts (obs_engine s) th" and "0 < room (obs_engine s)"
  shows "\<exists>s'. destroy_observer_guard n g s = Inr s' \<and>
     queued (obs_engine s') = add_mset (resume_event co) (queued (obs_engine s))"
proof -
  from assms(1) obtain l a where l: "latches s la = Some l" "sint (count l) = 1" "waits (complete l) [a]"
    "events_of (pausers (complete l)) [a] = [(resume_event co, th)]" by (auto simp: emitter_waits_def)
  let ?t = "(complete l)\<lparr>pt_engine := obs_engine s\<rparr>"
  have "waits ?t [a]" using l(3) by (simp add: waits_def)
  from unpause_token_waits [OF this, of n] l(4) assms(4-6) obtain e' where
    "unpause_token n ?t = Inr (?t\<lparr>resuming := kUnpausedFlag, pt_engine := e'\<rparr>)"
    "queued e' = add_mset (resume_event co) (queued (obs_engine s))" by auto
  then show ?thesis using l(1,2) assms(2,3)
    by (simp add: destroy_observer_guard_def latch_count_down_def count_down_def opens_def)
qed

lemma guards_before_last:
  assumes "emitter_waits s la k co th" and "int (length gs) < k"
    and "\<forall>g \<in> set gs. \<exists>r. pendings s g = Some r \<and> res_latch r = la"
  shows "\<exists>s'. fold_outcome (destroy_observer_guard n) gs s = Inr s' \<and>
     emitter_waits s' la (k - int (length gs)) co th \<and> pendings s' = pendings s \<and> obs_engine s' = obs_engine s"
  using assms
proof (induction gs arbitrary: s k)
  case (Cons g gs)
  then obtain r where "pendings s g = Some r" "res_latch r = la" by auto
  with Cons.prems guard_before_last [of s la k co th g r n] obtain s1 where
    1: "destroy_observer_guard n g s = Inr s1" "emitter_waits s1 la (k - 1) co th" "pendings s1 = pendings s"
      "obs_engine s1 = obs_engine s" by auto
  with Cons.prems Cons.IH [of s1 "k - 1"] obtain s2 where
    "fold_outcome (destroy_observer_guard n) gs s1 = Inr s2" "emitter_waits s2 la (k - 1 - int (length gs)) co th"
    "pendings s2 = pendings s1" "obs_engine s2 = obs_engine s1" by auto
  with 1 show ?case by (simp add: algebra_simps)
qed simp

lemma chain_defined: "chain nx p xs q \<Longrightarrow> a \<in> set xs \<Longrightarrow> nx a \<noteq> None"
  by (induction xs arbitrary: p) auto

lemma queues_defined:
  assumes "queues m xs pss" and "ps \<in> set pss" and "p \<in> set ps"
  shows "\<exists>r. m p = Some r"
proof -
  from assms(2) obtain i where i: "i < length pss" "ps = pss ! i" by (auto simp: in_set_conv_nth)
  with assms(1) have "case xs ! i of (a, ob) \<Rightarrow> chain (pend_next m) (obs_result ob) ps null"
    unfolding queues_def by (metis (no_types, lifting) case_prod_unfold list_all2_conv_all_nth)
  with assms(3) have "pend_next m p \<noteq> None" by (cases "xs ! i") (auto dest: chain_defined)
  then show ?thesis by (auto simp: pend_next_def)
qed

text \<open>What the observers will see, oldest first: per observer, its values with the latches of the emitters.\<close>

definition backlog :: "(addr \<rightharpoonup> 'v pending_result) \<Rightarrow> addr list list \<Rightarrow> ('v \<times> addr) list list" where
  "backlog m pss = map (map (result_of m)) pss"

lemma backlog_snoc:
  assumes "\<forall>p \<in> set prs. result_of m' p = r" and "\<forall>p \<in> set (concat pss). result_of m' p = result_of m p"
    and "length prs = length pss"
  shows "backlog m' (map2 (\<lambda>ps p. ps @ [p]) pss prs) = map (\<lambda>vs. vs @ [r]) (backlog m pss)"
  using assms(3,1,2) unfolding backlog_def by (induction prs pss rule: list_induct2) auto

text \<open>The addresses an emission uses: one result per observer, none of them in use.\<close>

definition fresh_results :: "addr list \<Rightarrow> addr list list \<Rightarrow> bool" where
  "fresh_results prs pss \<longleftrightarrow>
     distinct prs \<and> set prs \<inter> set (concat pss) = {} \<and> null \<notin> set prs \<and> length prs = length pss"

definition can_wake :: "'v observable \<Rightarrow> bool" where
  "can_wake s \<longleftrightarrow> (\<forall>(co, th) \<in> set (sleepers (observers s)). accepts (obs_engine s) th) \<and>
     length (sleepers (observers s)) \<le> room (obs_engine s)"

lemma emit_appends:
  assumes "observers s \<noteq> []" and "queues (pendings s) (observers s) pss" and "fresh_results prs pss"
    and "\<forall>ps \<in> set pss. length ps \<le> n" and "can_wake s"
  shows "\<exists>s'. emit n la prs v s = Inr (s', True) \<and>
     queues (pendings s') (observers s') (map2 (\<lambda>ps p. ps @ [p]) pss prs) \<and>
     backlog (pendings s') (map2 (\<lambda>ps p. ps @ [p]) pss prs) = map (\<lambda>vs. vs @ [(v, la)]) (backlog (pendings s) pss) \<and>
     map fst (observers s') = map fst (observers s) \<and> sleepers (observers s') = [] \<and>
     queued (obs_engine s') = queued (obs_engine s) + sleeper_events (observers s) \<and>
     latches s' = (latches s)(la \<mapsto> make_latch (obs_engine s) (of_nat (length (observers s)) + 1)) \<and>
     (\<forall>p \<in> set prs. result_of (pendings s') p = (v, la))"
proof -
  have len: "length pss = length (observers s)" using assms(2) by (auto simp: queues_def dest: list_all2_lengthD)
  have fr: "distinct prs" "set prs \<inter> set (concat pss) = {}" "null \<notin> set prs" "length prs = length (observers s)"
    using assms(3) len by (auto simp: fresh_results_def)
  from emit_loop_appends [OF assms(2) fr assms(4), of "obs_engine s" la v] assms(5) obtain ys m' e' where
    l: "emit_loop n la v prs (observers s) (pendings s) (obs_engine s) = Inr (ys, m', e')"
      "queues m' ys (map2 (\<lambda>ps p. ps @ [p]) pss prs)" "map fst ys = map fst (observers s)" "sleepers ys = []"
      "\<forall>x. x \<notin> set prs \<longrightarrow> result_of m' x = result_of (pendings s) x" "\<forall>p \<in> set prs. result_of m' p = (v, la)"
      "queued e' = queued (obs_engine s) + sleeper_events (observers s)" unfolding can_wake_def by blast
  have "\<forall>p \<in> set (concat pss). result_of m' p = result_of (pendings s) p" using l(5) fr(2) by blast
  with l(6) fr(4) len have b: "backlog m' (map2 (\<lambda>ps p. ps @ [p]) pss prs) = map (\<lambda>vs. vs @ [(v, la)]) (backlog (pendings s) pss)"
    by (intro backlog_snoc) auto
  let ?s = "s\<lparr>observers := ys, pendings := m', obs_engine := e',
    latches := (latches s)(la \<mapsto> make_latch (obs_engine s) (of_nat (length (observers s)) + 1))\<rparr>"
  have "emit n la prs v s = Inr (?s, True)" using l(1) assms(1) by (simp add: emit_def)
  with l b show ?thesis by (intro exI [of _ ?s]) simp
qed

lemma results_owned:
  assumes "queues m xs (map2 (\<lambda>ps p. ps @ [p]) pss prs)" and "length prs = length pss"
    and "\<forall>p \<in> set prs. result_of m p = (v, la)" and "g \<in> set prs"
  shows "\<exists>r. m g = Some r \<and> res_latch r = la"
proof -
  from assms(4) obtain i where "i < length prs" "g = prs ! i" by (auto simp: in_set_conv_nth)
  then have "(pss ! i @ [g]) \<in> set (map2 (\<lambda>ps p. ps @ [p]) pss prs)" using assms(2)
    by (auto simp: set_zip intro!: image_eqI [of _ _ "(pss ! i, g)"])
  from queues_defined [OF assms(1) this, of g] obtain r where "m g = Some r" by auto
  moreover from this assms(3,4) have "res_latch r = la" by (auto simp: result_of_def)
  ultimately show ?thesis by blast
qed

lemma sint_observers:
  assumes "k + 1 < 2 ^ 63"
  shows "sint (of_nat k + 1 :: 64 word) = int k + 1"
proof -
  have "(of_nat k + 1 :: 64 word) = word_of_int (int k + 1)" by simp
  then have "sint (of_nat k + 1 :: 64 word) = signed_take_bit 63 (int k + 1)"
    by (simp only: sint_sbintrunc') simp
  then show ?thesis using assms by (simp add: signed_take_bit_int_eq_self)
qed

section \<open>Properties\<close>

text \<open>C36: An emission reaches every connected observer: the value is appended to the pending values of each
  of them behind the values that wait there already, each coroutine that is suspended waiting for a value is
  queued for resumption exactly once and none stays registered, and the latch the emitter waits for counts
  every observer and the emitter.\<close>

theorem emit_reaches_every_observer:
  assumes "observers s \<noteq> []" and "queues (pendings s) (observers s) pss" and "fresh_results prs pss"
    and "\<forall>ps \<in> set pss. length ps \<le> n" and "can_wake s"
  shows "\<exists>s'. emit n la prs v s = Inr (s', True) \<and>
     queues (pendings s') (observers s') (map2 (\<lambda>ps p. ps @ [p]) pss prs) \<and>
     backlog (pendings s') (map2 (\<lambda>ps p. ps @ [p]) pss prs) = map (\<lambda>vs. vs @ [(v, la)]) (backlog (pendings s) pss) \<and>
     map fst (observers s') = map fst (observers s) \<and> sleepers (observers s') = [] \<and>
     queued (obs_engine s') = queued (obs_engine s) + sleeper_events (observers s) \<and>
     latches s' la = Some (make_latch (obs_engine s) (of_nat (length (observers s)) + 1))"
  using emit_appends [OF assms, of la v] by auto

text \<open>The emitter suspends after an emission, and goes on when the last observer is done with the value,
  in whatever order they finish: as long as a guard on the value is left nothing is queued for it, and the
  destruction of the last one queues it exactly once.\<close>

theorem emitter_resumed_by_last_observer:
  assumes "observers s \<noteq> []" and "queues (pendings s) (observers s) pss" and "fresh_results prs pss"
    and "\<forall>ps \<in> set pss. length ps \<le> n" and "can_wake s"
    and "emit n la prs v s = Inr (s', True)" and "length prs + 1 < 2 ^ 63" and "0 < n"
    and "accepts (obs_engine s') th" and "0 < room (obs_engine s')" and "a \<noteq> 0" and "a AND kUnpausedFlag = 0"
    and "mset gs = mset prs"
  shows "\<exists>s1. latch_arrive_and_wait n th a co la s' = Inr (s1, True) \<and>
     (\<forall>k < length gs. \<exists>t. fold_outcome (destroy_observer_guard n) (take k gs) s1 = Inr t \<and>
        queued (obs_engine t) = queued (obs_engine s')) \<and>
     (\<exists>t. fold_outcome (destroy_observer_guard n) gs s1 = Inr t \<and>
        queued (obs_engine t) = add_mset (resume_event co) (queued (obs_engine s')))"
proof -
  let ?k = "int (length gs)"
  from emit_appends [OF assms(1-5), of la v] assms(6) have
    q: "queues (pendings s') (observers s') (map2 (\<lambda>ps p. ps @ [p]) pss prs)"
    and la: "latches s' la = Some (make_latch (obs_engine s) (of_nat (length (observers s)) + 1))"
    and res: "\<forall>p \<in> set prs. result_of (pendings s') p = (v, la)" by auto
  have len: "length prs = length (observers s)" "length prs = length pss"
    using assms(2,3) by (auto simp: fresh_results_def queues_def dest: list_all2_lengthD)
  have gs: "set gs = set prs" "length gs = length prs" using assms(13) by (metis set_mset_mset, metis size_mset)
  have own: "\<exists>r. pendings s' g = Some r \<and> res_latch r = la" if "g \<in> set gs" for g
    using results_owned [OF q len(2) res, of g] that gs(1) by simp
  have "0 < length gs" using assms(1) len gs by simp
  have cnt: "sint (of_nat (length (observers s)) + 1 :: 64 word) = ?k + 1"
    using sint_observers [of "length prs"] assms(7) len gs by simp
  from emitter_arrives [OF la _ assms(11,12), of n th co] cnt \<open>0 < length gs\<close> obtain s1 where
    s1: "latch_arrive_and_wait n th a co la s' = Inr (s1, True)" "emitter_waits s1 la ?k co th"
      "pendings s1 = pendings s'" "obs_engine s1 = obs_engine s'" by auto
  have early: "\<exists>t. fold_outcome (destroy_observer_guard n) (take k gs) s1 = Inr t \<and>
      emitter_waits t la (?k - int k) co th \<and> pendings t = pendings s' \<and> obs_engine t = obs_engine s'" if "k < length gs" for k
  proof -
    have "\<forall>g \<in> set (take k gs). \<exists>r. pendings s1 g = Some r \<and> res_latch r = la"
      using own by (simp only: s1(3)) (blast dest: in_set_takeD)
    from guards_before_last [OF s1(2) _ this, of n] that s1 show ?thesis by simp
  qed
  obtain g hs where snoc: "gs = hs @ [g]" using \<open>0 < length gs\<close> by (cases gs rule: rev_cases) auto
  from early [of "length hs"] snoc obtain t where
    t: "fold_outcome (destroy_observer_guard n) hs s1 = Inr t" "emitter_waits t la 1 co th" "pendings t = pendings s'"
      "obs_engine t = obs_engine s'" by auto
  from own [of g] snoc obtain r where "pendings t g = Some r" "res_latch r = la" by (auto simp: t(3))
  from guard_last [OF t(2) this assms(8)] assms(9,10) t(4) obtain t' where
    "destroy_observer_guard n g t = Inr t'"
    "queued (obs_engine t') = add_mset (resume_event co) (queued (obs_engine s'))" by auto
  then have "fold_outcome (destroy_observer_guard n) gs s1 = Inr t'" using t(1) by (simp add: snoc fold_outcome_append)
  moreover have "\<exists>t. fold_outcome (destroy_observer_guard n) (take k gs) s1 = Inr t \<and>
      queued (obs_engine t) = queued (obs_engine s')" if "k < length gs" for k using early [OF that] by auto
  ultimately show ?thesis using s1(1) \<open>queued (obs_engine t') = _\<close> by blast
qed

text \<open>An observer takes its values in the order of the emissions: with a value pending it does not suspend and
  the first one is removed from its queue; without one it suspends.\<close>

theorem observe_takes_oldest:
  assumes "queues m xs pss" and "i < length xs" and "xs ! i = (a, ob)"
  shows "case pss ! i of
       [] \<Rightarrow> observe_suspend th co ob = (True, ob\<lparr>obs_handle := co, obs_thread := th\<rparr>)
     | p # ps \<Rightarrow> observe_suspend th co ob = (False, ob) \<and>
         (\<exists>ob'. observe_resume m ob = Inr (p, ob') \<and> queues m (xs[i := (a, ob')]) (pss[i := ps]))"
proof -
  have c: "chain (pend_next m) (obs_result ob) (pss ! i) null"
    using assms by (auto simp: queues_def list_all2_conv_all_nth)
  show ?thesis
  proof (cases "pss ! i")
    case Nil
    with c show ?thesis by (simp add: observe_suspend_def)
  next
    case (Cons p ps)
    with c obtain r where r: "obs_result ob = p" "p \<noteq> null" "m p = Some r" "chain (pend_next m) (res_next r) ps null"
      by (auto simp: pend_next_Some)
    let ?ob = "ob\<lparr>obs_result := res_next r\<rparr>"
    have len: "length pss = length xs" using assms(1) by (auto simp: queues_def dest: list_all2_lengthD)
    then have split: "pss = take i pss @ (p # ps) # drop (Suc i) pss" using assms(2) Cons id_take_nth_drop [of i pss] by simp
    have "distinct (concat (take i pss @ (p # ps) # drop (Suc i) pss))" using assms(1) split by (simp add: queues_def)
    then have "distinct (concat (pss[i := ps]))" using assms(2) len by (auto simp: upd_conv_take_nth_drop)
    moreover have "list_all2 (\<lambda>(a, ob) ps. chain (pend_next m) (obs_result ob) ps null) (xs[i := (a, ?ob)]) (pss[i := ps])"
      using assms(1) r(4) by (intro list_all2_update_cong) (auto simp: queues_def)
    ultimately have "queues m (xs[i := (a, ?ob)]) (pss[i := ps])" by (simp add: queues_def)
    with r Cons show ?thesis by (simp add: observe_suspend_def observe_resume_def)
  qed
qed

text \<open>An observer that disconnects with one value unread counts as done with it: it leaves the list, and an
  emitter that waits for it alone is queued.\<close>

theorem disconnect_releases_emitter:
  assumes "erase_observer (ob_internal ob) (observers s) = (Some io, xs)" and "ob_internal ob \<noteq> null"
    and "pendings s (obs_result io) = Some r" and "res_latch r = la" and "res_next r = null" and "obs_result io \<noteq> null"
    and "emitter_waits s la 1 co th" and "0 < n" and "accepts (obs_engine s) th" and "0 < room (obs_engine s)"
  shows "\<exists>s'. disconnect 1 n ob s = Inr (ob\<lparr>ob_internal := null\<rparr>, s') \<and> 
     queued (obs_engine s') = add_mset (resume_event co) (queued (obs_engine s))"
proof -
  let ?s = "s\<lparr>observers := xs\<rparr>"
  have "emitter_waits ?s la 1 co th" using assms(7) by (simp add: emitter_waits_def)
  from guard_last [OF this, of "obs_result io" r n] assms obtain s' where
    "destroy_observer_guard n (obs_result io) ?s = Inr s'"
    "queued (obs_engine s') = add_mset (resume_event co) (queued (obs_engine s))" by auto
  then show ?thesis using assms
    by (auto simp: disconnect_def destroy_internal_observer_def destroy_observer_guard_def)
qed

section \<open>Witnesses\<close>

text \<open>Two observers: one is suspended on worker 0, the other has not yet read the value 5.\<close>

definition demo_observable :: "int observable" where
  "demo_observable =
     (make_observable demo_engine)\<lparr>
       observers := [(128, \<lparr>obs_result = null, obs_handle = 64, obs_thread = Thread_t 0\<rparr>),
                     (136, \<lparr>obs_result = 200, obs_handle = null, obs_thread = Thread_t 1\<rparr>)],
       pendings := [200 \<mapsto> \<lparr>res_latch = 300, res_items = 5, res_next = null\<rparr>]\<rparr>"

lemma demo_observable_ok:
  "observers demo_observable \<noteq> []" "queues (pendings demo_observable) (observers demo_observable) [[], [200]]"
  "fresh_results [208, 216] [[], [200]]" "\<forall>ps \<in> set [[], [200 :: addr]]. length ps \<le> 1" "can_wake demo_observable"
  using demo_engine_accepts demo_engine_room
  by (simp_all add: demo_observable_def queues_def pend_next_def fresh_results_def can_wake_def sleepers_def
    make_observable_def)

theorem emit_reaches_every_observer_witness:
  "\<exists>s'. emit 1 304 [208, 216] 7 demo_observable = Inr (s', True) \<and>
     backlog (pendings s') [[208], [200, 216]] = [[(7, 304)], [(5, 300), (7, 304)]] \<and>
     queued (obs_engine s') = queued demo_engine + {#resume_event 64#} \<and>
     latches s' 304 = Some (make_latch demo_engine 3)"
  using emit_reaches_every_observer [OF demo_observable_ok, of 304 7]
  by (auto simp: demo_observable_def backlog_def result_of_def sleeper_events_def sleepers_def make_observable_def)

theorem observe_takes_oldest_witness:
  "observe_suspend (Thread_t 1) 72 (snd (observers demo_observable ! 1)) = (False, snd (observers demo_observable ! 1)) \<and>
   (\<exists>ob. observe_resume (pendings demo_observable) (snd (observers demo_observable ! 1)) = Inr (200, ob))"
  using observe_takes_oldest [OF demo_observable_ok(2), of 1 136 _ "Thread_t 1" 72]
  by (auto simp: demo_observable_def)

theorem emitter_resumed_by_last_observer_witness:
  "\<exists>s' s1 t. emit 1 304 [208, 216] 7 demo_observable = Inr (s', True) \<and>
     latch_arrive_and_wait 1 (Thread_t 0) 16 80 304 s' = Inr (s1, True) \<and>
     fold_outcome (destroy_observer_guard 1) [216, 208] s1 = Inr t \<and>
     queued (obs_engine t) = add_mset (resume_event 80) (queued (obs_engine s'))"
proof -
  let ?e = "demo_engine\<lparr>loops := (loops demo_engine)[0 := dispatch_user_event (resume_event 64) (loops demo_engine ! 0)]\<rparr>"
  have r: "thread_resume (resume_event 64) (Thread_t 0) demo_engine = Inr ?e"
    by (simp add: thread_resume_def resolve_thread_def demo_engine_def kAnyThread_def)
  obtain s' where s': "emit 1 304 [208, 216] 7 demo_observable = Inr (s', True)" "obs_engine s' = ?e"
    using r by (simp add: emit_def demo_observable_def make_observable_def emit_one_def append_pending_def Let_def)
  have "accepts ?e (Thread_t 0)" "0 < room ?e"
    by (simp_all add: accepts_def room_def demo_engine_def event_size_def demo_io_defs)
  with emitter_resumed_by_last_observer [OF demo_observable_ok s'(1), of "Thread_t 0" 16 "[216, 208]" 80] s'
  show ?thesis by (force simp: kUnpausedFlag_def)
qed

end
