(* ===== verification/Engine_Enabled.thy ===== *)
theory Engine_Enabled
  imports Engine Futures
begin

text \<open>
  \<open>includes/zab/engine_enabled.hpp\<close>: the base class through which a user class uses an engine: it registers
  \<open>initialise()\<close> and a periodic \<open>main()\<close>, and \<open>proxy\<close> calls a member function on a required thread.

  The static members the user class may override are the record \<open>base_class\<close>, with the two concepts it may
  satisfy as booleans.  \<open>cur\<close> is the calling thread; \<open>co\<close>, \<open>fi\<close> and \<open>fm\<close> are coroutine frames (of the proxy,
  and of the calls that \<open>execute\<close> defers).  What a member function does is a parameter.
\<close>

section \<open>Registration\<close>

record base_class =
  kMainCadence :: order_t
  kDefaultThread :: thread_t
  kInitialiseThread :: thread_t
  kMainThread :: thread_t
  has_initialise :: bool
  has_main :: bool

definition base_defaults :: base_class where
  "base_defaults = \<lparr>kMainCadence = seconds 30, kDefaultThread = any_thread, kInitialiseThread = any_thread,
     kMainThread = any_thread, has_initialise = False, has_main = False\<rparr>"

record engine_enabled =
  ee_engine :: addr

definition enabled_now :: order_t where
  "enabled_now = now"

definition enabled_next :: order_t where
  "enabled_next = Order_t 0"

definition enabled_thread :: "u16 \<Rightarrow> thread_t" where
  "enabled_thread n = Thread_t n"

definition enabled_any_thread :: thread_t where
  "enabled_any_thread = thread_any"

definition default_thread :: "base_class \<Rightarrow> thread_t" where
  "default_thread b = kDefaultThread b"

definition code_block :: "thread_t \<Rightarrow> coro \<Rightarrow> order_t \<Rightarrow> thread_t \<Rightarrow> engine \<Rightarrow> engine outcome" where
  "code_block cur frame ord th e = execute cur frame ord th e"

definition enabled_yield :: "thread_t \<Rightarrow> tagged_event \<Rightarrow> order_t \<Rightarrow> thread_t \<Rightarrow> engine \<Rightarrow> engine outcome" where
  "enabled_yield cur h ord th e = yield_ordered cur h ord th e"

definition enabled_yield_in :: "tagged_event \<Rightarrow> thread_t \<Rightarrow> engine \<Rightarrow> engine outcome" where
  "enabled_yield_in h th e = yield_in h th e"

definition enabled_unpause :: "thread_t \<Rightarrow> pause_pack \<Rightarrow> order_t \<Rightarrow> engine \<Rightarrow> engine outcome" where
  "enabled_unpause cur pp ord e = unpause_ordered cur pp ord e"

definition do_main :: "base_class \<Rightarrow> thread_t \<Rightarrow> coro \<Rightarrow> engine \<Rightarrow> engine outcome" where
  "do_main b cur fm e =
     (let th = (if kMainThread b = any_thread then kDefaultThread b else kMainThread b)
      in code_block cur fm (kMainCadence b) th e)"

text \<open>The function that \<open>do_main\<close> defers, run on the worker \<open>cur\<close>: \<open>main()\<close>, then \<open>do_main()\<close> again.\<close>

definition main_block :: "base_class \<Rightarrow> (engine \<Rightarrow> engine outcome) \<Rightarrow> thread_t \<Rightarrow> coro \<Rightarrow> engine \<Rightarrow> engine outcome" where
  "main_block b main cur fm e = bind_outcome (main e) (do_main b cur fm)"

definition register_engine ::
    "base_class \<Rightarrow> thread_t \<Rightarrow> coro \<Rightarrow> coro \<Rightarrow> addr \<Rightarrow> engine_enabled \<Rightarrow> engine \<Rightarrow> (bool \<times> engine_enabled \<times> engine) outcome" where
  "register_engine b cur fi fm eng ee e =
     (let ee1 = ee\<lparr>ee_engine := eng\<rparr>;
          th = (if kInitialiseThread b = any_thread then kDefaultThread b else kInitialiseThread b)
      in bind_outcome (if has_initialise b then code_block cur fi enabled_next th e else Inr e) (\<lambda>e1.
         bind_outcome (if has_main b then do_main b cur fm e1 else Inr e1) (\<lambda>e2.
         Inr (True, ee1, e2))))"

definition swap_enabled :: "engine_enabled \<Rightarrow> engine_enabled \<Rightarrow> engine_enabled \<times> engine_enabled" where
  "swap_enabled a b = (a\<lparr>ee_engine := ee_engine b\<rparr>, b\<lparr>ee_engine := ee_engine a\<rparr>)"

section \<open>Proxies\<close>

text \<open>The variable \<open>return_thread\<close> of a proxy and where it is suspended.\<close>

datatype proxy_pc = On_the_way | On_the_way_back | Proxy_done

record proxy_frame =
  px_required :: thread_t
  px_return :: thread_t
  px_pc :: proxy_pc

definition leaves :: "thread_t \<Rightarrow> thread_t \<Rightarrow> bool" where
  "leaves required t \<longleftrightarrow> required \<noteq> thread_any \<and> required \<noteq> t"

text \<open>The end of a proxy, after the call.\<close>

definition proxy_back :: "coro \<Rightarrow> proxy_frame \<Rightarrow> engine \<Rightarrow> (proxy_frame \<times> engine) outcome" where
  "proxy_back co p e =
     (if px_return p \<noteq> thread_any
      then bind_outcome (enabled_yield_in (Coroutine_alt co) (px_return p) e) (\<lambda>e'.
             Inr (p\<lparr>px_pc := On_the_way_back\<rparr>, e'))
      else Inr (p\<lparr>px_pc := Proxy_done\<rparr>, e))"

text \<open>What a member function does to the state of its object and to the engine when it runs on a thread.\<close>

type_synonym ('s, 'r) member = "thread_t \<Rightarrow> 's \<Rightarrow> engine \<Rightarrow> ('r \<times> 's \<times> engine) outcome"

text \<open>The proxy of an \<open>async_function\<close>: first the part up to the first suspension, then the part after a
  suspension, on the thread that resumes.\<close>

definition proxy_call ::
    "('s, unit) member \<Rightarrow> thread_t \<Rightarrow> coro \<Rightarrow> proxy_frame \<Rightarrow> 's \<Rightarrow> engine \<Rightarrow> (proxy_frame \<times> 's \<times> engine) outcome" where
  "proxy_call body cur co p s e =
     bind_outcome (body cur s e) (\<lambda>(_, s', e1).
     bind_outcome (proxy_back co p e1) (\<lambda>(p', e2). Inr (p', s', e2)))"

definition async_proxy ::
    "('s, unit) member \<Rightarrow> thread_t \<Rightarrow> coro \<Rightarrow> thread_t \<Rightarrow> 's \<Rightarrow> engine \<Rightarrow> (proxy_frame \<times> 's \<times> engine) outcome" where
  "async_proxy body cur co required s e =
     (if leaves required cur
      then bind_outcome (enabled_yield_in (Coroutine_alt co) required e) (\<lambda>e'.
             Inr (\<lparr>px_required = required, px_return = cur, px_pc = On_the_way\<rparr>, s, e'))
      else proxy_call body cur co \<lparr>px_required = required, px_return = thread_any, px_pc = On_the_way\<rparr> s e)"

definition async_proxy_resume ::
    "('s, unit) member \<Rightarrow> thread_t \<Rightarrow> coro \<Rightarrow> proxy_frame \<Rightarrow> 's \<Rightarrow> engine \<Rightarrow> (proxy_frame \<times> 's \<times> engine) outcome" where
  "async_proxy_resume body cur co p s e =
     (case px_pc p of
        On_the_way \<Rightarrow> proxy_call body cur co p s e
      | On_the_way_back \<Rightarrow> Inr (p\<lparr>px_pc := Proxy_done\<rparr>, s, e)
      | Proxy_done \<Rightarrow> Inl Null_dereference)"

text \<open>The proxy of a \<open>simple_future\<close>: the future is made first, on the calling thread, and awaited after the
  hop.  \<open>fut t\<close> is what awaiting it on the thread \<open>t\<close> does: its result and the thread on which it completes,
  where the proxy goes on.\<close>

definition proxy_await ::
    "('s, 'r option \<times> thread_t) member \<Rightarrow> thread_t \<Rightarrow> coro \<Rightarrow> proxy_frame \<Rightarrow> 's \<Rightarrow> engine \<Rightarrow>
     (proxy_frame \<times> ('r option \<times> thread_t) option \<times> 's \<times> engine) outcome" where
  "proxy_await fut cur co p s e =
     bind_outcome (fut cur s e) (\<lambda>(rt, s', e1).
     bind_outcome (proxy_back co p e1) (\<lambda>(p', e2). Inr (p', Some rt, s', e2)))"

definition simple_proxy ::
    "('s, 'r option \<times> thread_t) member \<Rightarrow> thread_t \<Rightarrow> coro \<Rightarrow> thread_t \<Rightarrow> 's \<Rightarrow> engine \<Rightarrow>
     (proxy_frame \<times> ('r option \<times> thread_t) option \<times> 's \<times> engine) outcome" where
  "simple_proxy fut cur co required s e =
     (if leaves required cur
      then bind_outcome (enabled_yield_in (Coroutine_alt co) required e) (\<lambda>e'.
             Inr (\<lparr>px_required = required, px_return = cur, px_pc = On_the_way\<rparr>, None, s, e'))
      else proxy_await fut cur co \<lparr>px_required = required, px_return = thread_any, px_pc = On_the_way\<rparr> s e)"

definition simple_proxy_resume ::
    "('s, 'r option \<times> thread_t) member \<Rightarrow> thread_t \<Rightarrow> coro \<Rightarrow>
     proxy_frame \<Rightarrow> ('r option \<times> thread_t) option \<Rightarrow> 's \<Rightarrow> engine \<Rightarrow>
     (proxy_frame \<times> ('r option \<times> thread_t) option \<times> 's \<times> engine) outcome" where
  "simple_proxy_resume fut cur co p res s e =
     (case px_pc p of
        On_the_way \<Rightarrow> proxy_await fut cur co p s e
      | On_the_way_back \<Rightarrow>
          (case res of
             None \<Rightarrow> Inl Null_dereference
           | Some (r, t) \<Rightarrow> Inr (p\<lparr>px_pc := Proxy_done\<rparr>, Some (r, cur), s, e))
      | Proxy_done \<Rightarrow> Inl Null_dereference)"

text \<open>The proxy of a \<open>reusable_future\<close>, one turn of its loop: the yield to the required thread, the wait for the
  generator, the yield back, and what the proxy does with the result.\<close>

definition reusable_proxy_there :: "coro \<Rightarrow> thread_t \<Rightarrow> thread_t \<Rightarrow> engine \<Rightarrow> (bool \<times> engine) outcome" where
  "reusable_proxy_there co required ret e =
     (if leaves required ret
      then bind_outcome (enabled_yield_in (Coroutine_alt co) required e) (\<lambda>e'. Inr (True, e'))
      else Inr (False, e))"

definition reusable_proxy_back :: "coro \<Rightarrow> thread_t \<Rightarrow> thread_t \<Rightarrow> engine \<Rightarrow> (bool \<times> engine) outcome" where
  "reusable_proxy_back co required ret e =
     (if ret \<noteq> thread_any \<and> required \<noteq> ret
      then bind_outcome (enabled_yield_in (Coroutine_alt co) ret e) (\<lambda>e'. Inr (True, e'))
      else Inr (False, e))"

definition reusable_proxy_await :: "coro \<Rightarrow> 'v reusable \<Rightarrow> ('v gen_step \<times> 'v reusable) outcome" where
  "reusable_proxy_await co g =
     bind_outcome (gen_await co g) (\<lambda>(v, g').
       Inr (if \<not> gen_complete g' then Yield_value v else Return_value v, g'))"

text \<open>The loop: the steps the proxy performs as a generator, to its \<open>co_return\<close>; \<open>n\<close> bounds the turns.\<close>

fun reusable_proxy_script :: "nat \<Rightarrow> coro \<Rightarrow> 'v reusable \<Rightarrow> 'v gen_step list outcome" where
  "reusable_proxy_script 0 co g = Inl Out_of_fuel"
| "reusable_proxy_script (Suc n) co g =
     bind_outcome (reusable_proxy_await co g) (\<lambda>(step, g').
       case step of
         Return_value v \<Rightarrow> Inr [Return_value v]
       | Yield_value v \<Rightarrow> bind_outcome (reusable_proxy_script n co g') (\<lambda>xs. Inr (Yield_value v # xs)))"

section \<open>Placing an event\<close>

text \<open>A worker thread: one of the loops of the engine runs on it.\<close>

definition worker_thread :: "engine \<Rightarrow> thread_t \<Rightarrow> bool" where
  "worker_thread e th \<longleftrightarrow> th \<noteq> thread_any \<and> unat (thread_id th) < length (loops e)"

text \<open>\<open>queue_at th h e\<close>: the event \<open>h\<close> behind the other events of the loop of \<open>th\<close>, and nothing else changed.\<close>

definition queue_at :: "thread_t \<Rightarrow> tagged_event \<Rightarrow> engine \<Rightarrow> engine" where
  "queue_at th h e =
     (let i = unat (thread_id th)
      in e\<lparr>loops := (loops e)[i := dispatch_user_event h (loops e ! i)]\<rparr>)"

lemma thread_any_iff: "th = thread_any \<longleftrightarrow> thread_id th = kAnyThread"
  by (cases th) (simp add: thread_any_def)

lemma thread_resume_worker:
  "worker_thread e th \<Longrightarrow> thread_resume h th e = Inr (queue_at th h e)"
  by (simp add: worker_thread_def thread_resume_def resolve_thread_def queue_at_def thread_any_iff Let_def)

lemma yield_in_worker [simp]:
  "worker_thread e th \<Longrightarrow> enabled_yield_in (Coroutine_alt co) th e = Inr (queue_at th (resume_event co) e)"
  by (simp add: enabled_yield_in_def yield_in_def thread_resume_worker)

lemma worker_thread_queue_at [simp]: "worker_thread (queue_at t h e) th = worker_thread e th"
  by (simp add: worker_thread_def queue_at_def Let_def)

lemma queue_at_handles:
  assumes "worker_thread e th"
  shows "write_handles (loops (queue_at th h e) ! unat (thread_id th)) =
     write_handles (loops e ! unat (thread_id th)) @ [h]"
  using assms by (simp add: queue_at_def worker_thread_def Let_def)

section \<open>Properties\<close>

text \<open>C38: A proxy runs the member function on the required thread and ends on the thread of the caller.  When
  the caller is already there, or any thread will do, the member runs at once and nothing is queued.
  Otherwise the member does not run on the calling thread: the proxy is queued behind the other events of the
  required worker; resumed there it runs the member and is queued at the worker of the caller, where it
  ends.\<close>

theorem proxy_runs_on_required_thread:
  assumes "worker_thread e cur" and "required = thread_any \<or> worker_thread e required"
    and "body (if required \<noteq> thread_any \<and> required \<noteq> cur then required else cur) s e1 = Inr ((), s', e2)" and "worker_thread e2 cur"
  shows "if required \<noteq> thread_any \<and> required \<noteq> cur
     then (\<exists>p1 p2 p3. async_proxy body cur co required s0 e = Inr (p1, s0, queue_at required (resume_event co) e) \<and>
        async_proxy_resume body required co p1 s e1 = Inr (p2, s', queue_at cur (resume_event co) e2) \<and>
        async_proxy_resume body cur co p2 s3 e3 = Inr (p3, s3, e3) \<and> px_pc p3 = Proxy_done)
     else (\<exists>p. async_proxy body cur co required s e1 = Inr (p, s', e2) \<and> px_pc p = Proxy_done)"
proof (cases "required \<noteq> thread_any \<and> required \<noteq> cur")
  case True
  with assms(2) have w: "worker_thread e required" by auto
  have cur: "cur \<noteq> thread_any" using assms(1) by (simp add: worker_thread_def)
  show ?thesis using True w cur assms(3,4)
    by (auto simp: leaves_def async_proxy_def async_proxy_resume_def proxy_call_def proxy_back_def)
next
  case False
  with assms(3) show ?thesis by (auto simp: leaves_def async_proxy_def proxy_call_def proxy_back_def)
qed

text \<open>The proxy of a \<open>simple_future\<close> returns the result of the future, awaited on the required thread, to the
  thread of the caller when it left that; when it did not, it ends on the thread where the future
  completed.\<close>

theorem simple_proxy_returns_result:
  assumes "worker_thread e cur" and "required = thread_any \<or> worker_thread e required"
    and "fut (if required \<noteq> thread_any \<and> required \<noteq> cur then required else cur) s e1 = Inr ((r, t), s', e2)" and "worker_thread e2 cur"
  shows "if required \<noteq> thread_any \<and> required \<noteq> cur
     then (\<exists>p1 p2 p3. simple_proxy fut cur co required s0 e = Inr (p1, None, s0, queue_at required (resume_event co) e) \<and>
        simple_proxy_resume fut required co p1 None s e1 = Inr (p2, Some (r, t), s', queue_at cur (resume_event co) e2) \<and>
        simple_proxy_resume fut cur co p2 (Some (r, t)) s3 e3 = Inr (p3, Some (r, cur), s3, e3) \<and> px_pc p3 = Proxy_done)
     else (\<exists>p. simple_proxy fut cur co required s e1 = Inr (p, Some (r, t), s', e2) \<and> px_pc p = Proxy_done)"
proof (cases "required \<noteq> thread_any \<and> required \<noteq> cur")
  case True
  with assms(2) have w: "worker_thread e required" by auto
  have cur: "cur \<noteq> thread_any" using assms(1) by (simp add: worker_thread_def)
  show ?thesis using True w cur assms(3,4)
    by (auto simp: leaves_def simple_proxy_def simple_proxy_resume_def proxy_await_def proxy_back_def)
next
  case False
  with assms(3) show ?thesis by (auto simp: leaves_def simple_proxy_def proxy_await_def proxy_back_def)
qed

text \<open>What a generator does: it yields some values and returns one.\<close>

definition generator :: "'v reusable \<Rightarrow> 'v option list \<Rightarrow> 'v option \<Rightarrow> bool" where
  "generator g vs v \<longleftrightarrow> g_script g = map Yield_value vs @ [Return_value v] \<and> g_state g \<noteq> kComplete"

lemma gen_await_generator:
  "generator g (u # vs) v \<Longrightarrow> \<exists>g'. gen_await co g = Inr (u, g') \<and> generator g' vs v"
  by (cases "g_state g") (auto simp: generator_def gen_await_def gen_resume_def value_ready_def prepare_def
    store_item_def gen_suspend_def Let_def split: option.splits)

lemma gen_await_generator_end:
  "generator g [] v \<Longrightarrow> \<exists>g'. gen_await co g = Inr (v, g') \<and> gen_complete g'"
  by (cases "g_state g") (auto simp: generator_def gen_await_def gen_resume_def value_ready_def prepare_def
    store_item_def gen_suspend_def gen_complete_def Let_def split: option.splits)

text \<open>The proxy of a generator is transparent: it yields the values of the generator, in order, and returns
  the value the generator returns, and its loop ends.\<close>

theorem reusable_proxy_transparent:
  assumes "generator g vs v" and "length vs < n"
  shows "reusable_proxy_script n co g = Inr (g_script g)"
  using assms
proof (induction vs arbitrary: g n)
  case Nil
  then obtain k where "n = Suc k" by (cases n) auto
  with Nil gen_await_generator_end [of g v co] show ?case
    by (auto simp: reusable_proxy_await_def generator_def simp del: bind_outcome_eq_Inr)
next
  case (Cons u vs)
  then obtain k where k: "n = Suc k" "length vs < k" by (cases n) auto
  from gen_await_generator [OF Cons.prems(1), of co] obtain g' where
    g': "gen_await co g = Inr (u, g')" "generator g' vs v" by blast
  from Cons.IH [OF g'(2) k(2)] g' Cons.prems(1) k(1) show ?case
    by (auto simp: reusable_proxy_await_def generator_def gen_complete_def simp del: bind_outcome_eq_Inr)
qed

text \<open>A class with a \<open>main()\<close> can only be registered by a worker thread: the timer that drives \<open>main()\<close> is
  the one of the calling thread, and a thread outside the engine has none.\<close>

theorem register_main_needs_worker:
  assumes "has_main b" and "order_ns (kMainCadence b) \<noteq> 0"
    and "has_initialise b \<Longrightarrow>
      worker_thread e (if kInitialiseThread b = any_thread then kDefaultThread b else kInitialiseThread b)"
  shows "register_engine b thread_any fi fm eng ee e = Inl Assertion_failed"
proof -
  have m: "do_main b thread_any fm e' = Inl Assertion_failed" for e'
    using assms(2) by (simp add: do_main_def code_block_def zab_defs Let_def)
  show ?thesis
  proof (cases "has_initialise b")
    case True
    with assms(3) have "code_block thread_any fi enabled_next
        (if kInitialiseThread b = any_thread then kDefaultThread b else kInitialiseThread b) e \<in> range Inr"
      by (auto simp: code_block_def execute_def yield_ordered_def delayed_resume_def enabled_next_def resolve_thread_def
        thread_resume_worker worker_thread_def thread_any_iff Let_def)
    with True m assms(1) show ?thesis by (auto simp: register_engine_def)
  next
    case False
    with m assms(1) show ?thesis by (simp add: register_engine_def)
  qed
qed

section \<open>Witnesses\<close>

lemma demo_workers: "worker_thread demo_engine (Thread_t 0)" "worker_thread demo_engine (Thread_t 1)"
  by (simp_all add: worker_thread_def demo_engine_def thread_any_def kAnyThread_def)

definition demo_member :: "(thread_t list, unit) member" where
  "demo_member t s e = Inr ((), t # s, e)"

theorem proxy_runs_on_required_thread_witness:
  "\<exists>p. async_proxy demo_member (Thread_t 0) 64 (Thread_t 1) [] demo_engine =
       Inr (p, [], queue_at (Thread_t 1) (resume_event 64) demo_engine) \<and>
     (\<exists>p'. async_proxy_resume demo_member (Thread_t 1) 64 p [] demo_engine =
       Inr (p', [Thread_t 1], queue_at (Thread_t 0) (resume_event 64) demo_engine))"
  using proxy_runs_on_required_thread [of demo_engine "Thread_t 0" "Thread_t 1" demo_member "[]" demo_engine
    "[Thread_t 1]" demo_engine 64 "[]" "[]" demo_engine] demo_workers
  by (auto simp: leaves_def thread_any_def kAnyThread_def demo_member_def)

theorem reusable_proxy_transparent_witness:
  "reusable_proxy_script 3 64 \<lparr>g_state = kEmpty, g_data = None, g_underlying = null,
       g_script = [Yield_value (Some 1), Yield_value (Some (2 :: int)), Return_value None]\<rparr> =
     Inr [Yield_value (Some 1), Yield_value (Some 2), Return_value None]"
  using reusable_proxy_transparent [of "\<lparr>g_state = kEmpty, g_data = None, g_underlying = null,
       g_script = [Yield_value (Some 1), Yield_value (Some (2 :: int)), Return_value None]\<rparr>" "[Some 1, Some 2]" None 3 64]
  by (simp add: generator_def)

end
