(* ===== verification/Generators.thy ===== *)
theory Generators
  imports Futures
begin

text \<open>
  The rest of \<open>includes/zab/reusable_future.hpp\<close> and \<open>includes/zab/reusable_promise.hpp\<close>: who owns the frame
  of a generator, its forced completion, and the specialisation \<open>reusable_promise<void>\<close>, which keeps no data.
\<close>

section \<open>Ownership of the frame\<close>

text \<open>The frames of generators, and the coroutines that were destroyed because a generator that was
  destroyed still had an awaiter (\<open>~reusable_promise\<close>).  A \<open>reusable_future\<close> is the address of its frame.\<close>

record 'v gen_store =
  gen_frames :: "addr \<rightharpoonup> 'v reusable"
  gen_destroyed :: "coro list"

definition destroy_reusable_promise :: "'v reusable \<Rightarrow> coro list" where
  "destroy_reusable_promise g = (if g_underlying g \<noteq> null then [g_underlying g] else [])"

definition destroy_frame :: "addr \<Rightarrow> 'v gen_store \<Rightarrow> 'v gen_store outcome" where
  "destroy_frame h s =
     (case gen_frames s h of
        None \<Rightarrow> Inl Bad_address
      | Some g \<Rightarrow> Inr (s\<lparr>gen_frames := (gen_frames s)(h := None),
                      gen_destroyed := gen_destroyed s @ destroy_reusable_promise g\<rparr>))"

definition destroy_reusable_future :: "addr \<Rightarrow> 'v gen_store \<Rightarrow> 'v gen_store outcome" where
  "destroy_reusable_future h s =
     (if h = null then Inr s
      else case gen_frames s h of
        None \<Rightarrow> Inl Bad_address
      | Some g \<Rightarrow> if gen_complete g then destroy_frame h s else Inr s)"

text \<open>The new values of the two futures; for an assignment the first is the target.\<close>

definition move_reusable_future :: "addr \<Rightarrow> addr \<times> addr" where
  "move_reusable_future other = (other, null)"

definition assign_reusable_future :: "addr \<Rightarrow> addr \<Rightarrow> 'v gen_store \<Rightarrow> (addr \<times> addr \<times> 'v gen_store) outcome" where
  "assign_reusable_future h other s =
     bind_outcome (if h \<noteq> null then destroy_frame h s else Inr s) (\<lambda>s'. Inr (other, null, s'))"

definition future_complete :: "addr \<Rightarrow> 'v gen_store \<Rightarrow> bool outcome" where
  "future_complete h s =
     (if h = null then Inr True
      else case gen_frames s h of None \<Rightarrow> Inl Bad_address | Some g \<Rightarrow> Inr (gen_complete g))"

definition promise_force_completion :: "'v reusable \<Rightarrow> 'v reusable" where
  "promise_force_completion g = g\<lparr>g_state := kComplete\<rparr>"

definition force_completion :: "addr \<Rightarrow> 'v gen_store \<Rightarrow> (addr \<times> 'v gen_store) outcome" where
  "force_completion h s =
     (if h = null then Inr (h, s)
      else case gen_frames s h of
        None \<Rightarrow> Inl Bad_address
      | Some g \<Rightarrow> bind_outcome
          (destroy_frame h (s\<lparr>gen_frames := (gen_frames s)(h \<mapsto> promise_force_completion g)\<rparr>)) (\<lambda>s'. Inr (null, s')))"

section \<open>Programs that use generators\<close>

text \<open>Several futures, by position.  A moved-from, finished or destroyed future holds null.\<close>

datatype gen_op = Move_new nat | Assign nat nat | Force nat | Destroy nat | Complete nat

record 'v gen_prog =
  owners :: "addr list"
  gstore :: "'v gen_store"

fun gen_do :: "gen_op \<Rightarrow> 'v gen_prog \<Rightarrow> 'v gen_prog outcome" where
  "gen_do (Move_new i) p =
     (let (new, old) = move_reusable_future (owners p ! i)
      in Inr (p\<lparr>owners := (owners p)[i := old] @ [new]\<rparr>))"
| "gen_do (Assign i j) p =
     bind_outcome (assign_reusable_future (owners p ! i) (owners p ! j) (gstore p)) (\<lambda>(a, b, s).
       Inr (p\<lparr>owners := (owners p)[i := a, j := b], gstore := s\<rparr>))"
| "gen_do (Force i) p =
     bind_outcome (force_completion (owners p ! i) (gstore p)) (\<lambda>(a, s).
       Inr (p\<lparr>owners := (owners p)[i := a], gstore := s\<rparr>))"
| "gen_do (Destroy i) p =
     bind_outcome (destroy_reusable_future (owners p ! i) (gstore p)) (\<lambda>s.
       Inr (p\<lparr>owners := (owners p)[i := null], gstore := s\<rparr>))"
| "gen_do (Complete i) p =
     bind_outcome (future_complete (owners p ! i) (gstore p)) (\<lambda>_. Inr p)"

fun op_bound :: "gen_op \<Rightarrow> nat" where
  "op_bound (Move_new i) = i"
| "op_bound (Assign i j) = max i j"
| "op_bound (Force i) = i"
| "op_bound (Destroy i) = i"
| "op_bound (Complete i) = i"

text \<open>No two futures own the same frame, and an owned frame exists.\<close>

definition live :: "addr list \<Rightarrow> addr multiset" where
  "live xs = {#a \<in># mset xs. a \<noteq> null#}"

definition owned :: "'v gen_prog \<Rightarrow> bool" where
  "owned p \<longleftrightarrow> once (live (owners p)) \<and> set_mset (live (owners p)) \<subseteq> dom (gen_frames (gstore p))"

lemma live_update:
  assumes "i < length xs"
  shows "live (xs[i := v]) = (live xs - {#xs ! i#}) + (if v = null then {#} else {#v#})"
  using assms by (auto simp: live_def mset_update filter_diff_mset)

lemma live_nth: "i < length xs \<Longrightarrow> xs ! i \<noteq> null \<Longrightarrow> xs ! i \<in># live xs"
  by (simp add: live_def)

lemma ownedD:
  "owned p \<Longrightarrow> i < length (owners p) \<Longrightarrow> owners p ! i = null \<or> (\<exists>g. gen_frames (gstore p) (owners p ! i) = Some g)"
  using live_nth [of i "owners p"] by (auto simp: owned_def)

lemma owned_live: "owned p \<Longrightarrow> live (owners q) = live (owners p) \<Longrightarrow> gstore q = gstore p \<Longrightarrow> owned q"
  by (simp add: owned_def)

lemma owned_release:
  assumes "owned p" and "i < length (owners p)"
    and "\<And>a. a \<noteq> owners p ! i \<Longrightarrow> gen_frames s a = gen_frames (gstore p) a"
  shows "owned (p\<lparr>owners := (owners p)[i := null], gstore := s\<rparr>)"
proof -
  have l: "live ((owners p)[i := null]) = live (owners p) - {#owners p ! i#}" using live_update [OF assms(2), of null] by simp
  have "owners p ! i \<notin># live (owners p) - {#owners p ! i#}"
    using assms(1) by (auto simp: owned_def once_def not_in_iff)
  moreover have "a \<in> dom (gen_frames s)" if "a \<in># live (owners p) - {#owners p ! i#}" "a \<noteq> owners p ! i" for a
    using assms(1) that in_diffD [OF that(1)] assms(3) [OF that(2)] by (auto simp: owned_def dom_def)
  moreover have "once (live (owners p) - {#owners p ! i#})"
    using assms(1) by (auto simp: owned_def once_def intro: le_trans [OF diff_le_self])
  ultimately show ?thesis by (auto simp: owned_def l)
qed

lemma owned_same_store:
  "owned p \<Longrightarrow> i < length (owners p) \<Longrightarrow> owned (p\<lparr>owners := (owners p)[i := null]\<rparr>)"
  using owned_release [of p i "gstore p"] by simp

lemma owned_transfer:
  assumes "owned p" and "i < length (owners p)" and "j < length (owners p)" and "owners p ! i = null"
  shows "owned (p\<lparr>owners := (owners p)[i := owners p ! j, j := null]\<rparr>)"
proof -
  let ?xs = "(owners p)[i := owners p ! j]"
  have "live ?xs = live (owners p) + (if owners p ! j = null then {#} else {#owners p ! j#})"
    using live_update [OF assms(2)] assms(4) by (simp add: live_def)
  moreover have "?xs ! j = owners p ! j" using assms(3) by (cases "i = j") simp_all
  ultimately have "live (?xs[j := null]) = live (owners p)"
    using live_update [of j ?xs null] assms(3) by (simp add: live_def)
  then show ?thesis by (intro owned_live [OF assms(1)]) simp_all
qed

lemma owned_move:
  assumes "owned p" and "i < length (owners p)"
  shows "owned (p\<lparr>owners := (owners p)[i := null] @ [owners p ! i]\<rparr>)"
proof -
  have "live ((owners p)[i := null] @ [owners p ! i]) = live ((owners p)[i := null]) + live [owners p ! i]"
    by (simp add: live_def)
  also have "\<dots> = live (owners p)"
    using live_update [OF assms(2), of null] live_nth [OF assms(2)] by (auto simp: live_def)
  finally show ?thesis by (intro owned_live [OF assms(1)]) simp_all
qed

lemma destroy_frame_owned:
  assumes "owned p" and "i < length (owners p)" and "owners p ! i \<noteq> null"
  shows "\<exists>s. destroy_frame (owners p ! i) (gstore p) = Inr s \<and> 
    owned (p\<lparr>owners := (owners p)[i := null], gstore := s\<rparr>)"
proof -
  obtain g where "gen_frames (gstore p) (owners p ! i) = Some g" using ownedD [OF assms(1,2)] assms(3) by auto
  with owned_release [OF assms(1,2)] show ?thesis by (simp add: destroy_frame_def)
qed

lemma gen_do_owned:
  assumes "owned p" and "op_bound x < length (owners p)"
  shows "\<exists>p'. gen_do x p = Inr p' \<and> owned p' \<and> length (owners p) \<le> length (owners p')"
proof (cases x)
  case (Move_new i)
  with assms owned_move [of p i] show ?thesis by (simp add: move_reusable_future_def)
next
  case (Assign i j)
  then have ij: "i < length (owners p)" "j < length (owners p)" using assms(2) by auto
  show ?thesis
  proof (cases "owners p ! i = null")
    case True
    with Assign ij assms(1) owned_transfer [of p i j] show ?thesis by (simp add: assign_reusable_future_def)
  next
    case False
    from destroy_frame_owned [OF assms(1) ij(1) False] obtain s where
      s: "destroy_frame (owners p ! i) (gstore p) = Inr s" "owned (p\<lparr>owners := (owners p)[i := null], gstore := s\<rparr>)" by blast
    let ?p = "p\<lparr>owners := (owners p)[i := null], gstore := s\<rparr>"
    have "owned (?p\<lparr>owners := (owners ?p)[i := owners ?p ! j, j := null]\<rparr>)"
      using owned_transfer [OF s(2), of i j] ij by simp
    then have "owned (p\<lparr>owners := (owners p)[i := owners p ! j, j := null], gstore := s\<rparr>)"
      by (cases "i = j") (simp_all add: owned_def)
    with s Assign False show ?thesis by (simp add: assign_reusable_future_def)
  qed
next
  case (Force i)
  then have i: "i < length (owners p)" using assms(2) by simp
  show ?thesis
  proof (cases "owners p ! i = null")
    case True
    have "(owners p)[i := null] = owners p" using True by (metis list_update_id)
    with Force True assms(1) show ?thesis by (simp add: force_completion_def)
  next
    case False
    with ownedD [OF assms(1) i] obtain g where "gen_frames (gstore p) (owners p ! i) = Some g" by auto
    with Force False owned_release [OF assms(1) i] show ?thesis by (simp add: force_completion_def destroy_frame_def)
  qed
next
  case (Destroy i)
  then have i: "i < length (owners p)" using assms(2) by simp
  from ownedD [OF assms(1) i] Destroy owned_same_store [OF assms(1) i] owned_release [OF assms(1) i] show ?thesis
    by (auto simp: destroy_reusable_future_def destroy_frame_def)
next
  case (Complete i)
  with ownedD [OF assms(1), of i] assms show ?thesis by (auto simp: future_complete_def)
qed

section \<open>Generators of nothing\<close>

datatype void_step = Yield_void | Return_void

record void_reusable =
  vg_state :: gen_state
  vg_underlying :: coro
  vg_script :: "void_step list"

definition void_prepare :: "void_reusable \<Rightarrow> void_reusable" where
  "void_prepare g = (if vg_state g = kItem then g\<lparr>vg_state := kEmpty\<rparr> else g)"

definition void_value_ready :: "void_reusable \<Rightarrow> bool" where
  "void_value_ready g \<longleftrightarrow> vg_state g \<noteq> kEmpty"

definition void_complete :: "void_reusable \<Rightarrow> bool" where
  "void_complete g \<longleftrightarrow> vg_state g = kComplete"

definition void_force_completion :: "void_reusable \<Rightarrow> void_reusable" where
  "void_force_completion g = g\<lparr>vg_state := kComplete\<rparr>"

definition void_suspend :: "void_reusable \<Rightarrow> void_reusable \<times> action list" where
  "void_suspend g =
     (g\<lparr>vg_underlying := null\<rparr>, if vg_underlying g = null then [] else [Resume (vg_underlying g)])"

definition return_void :: "void_reusable \<Rightarrow> void_reusable" where
  "return_void g = g\<lparr>vg_state := kComplete\<rparr>"

definition yield_void :: "void_reusable \<Rightarrow> void_reusable" where
  "yield_void g = g\<lparr>vg_state := kItem\<rparr>"

definition void_resume :: "void_reusable \<Rightarrow> (void_reusable \<times> action list) outcome" where
  "void_resume g =
     (case vg_script g of
        [] \<Rightarrow> Inl Bad_address
      | Yield_void # xs \<Rightarrow> Inr (void_suspend (yield_void (g\<lparr>vg_script := xs\<rparr>)))
      | Return_void # xs \<Rightarrow> Inr (void_suspend (return_void (g\<lparr>vg_script := xs\<rparr>))))"

definition void_await :: "coro \<Rightarrow> void_reusable \<Rightarrow> void_reusable outcome" where
  "void_await co g =
     (let g1 = void_prepare g
      in if void_value_ready g1 then Inr g1
         else bind_outcome (void_resume (g1\<lparr>vg_underlying := co\<rparr>)) (\<lambda>(g2, acts). Inr g2))"

text \<open>What a generator is when its values are forgotten.\<close>

fun erase_step :: "'v gen_step \<Rightarrow> void_step" where
  "erase_step (Yield_value v) = Yield_void"
| "erase_step (Return_value v) = Return_void"

definition erase :: "'v reusable \<Rightarrow> void_reusable" where
  "erase g = \<lparr>vg_state = g_state g, vg_underlying = g_underlying g, vg_script = map erase_step (g_script g)\<rparr>"

lemma erase_simps:
  "void_prepare (erase g) = erase (prepare g)"
  "void_value_ready (erase g) = value_ready g"
  "void_complete (erase g) = gen_complete g"
  "void_force_completion (erase g) = erase (promise_force_completion g)"
  "void_suspend (erase g) = (erase (fst (gen_suspend g)), snd (gen_suspend g))"
  "(erase g)\<lparr>vg_underlying := co\<rparr> = erase (g\<lparr>g_underlying := co\<rparr>)"
  by (simp_all add: erase_def void_prepare_def prepare_def void_value_ready_def value_ready_def void_complete_def
    gen_complete_def void_force_completion_def promise_force_completion_def void_suspend_def gen_suspend_def)

lemma erase_resume:
  "void_resume (erase g) = bind_outcome (gen_resume g) (\<lambda>(g', acts). Inr (erase g', acts))"
proof (cases "g_script g")
  case Nil
  then show ?thesis by (simp add: void_resume_def gen_resume_def erase_def)
next
  case (Cons x xs)
  then show ?thesis
    by (cases x) (simp_all add: void_resume_def gen_resume_def erase_def void_suspend_def gen_suspend_def
      store_item_def yield_void_def return_void_def)
qed

section \<open>Properties\<close>


text \<open>The specialisation for \<open>void\<close> behaves as a generator whose values are forgotten: awaiting it changes
  its state, its awaiter and its remaining steps in the same way, faults included.\<close>

theorem void_generator_refines:
  "void_await co (erase g) = bind_outcome (gen_await co g) (\<lambda>(v, g'). Inr (erase g'))"
proof -
  have "void_await co (erase g) = (if value_ready (prepare g) then Inr (erase (prepare g))
      else bind_outcome (gen_resume ((prepare g)\<lparr>g_underlying := co\<rparr>)) (\<lambda>(g2, acts). Inr (erase g2)))"
    by (simp add: void_await_def erase_simps erase_resume bind_outcome_assoc case_prod_unfold Let_def)
  also have "\<dots> = bind_outcome (gen_await co g) (\<lambda>(v, g'). Inr (erase g'))"
    by (simp add: gen_await_def bind_outcome_assoc case_prod_unfold Let_def)
  finally show ?thesis .
qed

text \<open>A generator that is destroyed before its end keeps its frame: it is not destroyed with the future that
  owned it, whatever becomes of that future.\<close>

theorem unfinished_generator_leaks:
  assumes "gen_frames s h = Some g" and "\<not> gen_complete g" and "h \<noteq> null"
  shows "destroy_reusable_future h s = Inr s"
  using assms by (simp add: destroy_reusable_future_def)

text \<open>Forcing the completion frees the frame, and destroys the coroutine that awaits it.\<close>

theorem force_completion_spec:
  assumes "gen_frames s h = Some g" and "h \<noteq> null"
  shows "\<exists>s'. force_completion h s = Inr (null, s') \<and> gen_frames s' h = None \<and>
     gen_destroyed s' = gen_destroyed s @ (if g_underlying g = null then [] else [g_underlying g]) \<and>
     future_complete null s' = Inr True"
  using assms by (simp add: force_completion_def destroy_frame_def destroy_reusable_promise_def
    promise_force_completion_def future_complete_def)

section \<open>Witnesses\<close>

definition demo_generators :: "int gen_prog" where
  "demo_generators = \<lparr>owners = [16, 24],
     gstore = \<lparr>gen_frames = [16 \<mapsto> \<lparr>g_state = kEmpty, g_data = None, g_underlying = null, g_script = [Return_value None]\<rparr>,
       24 \<mapsto> \<lparr>g_state = kComplete, g_data = None, g_underlying = null, g_script = []\<rparr>], gen_destroyed = []\<rparr>\<rparr>"


end
