(* ===== verification/Wait_Results.thy ===== *)
theory Wait_Results
  imports Combinators Futures
begin

text \<open>
  The rest of \<open>includes/zab/wait_for.hpp\<close>: \<open>wait_for\<close> on simple futures from its suspension to its results.
  The futures are started in order, each with an event that calls the callback of the pack; a future that
  returns executes the event; whoever takes the counter to zero resumes the waiting coroutine, which then
  collects the results.
\<close>

section \<open>Operations\<close>

text \<open>The event that \<open>wait_for\<close> gives to the awaitables: its lambda (\<open>kWaitCallback\<close> stands for the function
  pointer) on the address of the pack.\<close>

definition kWaitCallback :: nat where
  "kWaitCallback = 0"

definition wait_callback :: "addr \<Rightarrow> event" where
  "wait_callback pack = \<lparr>cb = Cb_user kWaitCallback, ctx = pack\<rparr>"

record 'v wait_state =
  ws_frames :: "'v frames"
  ws_pack :: wait_pack
  ws_pack_addr :: addr

text \<open>Running the actions that the end of a future leads to: a call of the callback on this pack is its body.\<close>

fun run_actions :: "action list \<Rightarrow> 'v wait_state \<Rightarrow> ('v wait_state \<times> action list) outcome" where
  "run_actions [] s = Inr (s, [])"
| "run_actions (a # as) s =
     (if a = Call kWaitCallback (ws_pack_addr s)
      then bind_outcome (promise_done (ws_pack s)) (\<lambda>(w, acts).
           bind_outcome (run_actions as (s\<lparr>ws_pack := w\<rparr>)) (\<lambda>(s', acts'). Inr (s', acts @ acts')))
      else bind_outcome (run_actions as s) (\<lambda>(s', acts'). Inr (s', a # acts')))"

text \<open>What happens in the course of a \<open>wait_for\<close>: a future is started, a future returns, the start of all is
  done.\<close>

datatype 'v wait_op = Start_future addr | Finish_future addr "'v option" | All_started

fun wait_do :: "'v wait_op \<Rightarrow> 'v wait_state \<Rightarrow> ('v wait_state \<times> action list) outcome" where
  "wait_do (Start_future h) s =
     bind_outcome (future_inline_await h (Event_alt (wait_callback (ws_pack_addr s))) (ws_frames s)) (\<lambda>(fr, acts).
       Inr (s\<lparr>ws_frames := fr\<rparr>, []))"
| "wait_do (Finish_future h v) s =
     bind_outcome (with_frame h (ws_frames s) (return_value v)) (\<lambda>fr.
     bind_outcome (final_suspend h fr) (\<lambda>(fr', acts). run_actions acts (s\<lparr>ws_frames := fr'\<rparr>)))"
| "wait_do All_started s =
     bind_outcome (wf_step Start_done (ws_pack s)) (\<lambda>(w, acts). Inr (s\<lparr>ws_pack := w\<rparr>, acts))"

fun wait_run :: "'v wait_op list \<Rightarrow> 'v wait_state \<Rightarrow> ('v wait_state \<times> action list list) outcome" where
  "wait_run [] s = Inr (s, [])"
| "wait_run (x # xs) s =
     bind_outcome (wait_do x s) (\<lambda>(s1, acts).
     bind_outcome (wait_run xs s1) (\<lambda>(s2, actss). Inr (s2, acts # actss)))"

text \<open>\<open>fill_in_results\<close>, at the resumption of the waiting coroutine.\<close>

definition fill_in_results :: "addr list \<Rightarrow> 'v frames \<Rightarrow> 'v option list outcome" where
  "fill_in_results hs fr = map_outcome (\<lambda>h. take_result h fr) hs"

section \<open>Courses of a wait\<close>

text \<open>The courses that are possible: the futures are started in order, a future returns once, after it was
  started, and the start of all ends after the last was started.\<close>

fun wait_trace :: "addr list \<Rightarrow> addr list \<Rightarrow> bool \<Rightarrow> 'v wait_op list \<Rightarrow> bool" where
  "wait_trace todo running all [] \<longleftrightarrow> todo = [] \<and> running = [] \<and> all"
| "wait_trace todo running all (Start_future h # xs) \<longleftrightarrow>
     todo \<noteq> [] \<and> hd todo = h \<and> wait_trace (tl todo) (h # running) all xs"
| "wait_trace todo running all (Finish_future h v # xs) \<longleftrightarrow>
     h \<in> set running \<and> wait_trace todo (remove1 h running) all xs"
| "wait_trace todo running all (All_started # xs) \<longleftrightarrow> todo = [] \<and> \<not> all \<and> wait_trace [] running True xs"

definition wait_inv :: "coro \<Rightarrow> addr list \<Rightarrow> addr list \<Rightarrow> bool \<Rightarrow> 'v wait_state \<Rightarrow> bool" where
  "wait_inv co todo running all s \<longleftrightarrow>
     (\<forall>h \<in> set todo. ws_frames s h = Some new_promise) \<and>
     (\<forall>h \<in> set running. ws_frames s h =
        Some (set_underlying (Event_alt (wait_callback (ws_pack_addr s))) new_promise)) \<and>
     distinct (todo @ running) \<and> (all \<longrightarrow> todo = []) \<and> wf_event (ws_pack s) = Coroutine_alt co \<and>
     unat (wf_counter (ws_pack s)) = length todo + length running + (if all then 0 else 1)"

text \<open>The actions of a step that leaves the counter at \<open>c\<close>.\<close>

definition wake_at :: "u64 \<Rightarrow> coro \<Rightarrow> action list" where
  "wake_at c co = (if c = 0 then [Resume co] else [])"

lemma wf_step_any:
  assumes "wf_event w = Coroutine_alt co" and "co \<noteq> 0"
  shows "wf_step x w = Inr (w\<lparr>wf_counter := wf_counter w - 1\<rparr>, wake_at (wf_counter w - 1) co)"
proof (cases "wf_counter w = 1")
  case True
  then show ?thesis using wf_step_last [OF True assms] by (simp add: wake_at_def)
next
  case False
  then show ?thesis using wf_step_early [OF False] by (simp add: wake_at_def)
qed

lemma finish_future:
  assumes "ws_frames s h = Some (set_underlying (Event_alt (wait_callback (ws_pack_addr s))) new_promise)"
    and "wf_event (ws_pack s) = Coroutine_alt co" and "co \<noteq> 0"
  shows "\<exists>s'. wait_do (Finish_future h v) s = Inr (s', wake_at (wf_counter (ws_pack s) - 1) co) \<and>
     ws_pack s' = (ws_pack s)\<lparr>wf_counter := wf_counter (ws_pack s) - 1\<rparr> \<and> take_result h (ws_frames s') = Inr v \<and>
     ws_pack_addr s' = ws_pack_addr s \<and> (\<forall>a. a \<noteq> h \<longrightarrow> ws_frames s' a = ws_frames s a)"
proof -
  let ?fr = "(ws_frames s)(h \<mapsto> \<lparr>p_underlying = Coroutine_alt null, p_complete = True, p_data = v\<rparr>)"
  have "bind_outcome (with_frame h (ws_frames s) (return_value v)) (final_suspend h) =
      Inr (?fr, [Call kWaitCallback (ws_pack_addr s)])"
    using assms(1) by (cases v) (simp_all add: with_frame_def return_value_def final_suspend_def set_underlying_def
      new_promise_def wait_callback_def event_defs)
  then have "wait_do (Finish_future h v) s = run_actions [Call kWaitCallback (ws_pack_addr s)] (s\<lparr>ws_frames := ?fr\<rparr>)"
    by (cases "with_frame h (ws_frames s) (return_value v)") (simp_all add: bind_outcome_assoc)
  moreover have "promise_done (ws_pack s) =
      Inr ((ws_pack s)\<lparr>wf_counter := wf_counter (ws_pack s) - 1\<rparr>, wake_at (wf_counter (ws_pack s) - 1) co)"
    using wf_step_any [OF assms(2,3), of Promise_done] by simp
  ultimately have "wait_do (Finish_future h v) s =
      Inr (s\<lparr>ws_frames := ?fr, ws_pack := (ws_pack s)\<lparr>wf_counter := wf_counter (ws_pack s) - 1\<rparr>\<rparr>,
        wake_at (wf_counter (ws_pack s) - 1) co)" by (simp del: wait_do.simps)
  then show ?thesis by (simp add: take_result_def del: wait_do.simps)
qed

lemma unat_pred: "unat w = Suc k \<Longrightarrow> unat (w - 1 :: u64) = k"
  by (metis One_nat_def diff_Suc_1 nat.distinct(1) unat_0 unat_minus_one)

lemma wait_trace_length: "wait_trace todo running all ops \<Longrightarrow> length todo + length running + (if all then 0 else 1) \<le> length ops"
  by (induction todo running all ops rule: wait_trace.induct) (auto simp: length_remove1 split: if_splits)

lemma wait_step:
  assumes "wait_trace todo running all (x # xs)" and "wait_inv co todo running all s" and "co \<noteq> 0"
    and "0 < wf_counter (ws_pack s)"
  obtains s1 todo' running' all' where "wait_trace todo' running' all' xs" and "wait_inv co todo' running' all' s1"
    and "set todo' \<union> set running' \<subseteq> set todo \<union> set running"
    and "\<forall>h. h \<notin> set todo \<union> set running \<longrightarrow> ws_frames s1 h = ws_frames s h"
    and "\<forall>h v. x = Finish_future h v \<longrightarrow> take_result h (ws_frames s1) = Inr v \<and> h \<notin> set todo' \<union> set running'"
    and "wait_do x s = Inr (s1, wake_at (wf_counter (ws_pack s1)) co)"
proof (cases x)
  case (Start_future h)
  with assms(1) obtain ts where t: "todo = h # ts" "wait_trace ts (h # running) all xs" by (cases todo) auto
  let ?ev = "Event_alt (wait_callback (ws_pack_addr s))"
  let ?s = "s\<lparr>ws_frames := (ws_frames s)(h \<mapsto> set_underlying ?ev new_promise)\<rparr>"
  have "wait_inv co ts (h # running) all ?s" using assms(2) t(1) by (auto simp: wait_inv_def)
  moreover have "wait_do x s = Inr (?s, wake_at (wf_counter (ws_pack ?s)) co)"
    using assms(2,4) t(1) Start_future by (simp add: wait_inv_def future_inline_await_def with_frame_def wake_at_def)
  ultimately show ?thesis using that [of ts "h # running" all ?s] t Start_future by auto
next
  case (Finish_future h v)
  with assms(1) have h: "h \<in> set running" "wait_trace todo (remove1 h running) all xs" by auto
  with assms(2,3) finish_future [of s h co v] obtain s1 where
    s1: "wait_do x s = Inr (s1, wake_at (wf_counter (ws_pack s) - 1) co)"
      "ws_pack s1 = (ws_pack s)\<lparr>wf_counter := wf_counter (ws_pack s) - 1\<rparr>" "take_result h (ws_frames s1) = Inr v"
      "ws_pack_addr s1 = ws_pack_addr s" "\<forall>a. a \<noteq> h \<longrightarrow> ws_frames s1 a = ws_frames s a"
    by (auto simp: wait_inv_def Finish_future simp del: wait_do.simps)
  have d: "distinct running" "h \<notin> set todo" using assms(2) h(1) by (auto simp: wait_inv_def)
  obtain k where k: "length running = Suc k" using h(1) by (cases running) auto
  have "unat (wf_counter (ws_pack s) - 1) = length todo + k + (if all then 0 else 1)"
    using assms(2) k by (intro unat_pred) (simp add: wait_inv_def)
  then have "wait_inv co todo (remove1 h running) all s1"
    using assms(2) s1(2,4,5) d h(1) k by (auto simp: wait_inv_def length_remove1 distinct_remove1 dest: notin_set_remove1)
  moreover have "\<forall>a. a \<notin> set todo \<union> set running \<longrightarrow> ws_frames s1 a = ws_frames s a" using s1(5) h(1) by auto
  moreover have "set (remove1 h running) = set running - {h}" using d by (simp add: set_remove1_eq)
  ultimately show ?thesis using that [of todo "remove1 h running" all s1] h(2) s1(1,2,3) d(2) Finish_future
    by (auto simp del: wait_do.simps)
next
  case All_started
  with assms(1) have t: "todo = []" "\<not> all" "wait_trace [] running True xs" by auto
  let ?s = "s\<lparr>ws_pack := (ws_pack s)\<lparr>wf_counter := wf_counter (ws_pack s) - 1\<rparr>\<rparr>"
  have "unat (wf_counter (ws_pack s) - 1) = length running"
    using assms(2) t by (intro unat_pred) (simp add: wait_inv_def)
  then have "wait_inv co [] running True ?s" using assms(2) t by (simp add: wait_inv_def)
  moreover have "wait_do x s = Inr (?s, wake_at (wf_counter (ws_pack ?s)) co)"
    using wf_step_any [of "ws_pack s" co Start_done] assms(2,3) All_started
    by (simp add: wait_inv_def del: wf_step.simps bind_outcome_eq_Inr)
  ultimately show ?thesis using that [of "[]" running True ?s] t All_started by auto
qed

lemma wait_trace_ended: "wait_trace [] [] True xs \<Longrightarrow> xs = []"
  by (cases xs) (auto elim: wait_trace.elims)

lemma wait_run_spec:
  assumes "wait_trace todo running all ops" and "wait_inv co todo running all s" and "co \<noteq> 0"
    and "0 < wf_counter (ws_pack s)"
  shows "\<exists>s'. wait_run ops s = Inr (s', replicate (length ops - 1) [] @ [[Resume co]]) \<and>
     (\<forall>h v. Finish_future h v \<in> set ops \<longrightarrow> take_result h (ws_frames s') = Inr v) \<and>
     (\<forall>h. h \<notin> set todo \<union> set running \<longrightarrow> ws_frames s' h = ws_frames s h)"
  using assms
proof (induction ops arbitrary: todo running all s)
  case Nil
  then show ?case by (simp add: wait_inv_def word_gt_0 unat_eq_zero)
next
  case (Cons x xs)
  obtain s1 todo' running' all' where t: "wait_trace todo' running' all' xs" "wait_inv co todo' running' all' s1"
    and sub: "set todo' \<union> set running' \<subseteq> set todo \<union> set running"
    and keep: "\<forall>h. h \<notin> set todo \<union> set running \<longrightarrow> ws_frames s1 h = ws_frames s h"
    and fin: "\<forall>h v. x = Finish_future h v \<longrightarrow> take_result h (ws_frames s1) = Inr v \<and> h \<notin> set todo' \<union> set running'"
    and do: "wait_do x s = Inr (s1, wake_at (wf_counter (ws_pack s1)) co)"
    by (rule wait_step [OF Cons.prems])
  show ?case
  proof (cases "wf_counter (ws_pack s1) = 0")
    case True
    then have "todo' = []" "running' = []" "all'" using t(2) by (auto simp: wait_inv_def split: if_splits)
    with t(1) have "xs = []" using wait_trace_ended [of xs] by simp
    then show ?thesis using True do fin keep by (auto simp: wake_at_def simp del: wait_do.simps)
  next
    case False
    with Cons.IH [OF t Cons.prems(3)] obtain s2 where
      s2: "wait_run xs s1 = Inr (s2, replicate (length xs - 1) [] @ [[Resume co]])"
        "\<forall>h v. Finish_future h v \<in> set xs \<longrightarrow> take_result h (ws_frames s2) = Inr v"
        "\<forall>h. h \<notin> set todo' \<union> set running' \<longrightarrow> ws_frames s2 h = ws_frames s1 h" by (auto simp: word_gt_0)
    have "0 < length xs" using wait_trace_length [OF t(1)] t(2) False
      by (auto simp: wait_inv_def unat_eq_zero split: if_splits) 
    then have "replicate (length (x # xs) - 1) [] @ [[Resume co]] = [] # replicate (length xs - 1) [] @ [[Resume co]]"
      by (cases xs) simp_all
    moreover have "wait_run (x # xs) s = Inr (s2, [] # replicate (length xs - 1) [] @ [[Resume co]])"
      using do s2(1) False by (simp add: wake_at_def del: wait_do.simps bind_outcome_eq_Inr)
    moreover have "take_result h (ws_frames s2) = Inr v" if "x = Finish_future h v" for h v
      using fin s2(3) that by (simp add: take_result_def)
    ultimately show ?thesis using s2(2,3) keep sub by (auto simp del: wait_run.simps bind_outcome_eq_Inr)
  qed
qed

lemma wait_trace_finishes:
  "wait_trace todo running all ops \<Longrightarrow> h \<in> set todo \<union> set running \<Longrightarrow> \<exists>v. Finish_future h v \<in> set ops"
proof (induction todo running all ops rule: wait_trace.induct)
  case (2 todo running all h' xs)
  then show ?case by (cases todo) auto
next
  case (3 todo running all h' v xs)
  then show ?case by (cases "h = h'") (auto simp: in_set_remove1)
qed auto

section \<open>Properties\<close>

text \<open>C39: Whatever the order in which the futures given to \<open>wait_for\<close> return, even while others are still being
  started, the waiting coroutine is resumed exactly once, by the last step, and the results it collects are
  those the futures returned, in the order of the arguments.\<close>

theorem wait_for_collects_results:
  assumes "distinct hs" and "\<forall>h \<in> set hs. fr h = Some new_promise" and "length hs < 2 ^ 64 - 1" and "co \<noteq> 0"
    and "wait_trace hs [] False ops"
  shows "\<exists>s. wait_run ops \<lparr>ws_frames = fr, ws_pack = make_wait_pack (length hs) (Coroutine_alt co), ws_pack_addr = p\<rparr> =
       Inr (s, replicate (length ops - 1) [] @ [[Resume co]]) \<and>
     (\<exists>vs. fill_in_results hs (ws_frames s) = Inr vs \<and> length vs = length hs \<and>
        (\<forall>i < length hs. \<forall>v. Finish_future (hs ! i) v \<in> set ops \<longrightarrow> vs ! i = v))"
proof -
  let ?s = "\<lparr>ws_frames = fr, ws_pack = make_wait_pack (length hs) (Coroutine_alt co), ws_pack_addr = p\<rparr>"
  have "unat (of_nat (length hs) :: u64) = length hs" using assms(3) by (simp add: unsigned_of_nat take_bit_nat_eq_self)
  then have c: "unat (wf_counter (ws_pack ?s)) = length hs + 1"
    using assms(3) unat_add_no_wrap [of "of_nat (length hs) :: u64" 1] by (simp add: make_wait_pack_def)
  then have "wait_inv co hs [] False ?s" using assms(1,2) by (simp add: wait_inv_def make_wait_pack_def)
  moreover have "0 < wf_counter (ws_pack ?s)" using c by (simp add: word_gt_0) (metis Suc_neq_Zero unat_0)
  ultimately obtain s where s: "wait_run ops ?s = Inr (s, replicate (length ops - 1) [] @ [[Resume co]])"
    "\<forall>h v. Finish_future h v \<in> set ops \<longrightarrow> take_result h (ws_frames s) = Inr v"
    using wait_run_spec [OF assms(5) _ assms(4)] by blast
  have "\<forall>h \<in> set hs. \<exists>v. take_result h (ws_frames s) = Inr v"
    using wait_trace_finishes [OF assms(5)] s(2) by (metis Un_iff)
  then have "\<exists>vs. fill_in_results hs (ws_frames s) = Inr vs"
    unfolding fill_in_results_def by (induction hs) auto
  then obtain vs where vs: "fill_in_results hs (ws_frames s) = Inr vs" by blast
  then have "length vs = length hs" "\<forall>i < length hs. take_result (hs ! i) (ws_frames s) = Inr (vs ! i)"
    using length_map_outcome map_outcome_nth unfolding fill_in_results_def by blast+
  with s vs show ?thesis by fastforce
qed

section \<open>Witnesses\<close>

theorem wait_for_collects_results_witness:
  "\<exists>s. wait_run [Start_future 16, Start_future 24, Finish_future 24 (Some (7 :: int)), All_started, Finish_future 16 None]
       \<lparr>ws_frames = [16 \<mapsto> new_promise, 24 \<mapsto> new_promise], ws_pack = make_wait_pack 2 (Coroutine_alt 32), ws_pack_addr = 8\<rparr> =
       Inr (s, [[], [], [], [], [Resume 32]]) \<and>
     fill_in_results [16, 24] (ws_frames s) = Inr [None, Some 7]"
proof -
  let ?ops = "[Start_future 16, Start_future 24, Finish_future 24 (Some (7 :: int)), All_started, Finish_future 16 None]"
  have "replicate (length ?ops - 1) [] @ [[Resume 32]] = [[], [], [], [], [Resume 32]]"
    by (simp add: numeral_eq_Suc)
  moreover obtain s vs where "wait_run ?ops \<lparr>ws_frames = [16 \<mapsto> new_promise, 24 \<mapsto> new_promise],
      ws_pack = make_wait_pack (length [16, 24 :: addr]) (Coroutine_alt 32), ws_pack_addr = 8\<rparr> =
      Inr (s, replicate (length ?ops - 1) [] @ [[Resume 32]])"
    and "fill_in_results [16, 24] (ws_frames s) = Inr vs" and "length vs = length [16, 24 :: addr]"
    and v: "\<forall>i < length [16, 24 :: addr]. \<forall>v. Finish_future ([16, 24] ! i) v \<in> set ?ops \<longrightarrow> vs ! i = v"
    using wait_for_collects_results [of "[16, 24]" "[16 \<mapsto> new_promise, 24 \<mapsto> new_promise]" 32 ?ops 8] by auto
  moreover have "vs ! 0 = None" "vs ! 1 = Some 7" using v by simp_all
  moreover from calculation have "vs = [None, Some 7]"
    by (auto simp: length_Suc_conv numeral_2_eq_2)
  ultimately show ?thesis by (auto simp: numeral_2_eq_2)
qed

end
