(* ===== verification/Counting_Semaphore_Steps.thy ===== *)
theory Counting_Semaphore_Steps
  imports Counting_Semaphore Binary_Semaphore_Steps
begin

text \<open>
  Threads that use one counting semaphore concurrently, one atomic access at a time.

  A caller of \<open>try_aquire\<close> is \<open>Trying r\<close>, with its local \<open>result\<close>.  A coroutine in \<open>await_suspend\<close> is
  \<open>Loading a r\<close> in the loop that looks for a permit (its waiter is at \<open>a\<close>), \<open>Counted a\<close> after it has
  counted down, and \<open>Pushing a previous\<close> in the loop of \<open>suspend\<close>.  A coroutine that runs \<open>control()\<close> is
  where \<open>ctl_pc\<close> says; nothing in the relation keeps two of them from running.  \<open>transfer()\<close> is one step,
  because apart from the exchange of \<open>resuming_\<close> it touches only memory of \<open>control()\<close>; so is each atomic
  access of the rest.  The counters are integers, as in \<open>Counting_Semaphore\<close>.

  Auxiliary, read by no step: the lists of the waiters in the two queues, of the coroutines that were queued
  and that were resumed, in order, and the numbers of permits that were released and that were taken
  without waiting.
\<close>

section \<open>Steps\<close>

datatype ctl_pc =
    Ctl_transfer
  | Ctl_found addr
  | Ctl_none
  | Ctl_spin
  | Ctl_resume addr
  | Ctl_count

datatype cs_agent = Trying int | Loading addr int | Counted addr | Pushing addr addr

record cs_conc =
  q_resuming :: addr
  q_transfer :: addr
  q_heap :: "addr \<rightharpoonup> waiter"
  q_active :: int
  q_release :: int
  q_agents :: "cs_agent multiset"
  q_controls :: "ctl_pc list"
  q_transfer_q :: "addr list"
  q_resuming_q :: "addr list"
  q_arrived :: "(thread_t \<times> coro) list"
  q_granted :: "(thread_t \<times> coro) list"
  q_released :: int
  q_taken :: nat

text \<open>Where \<open>control()\<close> is after \<open>transfer()\<close> has found a waiter, and after it has found none: at the first
  call it counts up next, in the inner loop it has done so.\<close>

fun after_found :: "ctl_pc \<Rightarrow> addr \<Rightarrow> ctl_pc" where
  "after_found pc a = (if pc = Ctl_spin then Ctl_resume a else Ctl_found a)"

fun after_none :: "ctl_pc \<Rightarrow> ctl_pc" where
  "after_none pc = (if pc = Ctl_spin then Ctl_spin else Ctl_none)"

inductive cs_step :: "cs_conc \<Rightarrow> cs_conc \<Rightarrow> bool" where
  cs_try: "cs_step s (s\<lparr>q_agents := add_mset (Trying (q_active s)) (q_agents s)\<rparr>)"
| cs_try_take: "q_agents s = add_mset (Trying r) A \<Longrightarrow> 0 < r \<Longrightarrow> q_active s = r \<Longrightarrow>
     cs_step s (s\<lparr>q_agents := A, q_active := r - 1, q_taken := Suc (q_taken s)\<rparr>)"
| cs_try_retry: "q_agents s = add_mset (Trying r) A \<Longrightarrow> 0 < r \<Longrightarrow>
     cs_step s (s\<lparr>q_agents := add_mset (Trying (q_active s)) A\<rparr>)"
| cs_try_fail: "q_agents s = add_mset (Trying r) A \<Longrightarrow> \<not> 0 < r \<Longrightarrow> cs_step s (s\<lparr>q_agents := A\<rparr>)"
| cs_enter: "q_heap s a = None \<Longrightarrow> a \<noteq> 0 \<Longrightarrow>
     cs_step s (s\<lparr>q_heap := (q_heap s)(a \<mapsto> \<lparr>w_thread = th, w_next = 0, w_handle = co\<rparr>),
                  q_agents := add_mset (Loading a (q_active s)) (q_agents s)\<rparr>)"
| cs_take: "q_agents s = add_mset (Loading a r) A \<Longrightarrow> 0 < r \<Longrightarrow> q_active s = r \<Longrightarrow>
     cs_step s (s\<lparr>q_heap := (q_heap s)(a := None), q_agents := A, q_active := r - 1, q_taken := Suc (q_taken s)\<rparr>)"
| cs_take_retry: "q_agents s = add_mset (Loading a r) A \<Longrightarrow> 0 < r \<Longrightarrow>
     cs_step s (s\<lparr>q_agents := add_mset (Loading a (q_active s)) A\<rparr>)"
| cs_count: "q_agents s = add_mset (Loading a r) A \<Longrightarrow> \<not> 0 < r \<Longrightarrow>
     cs_step s (s\<lparr>q_active := q_active s - 1, q_agents := add_mset (Counted a) A\<rparr>)"
| cs_load: "q_agents s = add_mset (Counted a) A \<Longrightarrow>
     cs_step s (s\<lparr>q_agents := add_mset (Pushing a (q_resuming s)) A\<rparr>)"
| cs_push: "q_agents s = add_mset (Pushing a previous) A \<Longrightarrow> q_resuming s = previous \<Longrightarrow> q_heap s a = Some w \<Longrightarrow>
     cs_step s (s\<lparr>q_resuming := a, q_heap := (q_heap s)(a \<mapsto> w\<lparr>w_next := previous\<rparr>), q_agents := A,
                  q_resuming_q := a # q_resuming_q s, q_arrived := q_arrived s @ [wake_of w]\<rparr>)"
| cs_push_retry: "q_agents s = add_mset (Pushing a previous) A \<Longrightarrow> q_heap s a = Some w \<Longrightarrow>
     cs_step s (s\<lparr>q_heap := (q_heap s)(a \<mapsto> w\<lparr>w_next := previous\<rparr>),
                  q_agents := add_mset (Pushing a (q_resuming s)) A\<rparr>)"
| cs_release: "0 < update \<Longrightarrow>
     cs_step s (s\<lparr>q_release := q_release s + update, q_released := q_released s + update,
                  q_controls := q_controls s @ (if q_release s = 0 then [Ctl_transfer] else [])\<rparr>)"
| cs_pop: "q_controls s = us @ pc # vs \<Longrightarrow> pc \<in> {Ctl_transfer, Ctl_spin} \<Longrightarrow>
     q_transfer s \<noteq> 0 \<Longrightarrow> q_heap s (q_transfer s) = Some w \<Longrightarrow>
     cs_step s (s\<lparr>q_transfer := w_next w, q_transfer_q := tl (q_transfer_q s),
                  q_controls := us @ after_found pc (q_transfer s) # vs\<rparr>)"
| cs_exchange: "q_controls s = us @ pc # vs \<Longrightarrow> pc \<in> {Ctl_transfer, Ctl_spin} \<Longrightarrow>
     q_transfer s = 0 \<Longrightarrow> q_resuming s \<noteq> 0 \<Longrightarrow>
     reverse_waiters n (\<lambda>p. p = 0) (q_resuming s) 0 (q_heap s) = Inr (h, head) \<Longrightarrow> h head = Some w \<Longrightarrow>
     cs_step s (s\<lparr>q_resuming := 0, q_transfer := w_next w, q_heap := h,
                  q_transfer_q := tl (rev (q_resuming_q s)), q_resuming_q := [],
                  q_controls := us @ after_found pc head # vs\<rparr>)"
| cs_empty: "q_controls s = us @ pc # vs \<Longrightarrow> pc \<in> {Ctl_transfer, Ctl_spin} \<Longrightarrow>
     q_transfer s = 0 \<Longrightarrow> q_resuming s = 0 \<Longrightarrow>
     cs_step s (s\<lparr>q_controls := us @ after_none pc # vs\<rparr>)"
| cs_found: "q_controls s = us @ Ctl_found a # vs \<Longrightarrow>
     cs_step s (s\<lparr>q_active := q_active s + 1, q_controls := us @ Ctl_resume a # vs\<rparr>)"
| cs_none: "q_controls s = us @ Ctl_none # vs \<Longrightarrow>
     cs_step s (s\<lparr>q_active := q_active s + 1,
                  q_controls := us @ (if q_active s < 0 then Ctl_spin else Ctl_count) # vs\<rparr>)"
| cs_resume: "q_controls s = us @ Ctl_resume a # vs \<Longrightarrow> q_heap s a = Some w \<Longrightarrow>
     cs_step s (s\<lparr>q_heap := (q_heap s)(a := None), q_granted := q_granted s @ [wake_of w],
                  q_controls := us @ Ctl_count # vs\<rparr>)"
| cs_end: "q_controls s = us @ Ctl_count # vs \<Longrightarrow>
     cs_step s (s\<lparr>q_release := q_release s - 1,
                  q_controls := us @ (if q_release s = 1 then [] else [Ctl_transfer]) @ vs\<rparr>)"

definition cs_init :: "int \<Rightarrow> cs_conc" where
  "cs_init start = \<lparr>q_resuming = 0, q_transfer = 0, q_heap = Map.empty, q_active = start, q_release = 0,
     q_agents = {#}, q_controls = [], q_transfer_q = [], q_resuming_q = [], q_arrived = [], q_granted = [],
     q_released = 0, q_taken = 0\<rparr>"

inductive cs_reachable :: "int \<Rightarrow> cs_conc \<Rightarrow> bool" for start where
  cs_start: "cs_reachable start (cs_init start)"
| cs_next: "cs_reachable start s \<Longrightarrow> cs_step s t \<Longrightarrow> cs_reachable start t"

section \<open>Invariant\<close>

fun cs_node :: "cs_agent \<Rightarrow> addr multiset" where
  "cs_node (Trying r) = {#}"
| "cs_node (Loading a r) = {#a#}"
| "cs_node (Counted a) = {#a#}"
| "cs_node (Pushing a p) = {#a#}"

fun counted_down :: "cs_agent \<Rightarrow> bool" where
  "counted_down (Counted a) = True"
| "counted_down (Pushing a p) = True"
| "counted_down _ = False"

fun held :: "ctl_pc \<Rightarrow> addr list" where
  "held (Ctl_found a) = [a]"
| "held (Ctl_resume a) = [a]"
| "held _ = []"

text \<open>Whether \<open>control()\<close> has counted up in this round, and whether it is going to resume for it.\<close>

definition added :: "ctl_pc \<Rightarrow> int" where
  "added pc = (case pc of Ctl_spin \<Rightarrow> 1 | Ctl_resume _ \<Rightarrow> 1 | Ctl_count \<Rightarrow> 1 | _ \<Rightarrow> 0)"

definition owes :: "ctl_pc \<Rightarrow> int" where
  "owes pc = (case pc of Ctl_spin \<Rightarrow> 1 | Ctl_resume _ \<Rightarrow> 1 | _ \<Rightarrow> 0)"

definition cs_nodes :: "cs_agent multiset \<Rightarrow> addr multiset" where
  "cs_nodes A = \<Sum>\<^sub># (image_mset cs_node A)"

definition counted :: "cs_agent multiset \<Rightarrow> int" where
  "counted A = int (size (filter_mset counted_down A))"

lemma cs_nodes_simps [simp]:
  "cs_nodes {#} = {#}" "cs_nodes (add_mset ag A) = cs_node ag + cs_nodes A"
  by (simp_all add: cs_nodes_def)

lemma counted_simps [simp]:
  "counted {#} = 0" "counted (add_mset ag A) = (if counted_down ag then 1 + counted A else counted A)"
  by (simp_all add: counted_def)

lemma counted_nonneg [simp]: "0 \<le> counted A"
  by (simp add: counted_def)

lemma pc_simps [simp]:
  "added Ctl_transfer = 0" "added (Ctl_found a) = 0" "added Ctl_none = 0" "added Ctl_spin = 1"
  "added (Ctl_resume a) = 1" "added Ctl_count = 1"
  "owes Ctl_transfer = 0" "owes (Ctl_found a) = 0" "owes Ctl_none = 0" "owes Ctl_spin = 1"
  "owes (Ctl_resume a) = 1" "owes Ctl_count = 0"
  by (simp_all add: added_def owes_def)

text \<open>The waiters that are queued or found, the oldest first.\<close>

definition cs_line :: "cs_conc \<Rightarrow> addr list" where
  "cs_line s = concat (map held (q_controls s)) @ q_transfer_q s @ rev (q_resuming_q s)"

definition alive :: "(addr \<rightharpoonup> waiter) \<Rightarrow> addr multiset \<Rightarrow> bool" where
  "alive h M \<longleftrightarrow> once M \<and> (\<forall>a \<in># M. h a \<noteq> None \<and> a \<noteq> 0)"

definition cs_shape :: "cs_conc \<Rightarrow> bool" where
  "cs_shape s \<longleftrightarrow>
     chain (waiter_next (q_heap s)) (q_transfer s) (q_transfer_q s) 0 \<and>
     chain (waiter_next (q_heap s)) (q_resuming s) (q_resuming_q s) 0 \<and>
     alive (q_heap s) (mset (cs_line s) + cs_nodes (q_agents s)) \<and>
     q_arrived s = q_granted s @ map (heap_wake (q_heap s)) (cs_line s)"

text \<open>Those who have counted down and were not resumed.\<close>

definition pending :: "cs_conc \<Rightarrow> int" where
  "pending s = counted (q_agents s) + int (length (cs_line s))"

definition cs_numbers :: "int \<Rightarrow> cs_conc \<Rightarrow> bool" where
  "cs_numbers start s \<longleftrightarrow>
     0 \<le> q_release s \<and> length (q_controls s) = (if q_release s = 0 then 0 else 1) \<and>
     q_active s + pending s + int (q_taken s) + int (length (q_granted s)) =
       start + q_released s - q_release s + sum_list (map added (q_controls s)) \<and>
     sum_list (map owes (q_controls s)) \<le> q_active s + pending s \<and>
     sum_list (map owes (q_controls s)) \<le> pending s"

lemma alive_add_mset [simp]:
  "alive h (add_mset a M) \<longleftrightarrow> a \<notin># M \<and> h a \<noteq> None \<and> a \<noteq> 0 \<and> alive h M"
  by (auto simp: alive_def)

lemma alive_empty [simp]: "alive h {#}"
  by (simp add: alive_def)

lemma alive_upd: "alive h M \<Longrightarrow> a \<notin># M \<Longrightarrow> alive (h(a := v)) M"
  by (auto simp: alive_def)

lemma alive_same: "same_waiters h h' \<Longrightarrow> alive h M \<Longrightarrow> alive h' M"
  unfolding alive_def using same_waiters_dom by blast


definition cs_inv :: "int \<Rightarrow> cs_conc \<Rightarrow> bool" where
  "cs_inv start s \<longleftrightarrow> cs_shape s \<and> cs_numbers start s"

lemma cs_shape_frame:
  assumes "cs_shape s" and "q_transfer t = q_transfer s" "q_resuming t = q_resuming s" "q_heap t = q_heap s"
    "q_transfer_q t = q_transfer_q s" "q_resuming_q t = q_resuming_q s" "q_arrived t = q_arrived s"
    "q_granted t = q_granted s" "cs_line t = cs_line s" "cs_nodes (q_agents t) = cs_nodes (q_agents s)"
  shows "cs_shape t"
  using assms by (simp add: cs_shape_def)

text \<open>A thread that owns the waiter \<open>a\<close> alone may write it, free it, or start to own it.\<close>

lemma cs_shape_upd:
  assumes inv: "cs_shape s" and a: "a \<notin> set (cs_line s)" "a \<notin># cs_nodes A"
    and n: "alive (q_heap s) (mset (cs_line s) + cs_nodes A)"
    and B: "cs_nodes B = cs_nodes A \<or> cs_nodes B = add_mset a (cs_nodes A) \<and> v \<noteq> None \<and> a \<noteq> 0"
  shows "cs_shape (s\<lparr>q_heap := (q_heap s)(a := v), q_agents := B\<rparr>)"
proof -
  have q: "cs_line (s\<lparr>q_heap := (q_heap s)(a := v), q_agents := B\<rparr>) = cs_line s"
    by (simp add: cs_line_def)
  have "alive ((q_heap s)(a := v)) (mset (cs_line s) + cs_nodes A)"
    using n a by (intro alive_upd) simp_all
  then have "alive ((q_heap s)(a := v)) (mset (cs_line s) + cs_nodes B)"
    using B a by (elim disjE) simp_all
  then show ?thesis using inv a(1) by (simp add: cs_shape_def q heap_wake_upd) (simp add: cs_line_def)
qed

lemma cs_shape_own:
  assumes inv: "cs_shape s" and ag: "q_agents s = add_mset g A" and g: "cs_node g = {#a#}"
  shows "a \<notin> set (cs_line s)" "a \<notin># cs_nodes A" "a \<noteq> 0" "q_heap s a \<noteq> None"
    "alive (q_heap s) (mset (cs_line s) + cs_nodes A)"
  using inv by (auto simp: cs_shape_def ag g)

lemma cs_shape_push:
  assumes inv: "cs_shape s" and ag: "q_agents s = add_mset (Pushing a p) A" and p: "q_resuming s = p"
    and w: "q_heap s a = Some w"
  shows "cs_shape (s\<lparr>q_resuming := a, q_heap := (q_heap s)(a \<mapsto> w\<lparr>w_next := p\<rparr>), q_agents := A,
                  q_resuming_q := a # q_resuming_q s, q_arrived := q_arrived s @ [wake_of w]\<rparr>)"
    (is "cs_shape ?t")
proof -
  let ?h = "(q_heap s)(a \<mapsto> w\<lparr>w_next := p\<rparr>)"
  note own = cs_shape_own [OF inv ag cs_node.simps(4)]
  have l: "cs_line ?t = cs_line s @ [a]" by (simp add: cs_line_def)
  have a: "a \<notin> set (q_transfer_q s)" "a \<notin> set (q_resuming_q s)" using own(1) by (auto simp: cs_line_def)
  have "alive ?h (mset (cs_line s) + cs_nodes A)" using own by (intro alive_upd) simp_all
  moreover have "map (heap_wake ?h) (cs_line s @ [a]) = map (heap_wake (q_heap s)) (cs_line s) @ [wake_of w]"
    using heap_wake_upd [OF own(1), of "q_heap s"] by (simp add: heap_wake_def wake_of_def)
  ultimately show ?thesis using inv a own p unfolding cs_shape_def l by simp
qed

text \<open>The first waiter of \<open>transfer_\<close> moves into the local variable of \<open>control()\<close>; the line stays.\<close>

lemma transfer_found:
  assumes "q_controls s = [pc]" and "held pc = []" and "q_controls t = [pc']" and "held pc' = [a]"
    and "q_transfer_q s = a # q_transfer_q t" and "q_resuming_q t = q_resuming_q s"
  shows "cs_line t = cs_line s"
  using assms by (simp add: cs_line_def)

lemma held_simps [simp]: "pc = Ctl_transfer \<or> pc = Ctl_spin \<Longrightarrow> held pc = []" "held (after_found pc a) = [a]"
  "held (after_none pc) = []"
  by auto

lemma cs_shape_pop:
  assumes inv: "cs_shape s" and c: "q_controls s = [pc]" "held pc = []" and t: "q_transfer s \<noteq> 0"
    and w: "q_heap s (q_transfer s) = Some w" and pc': "held pc' = [q_transfer s]"
  shows "cs_shape (s\<lparr>q_transfer := w_next w, q_transfer_q := tl (q_transfer_q s), q_controls := [pc']\<rparr>)"
      (is "cs_shape ?t")
    and "cs_line (s\<lparr>q_transfer := w_next w, q_transfer_q := tl (q_transfer_q s), q_controls := [pc']\<rparr>) = cs_line s"
proof -
  have ch: "chain (waiter_next (q_heap s)) (q_transfer s) (q_transfer_q s) 0" using inv by (simp add: cs_shape_def)
  with t obtain xs where xs: "q_transfer_q s = q_transfer s # xs" by (cases "q_transfer_q s") auto
  show l: "cs_line ?t = cs_line s" using c pc' xs by (intro transfer_found [where a = "q_transfer s"]) simp_all
  show "cs_shape ?t" using inv ch w xs l by (simp add: cs_shape_def)
qed

text \<open>What the exchange in \<open>transfer()\<close> captures can be reversed.\<close>

lemma captured_queue:
  assumes inv: "cs_shape s" and r: "q_resuming s \<noteq> 0"
  obtains y ys h head xs where "q_resuming_q s = y # ys"
    "reverse_waiters (length (y # ys)) (\<lambda>p. p = 0) (q_resuming s) 0 (q_heap s) = Inr (h, head)"
    "rev (y # ys) = head # xs" "chain (waiter_next h) head (head # xs) 0" "same_waiters (q_heap s) h"
proof -
  have ch: "chain (waiter_next (q_heap s)) (q_resuming s) (q_resuming_q s) 0" using inv by (simp add: cs_shape_def)
  with r obtain y ys where y: "q_resuming_q s = y # ys" by (cases "q_resuming_q s") auto
  have "\<forall>a \<in> set (y # ys). \<not> a = 0 \<and> a \<noteq> 0" using chain_not_end [OF ch] y by auto
  from reverse_waiters_chain [OF ch [unfolded y] _ this, of 0 "[]" "length (y # ys)"]
  obtain h r where h: "reverse_waiters (length (y # ys)) (\<lambda>p. p = 0) (q_resuming s) 0 (q_heap s) = Inr (h, r)"
    "chain (waiter_next h) r (rev (y # ys)) 0" "same_waiters (q_heap s) h" by auto
  obtain x xs where x: "rev (y # ys) = x # xs" by (cases "rev (y # ys)") auto
  with h(2) have "r = x" by simp
  with that [OF y h(1)] x h show ?thesis by auto
qed

lemma map_heap_wake_same:
  assumes "same_waiters h h'" and "alive h (mset xs + M)"
  shows "map (heap_wake h') xs = map (heap_wake h) xs"
proof -
  have "a \<in> dom h" if "a \<in> set xs" for a using assms(2) that by (auto simp: alive_def)
  then show ?thesis using heap_wake_same [OF assms(1)] by auto
qed

lemma cs_shape_exchange:
  assumes inv: "cs_shape s" and c: "q_controls s = [pc]" "held pc = []" and t: "q_transfer s = 0"
    and r: "q_resuming s \<noteq> 0"
    and rv: "reverse_waiters n (\<lambda>p. p = 0) (q_resuming s) 0 (q_heap s) = Inr (h, head)" and w: "h head = Some w"
    and pc': "held pc' = [head]"
  shows "cs_shape (s\<lparr>q_resuming := 0, q_transfer := w_next w, q_heap := h,
                  q_transfer_q := tl (rev (q_resuming_q s)), q_resuming_q := [], q_controls := [pc']\<rparr>)"
      (is "cs_shape ?t")
    and "cs_line (s\<lparr>q_resuming := 0, q_transfer := w_next w, q_heap := h,
                  q_transfer_q := tl (rev (q_resuming_q s)), q_resuming_q := [], q_controls := [pc']\<rparr>) = cs_line s"
proof -
  obtain y ys h' head' xs where q: "q_resuming_q s = y # ys"
    "reverse_waiters (length (y # ys)) (\<lambda>p. p = 0) (q_resuming s) 0 (q_heap s) = Inr (h', head')"
    "rev (y # ys) = head' # xs" "chain (waiter_next h') head' (head' # xs) 0" "same_waiters (q_heap s) h'"
    by (rule captured_queue [OF inv r])
  let ?n = "max n (length (y # ys))"
  have "Inr (h, head) = (Inr (h', head') :: ((addr \<rightharpoonup> waiter) \<times> addr) outcome)"
    using reverse_waiters_mono [OF rv, of ?n] reverse_waiters_mono [OF q(2), of ?n] by simp
  then have hh: "h' = h" "head' = head" by simp_all
  have tq: "q_transfer_q s = []" using inv t by (simp add: cs_shape_def)
  have rq: "rev (q_resuming_q s) = head # xs" using q(1,3) hh by simp
  show l: "cs_line ?t = cs_line s" using c pc' tq rq by (simp add: cs_line_def)
  have al: "alive (q_heap s) (mset (cs_line s) + cs_nodes (q_agents s))" using inv by (simp add: cs_shape_def)
  note sw = q(5) [unfolded hh(1)]
  show "cs_shape ?t"
    using inv q(4) hh w rq alive_same [OF sw al] map_heap_wake_same [OF sw al]
    unfolding cs_shape_def l by simp
qed

lemma cs_shape_resume:
  assumes inv: "cs_shape s" and c: "q_controls s = [Ctl_resume a]" and w: "q_heap s a = Some w"
  shows "cs_shape (s\<lparr>q_heap := (q_heap s)(a := None), q_granted := q_granted s @ [wake_of w],
                  q_controls := [Ctl_count]\<rparr>)"  (is "cs_shape ?t")
proof -
  have l: "cs_line s = a # cs_line ?t" by (simp add: cs_line_def c)
  have al: "alive (q_heap s) (add_mset a (mset (cs_line ?t) + cs_nodes (q_agents s)))"
    using inv by (simp add: cs_shape_def l)
  then have a: "a \<notin># mset (cs_line ?t) + cs_nodes (q_agents s)" by simp
  then have a': "a \<notin> set (cs_line ?t)" "a \<notin> set (q_transfer_q s)" "a \<notin> set (q_resuming_q s)"
    by (auto simp: cs_line_def)
  have "map (heap_wake (q_heap s)) (cs_line s) = wake_of w # map (heap_wake ((q_heap s)(a := None))) (cs_line ?t)"
    unfolding heap_wake_upd [OF a'(1)] by (simp add: l heap_wake_def w)
  moreover have "alive ((q_heap s)(a := None)) (mset (cs_line ?t) + cs_nodes (q_agents s))"
    using al a by (intro alive_upd) simp_all
  ultimately show ?thesis using inv a' unfolding cs_shape_def by simp
qed


text \<open>The counts hold \<open>control()\<close> to one coroutine at a time.\<close>

lemma one_control:
  assumes "cs_numbers start s" and "q_controls s = us @ pc # vs"
  shows "us = []" "vs = []" "q_controls s = [pc]" "1 \<le> q_release s"
  using assms by (auto simp: cs_numbers_def split: if_splits)

lemma cs_numbers_frame:
  assumes "cs_numbers start s" and "q_release t = q_release s" "q_released t = q_released s"
    "length (q_controls t) = length (q_controls s)"
    "q_active t + pending t + int (q_taken t) + int (length (q_granted t)) - sum_list (map added (q_controls t)) =
       q_active s + pending s + int (q_taken s) + int (length (q_granted s)) - sum_list (map added (q_controls s))"
    "sum_list (map owes (q_controls t)) \<le> q_active t + pending t"
    "sum_list (map owes (q_controls t)) \<le> pending t"
  shows "cs_numbers start t"
  using assms by (simp add: cs_numbers_def)

lemma cs_numbers_release:
  assumes "cs_numbers start s" and "0 < update"
  shows "cs_numbers start (s\<lparr>q_release := q_release s + update, q_released := q_released s + update,
                  q_controls := q_controls s @ (if q_release s = 0 then [Ctl_transfer] else [])\<rparr>)"
  using assms by (auto simp: cs_numbers_def pending_def cs_line_def)

lemma cs_numbers_end:
  assumes "cs_numbers start s" and "q_controls s = us @ Ctl_count # vs"
  shows "cs_numbers start (s\<lparr>q_release := q_release s - 1,
                  q_controls := us @ (if q_release s = 1 then [] else [Ctl_transfer]) @ vs\<rparr>)"
  using assms one_control [OF assms] by (auto simp: cs_numbers_def pending_def cs_line_def)

lemmas cs_count_simps = pending_def cs_line_def cs_numbers_def

lemma added_after [simp]: "pc = Ctl_transfer \<or> pc = Ctl_spin \<Longrightarrow> added (after_found pc a) = added pc"
  "pc = Ctl_transfer \<or> pc = Ctl_spin \<Longrightarrow> owes (after_found pc a) = owes pc"
  "pc = Ctl_transfer \<or> pc = Ctl_spin \<Longrightarrow> added (after_none pc) = added pc"
  "pc = Ctl_transfer \<or> pc = Ctl_spin \<Longrightarrow> owes (after_none pc) = owes pc"
  by auto

lemma pending_line: "cs_line t = cs_line s \<Longrightarrow> q_agents t = q_agents s \<Longrightarrow> pending t = pending s"
  by (simp add: pending_def)

lemma cs_step_numbers:
  assumes "cs_step s t" and "cs_shape s" and "cs_numbers start s"
  shows "cs_numbers start t"
  using assms
proof (induction rule: cs_step.induct)
  case (cs_release update s)
  then show ?case by (intro cs_numbers_release)
next
  case (cs_end s us vs)
  then show ?case by (intro cs_numbers_end)
next
  case (cs_pop s us pc vs w)
  note c = one_control [OF cs_pop(6,1)]
  have l: "cs_line (s\<lparr>q_transfer := w_next w, q_transfer_q := tl (q_transfer_q s),
      q_controls := [after_found pc (q_transfer s)]\<rparr>) = cs_line s"
    using cs_pop c by (intro cs_shape_pop(2)) (auto simp del: after_found.simps)
  then have "pending (s\<lparr>q_transfer := w_next w, q_transfer_q := tl (q_transfer_q s),
      q_controls := [after_found pc (q_transfer s)]\<rparr>) = pending s" by (rule pending_line) simp
  with cs_pop c show ?case by (simp add: cs_numbers_def del: after_found.simps)
next
  case (cs_exchange s us pc vs n h head w)
  note c = one_control [OF cs_exchange(8,1)]
  let ?t = "s\<lparr>q_resuming := 0, q_transfer := w_next w, q_heap := h,
       q_transfer_q := tl (rev (q_resuming_q s)), q_resuming_q := [], q_controls := [after_found pc head]\<rparr>"
  have l: "cs_line ?t = cs_line s" using cs_exchange c by (intro cs_shape_exchange(2)) (auto simp del: after_found.simps)
  then have "pending ?t = pending s" by (rule pending_line) simp
  with cs_exchange c show ?case by (simp add: cs_numbers_def del: after_found.simps)
next
  case (cs_empty s us pc vs)
  note c = one_control [OF cs_empty(6,1)]
  have "pending (s\<lparr>q_controls := [after_none pc]\<rparr>) = pending s"
    using cs_empty(2) c by (intro pending_line) (simp_all add: cs_line_def del: after_none.simps)
  with cs_empty c show ?case by (simp add: cs_numbers_def del: after_none.simps)
next
  case (cs_found s us a vs)
  note c = one_control [OF cs_found(3,1)]
  from cs_found c show ?case by (auto simp: cs_count_simps)
next
  case (cs_none s us vs)
  note c = one_control [OF cs_none(3,1)]
  from cs_none c show ?case by (auto simp: cs_count_simps)
next
  case (cs_resume s us a vs w)
  note c = one_control [OF cs_resume(4,1)]
  from cs_resume c show ?case by (auto simp: cs_count_simps)
qed (auto simp: cs_count_simps)

lemma cs_step_shape:
  assumes "cs_step s t" and "cs_shape s" and "cs_numbers start s"
  shows "cs_shape t"
  using assms
proof (induction rule: cs_step.induct)
  case (cs_enter s a th co)
  have l: "alive (q_heap s) (mset (cs_line s) + cs_nodes (q_agents s))" using cs_enter(3) by (simp add: cs_shape_def)
  then have "a \<notin># mset (cs_line s) + cs_nodes (q_agents s)" using cs_enter(1) unfolding alive_def by blast
  with l show ?case using cs_enter by (intro cs_shape_upd [where A = "q_agents s"]) simp_all
next
  case (cs_take s a r A)
  have "cs_shape (s\<lparr>q_heap := (q_heap s)(a := None), q_agents := A\<rparr>)"
    using cs_shape_own [OF cs_take(4,1)] cs_take(4) by (intro cs_shape_upd [where A = A]) simp_all
  then show ?case by (rule cs_shape_frame) (simp_all add: cs_line_def)
next
  case (cs_push_retry s a previous A w)
  then show ?case using cs_shape_own [OF cs_push_retry(3,1)] by (intro cs_shape_upd [where A = A]) simp_all
next
  case (cs_push s a previous A w)
  then show ?case by (intro cs_shape_push)
next
  case (cs_pop s us pc vs w)
  then show ?case using one_control [OF cs_pop(6,1)] cs_shape_pop(1) [of s pc w "after_found pc (q_transfer s)"]
    by (simp del: after_found.simps)
next
  case (cs_exchange s us pc vs n h head w)
  then show ?case using one_control [OF cs_exchange(8,1)]
      cs_shape_exchange(1) [of s pc n h head w "after_found pc head"]
    by (simp del: after_found.simps)
next
  case (cs_resume s us a vs w)
  then show ?case using one_control [OF cs_resume(4,1)] cs_shape_resume [of s a w] by simp
next
  case (cs_empty s us pc vs)
  from cs_empty(5) show ?case
    by (rule cs_shape_frame) (use cs_empty in \<open>simp_all add: cs_line_def del: after_none.simps\<close>)
qed (erule cs_shape_frame; simp add: cs_line_def)+

lemma cs_reachable_inv [zab_inv]:
  assumes "cs_reachable start s" and "0 \<le> start"
  shows "cs_shape s" "cs_numbers start s"
proof -
  have "cs_shape s \<and> cs_numbers start s" using assms
  proof (induction rule: cs_reachable.induct)
    case cs_start
    then show ?case by (simp add: cs_shape_def cs_numbers_def cs_init_def cs_line_def pending_def)
  next
    case (cs_next s t)
    then show ?case using cs_step_shape cs_step_numbers by blast
  qed
  then show "cs_shape s" "cs_numbers start s" by simp_all
qed


section \<open>Progress of \<open>control()\<close>\<close>

lemma cs_steps_inv:
  assumes "cs_step\<^sup>*\<^sup>* s t" and "cs_shape s" "cs_numbers start s"
  shows "cs_shape t" "cs_numbers start t"
proof -
  have "cs_shape t \<and> cs_numbers start t" using assms
    by (induction rule: rtranclp_induct) (auto intro: cs_step_shape cs_step_numbers)
  then show "cs_shape t" "cs_numbers start t" by simp_all
qed

text \<open>A coroutine that has counted down can always queue its waiter.\<close>

lemma counted_can_queue:
  assumes sh: "cs_shape s" and c: "0 < counted (q_agents s)"
  shows "\<exists>t. cs_step\<^sup>*\<^sup>* s t \<and> q_resuming_q t \<noteq> [] \<and> q_controls t = q_controls s \<and> q_release t = q_release s \<and>
     q_released t = q_released s"
proof -
  have push: "\<exists>t. cs_step u t \<and> q_resuming_q t \<noteq> [] \<and> q_controls t = q_controls u \<and> q_release t = q_release u \<and>
     q_released t = q_released u"
    if "q_agents u = add_mset (Pushing a (q_resuming u)) A" "q_heap u a \<noteq> None" for u a A
    using that cs_step.cs_push [of u a "q_resuming u" A] by fastforce
  from c have "filter_mset counted_down (q_agents s) \<noteq> {#}" unfolding counted_def by force
  then obtain g where "g \<in># filter_mset counted_down (q_agents s)" by (meson multiset_nonemptyE)
  then have "g \<in># q_agents s" and g: "counted_down g" by simp_all
  then obtain A where A: "q_agents s = add_mset g A" by (meson multi_member_split)
  show ?thesis
  proof (cases g)
    case (Counted a)
    let ?u = "s\<lparr>q_agents := add_mset (Pushing a (q_resuming s)) A\<rparr>"
    have "cs_step s ?u" using A Counted by (auto intro: cs_step.cs_load)
    moreover obtain t where "cs_step ?u t" "q_resuming_q t \<noteq> [] \<and> q_controls t = q_controls ?u \<and>
        q_release t = q_release ?u \<and> q_released t = q_released ?u"
      using push [of ?u a A] cs_shape_own(4) [OF sh A, of a] Counted by auto
    ultimately show ?thesis by (intro exI [of _ t]) (auto intro: rtranclp.intros)
  next
    case (Pushing a p)
    then obtain w where w: "q_heap s a = Some w" using cs_shape_own(4) [OF sh A, of a] by auto
    let ?u = "s\<lparr>q_heap := (q_heap s)(a \<mapsto> w\<lparr>w_next := p\<rparr>), q_agents := add_mset (Pushing a (q_resuming s)) A\<rparr>"
    have "cs_step s ?u" using A Pushing w by (intro cs_step.cs_push_retry) simp_all
    moreover obtain t where "cs_step ?u t" "q_resuming_q t \<noteq> [] \<and> q_controls t = q_controls ?u \<and>
        q_release t = q_release ?u \<and> q_released t = q_released ?u"
      using push [of ?u a A] by auto
    ultimately show ?thesis by (intro exI [of _ t]) (auto intro: rtranclp.intros)
  qed (use g in auto)
qed

text \<open>\<open>transfer()\<close> finds a waiter whenever one is queued.\<close>

lemma transfer_finds:
  assumes sh: "cs_shape s" and c: "q_controls s = [pc]" "pc = Ctl_transfer \<or> pc = Ctl_spin"
    and q: "q_transfer_q s \<noteq> [] \<or> q_resuming_q s \<noteq> []"
  shows "\<exists>t a. cs_step s t \<and> q_controls t = [after_found pc a] \<and> q_release t = q_release s \<and> q_released t = q_released s"
proof (cases "q_transfer s = 0")
  case False
  with sh obtain w where w: "q_heap s (q_transfer s) = Some w" by (cases "q_transfer_q s") (auto simp: cs_shape_def)
  show ?thesis using cs_step.cs_pop [of s "[]" pc "[]" w] c False w by fastforce
next
  case True
  with sh q have "q_resuming s \<noteq> 0" by (auto simp: cs_shape_def)
  obtain y ys h head xs where r: "q_resuming_q s = y # ys"
    "reverse_waiters (length (y # ys)) (\<lambda>p. p = 0) (q_resuming s) 0 (q_heap s) = Inr (h, head)"
    "rev (y # ys) = head # xs" "chain (waiter_next h) head (head # xs) 0" "same_waiters (q_heap s) h"
    by (rule captured_queue [OF sh \<open>q_resuming s \<noteq> 0\<close>])
  from r(4) obtain w where w: "h head = Some w" by auto
  show ?thesis
    using cs_step.cs_exchange [of s "[]" pc "[]", OF _ _ True \<open>q_resuming s \<noteq> 0\<close> r(2) w] c by fastforce
qed

fun cs_rank :: "ctl_pc \<Rightarrow> nat" where
  "cs_rank Ctl_transfer = 7"
| "cs_rank Ctl_none = 6"
| "cs_rank Ctl_spin = 5"
| "cs_rank (Ctl_found a) = 4"
| "cs_rank (Ctl_resume a) = 3"
| "cs_rank Ctl_count = 2"

definition cs_work :: "cs_conc \<Rightarrow> nat" where
  "cs_work s = 8 * nat (q_release s) + sum_list (map cs_rank (q_controls s))"

lemma cs_work_less:
  assumes "q_controls s = [pc]" "q_controls t = [pc']" "q_release t = q_release s" "cs_rank pc' < cs_rank pc"
  shows "cs_work t < cs_work s"
  using assms by (simp add: cs_work_def)

lemma control_progress:
  assumes sh: "cs_shape s" and nu: "cs_numbers start s" and r: "0 < q_release s"
  shows "\<exists>t. cs_step\<^sup>*\<^sup>* s t \<and> q_released t = q_released s \<and> cs_work t < cs_work s"
proof -
  from nu r obtain pc where c: "q_controls s = [pc]" by (auto simp: cs_numbers_def length_Suc_conv)
  have one: "\<exists>t. cs_step\<^sup>*\<^sup>* s t \<and> q_released t = q_released s \<and> cs_work t < cs_work s"
    if "cs_step s t" "q_released t = q_released s" "cs_work t < cs_work s" for t
    using that by (intro exI [of _ t]) auto
  show ?thesis
  proof (cases pc)
    case Ctl_transfer
    show ?thesis
    proof (cases "q_transfer_q s = [] \<and> q_resuming_q s = []")
      case True
      then have "q_transfer s = 0" "q_resuming s = 0" using sh by (simp_all add: cs_shape_def)
      with c Ctl_transfer show ?thesis
        by (intro one [OF cs_step.cs_empty [of s "[]" pc "[]"]]) (simp_all add: cs_work_def)
    next
      case False
      with transfer_finds [OF sh c] Ctl_transfer obtain t a where
        "cs_step s t" "q_controls t = [Ctl_found a]" "q_release t = q_release s" "q_released t = q_released s" by auto
      with c Ctl_transfer show ?thesis by (intro one [of t]) (auto intro: cs_work_less)
    qed
  next
    case (Ctl_found a)
    with c show ?thesis by (intro one [OF cs_step.cs_found [of s "[]" a "[]"]]) (simp_all add: cs_work_def)
  next
    case Ctl_none
    with c show ?thesis by (intro one [OF cs_step.cs_none [of s "[]" "[]"]]) (simp_all add: cs_work_def)
  next
    case Ctl_spin
    have p: "1 \<le> pending s" using nu c Ctl_spin by (simp add: cs_numbers_def)
    obtain u where u: "cs_step\<^sup>*\<^sup>* s u" "q_transfer_q u \<noteq> [] \<or> q_resuming_q u \<noteq> []" "q_controls u = q_controls s"
      "q_release u = q_release s" "q_released u = q_released s"
    proof (cases "q_transfer_q s = [] \<and> q_resuming_q s = []")
      case True
      with p c Ctl_spin have "0 < counted (q_agents s)" by (simp add: pending_def cs_line_def)
      from counted_can_queue [OF sh this] that show ?thesis by blast
    next
      case False
      then show ?thesis using that [of s] by auto
    qed
    have "cs_shape u" by (rule cs_steps_inv(1) [OF u(1) sh nu])
    from transfer_finds [OF this _ _ u(2)] u(3) c Ctl_spin obtain t a where
      "cs_step u t" "q_controls t = [Ctl_resume a]" "q_release t = q_release s" "q_released t = q_released s"
      using u(4,5) by auto
    with c Ctl_spin u(1) show ?thesis by (intro exI [of _ t]) (auto intro: cs_work_less)
  next
    case (Ctl_resume a)
    then have "q_heap s a \<noteq> None" using sh c by (auto simp: cs_shape_def cs_line_def)
    then obtain w where "q_heap s a = Some w" by auto
    with c Ctl_resume show ?thesis by (intro one [OF cs_step.cs_resume [of s "[]" a "[]"]]) (simp_all add: cs_work_def)
  next
    case Ctl_count
    with c r show ?thesis by (intro one [OF cs_step.cs_end [of s "[]" "[]"]]) (auto simp: cs_work_def)
  qed
qed

lemma control_completes:
  assumes "cs_shape s" and "cs_numbers start s"
  shows "\<exists>t. cs_step\<^sup>*\<^sup>* s t \<and> q_released t = q_released s \<and> q_release t = 0"
  using assms
proof (induction "cs_work s" arbitrary: s rule: less_induct)
  case less
  show ?case
  proof (cases "q_release s = 0")
    case False
    with less.prems have "0 < q_release s" by (simp add: cs_numbers_def)
    from control_progress [OF less.prems this] obtain u where
      u: "cs_step\<^sup>*\<^sup>* s u" "q_released u = q_released s" "cs_work u < cs_work s" by blast
    from less.hyps [OF u(3) cs_steps_inv [OF u(1) less.prems]] u show ?thesis
      by (metis rtranclp_trans)
  qed auto
qed

lemma cs_reachable_steps: "cs_step\<^sup>*\<^sup>* s t \<Longrightarrow> cs_reachable start s \<Longrightarrow> cs_reachable start t"
  by (induction rule: rtranclp_induct) (auto intro: cs_next)

section \<open>Properties\<close>



section \<open>Witnesses\<close>

text \<open>A semaphore with no permit: a coroutine counts down, a release finds no waiter queued, counts up from
  -1 and spins.\<close>

lemma demo_cs_run:
  "\<exists>s. cs_reachable 0 s \<and> q_controls s = [Ctl_spin] \<and> q_release s = 1 \<and> q_released s = 1 \<and> q_taken s = 0 \<and>
     q_granted s = []"
proof -
  define w where "w = \<lparr>w_thread = Thread_t 0, w_next = 0, w_handle = 32\<rparr>"
  define s1 where "s1 = (cs_init 0)\<lparr>q_heap := [16 \<mapsto> w], q_agents := {#Loading 16 0#}\<rparr>"
  define s2 where "s2 = s1\<lparr>q_active := - 1, q_agents := {#Counted 16#}\<rparr>"
  define s3 where "s3 = s2\<lparr>q_release := 1, q_released := 1, q_controls := [Ctl_transfer]\<rparr>"
  define s4 where "s4 = s3\<lparr>q_controls := [Ctl_none]\<rparr>"
  define s5 where "s5 = s4\<lparr>q_active := 0, q_controls := [Ctl_spin]\<rparr>"
  have "cs_step (cs_init 0) s1"
    using cs_enter [of "cs_init 0" 16 "Thread_t 0" 32] by (simp add: s1_def w_def cs_init_def)
  moreover have "cs_step s1 s2" using cs_count [of s1 16 0 "{#}"] by (simp add: s1_def s2_def cs_init_def)
  moreover have "cs_step s2 s3" using cs_release [of 1 s2] by (simp add: s1_def s2_def s3_def cs_init_def)
  moreover have "cs_step s3 s4"
    using cs_empty [of s3 "[]" Ctl_transfer "[]"] by (simp add: s1_def s2_def s3_def s4_def cs_init_def)
  moreover have "cs_step s4 s5"
    using cs_none [of s4 "[]" "[]"] by (simp add: s1_def s2_def s3_def s4_def s5_def cs_init_def)
  ultimately have "cs_reachable 0 s5" by (meson cs_start cs_next)
  then show ?thesis by (intro exI [of _ s5]) (simp add: s5_def s4_def s3_def s2_def s1_def cs_init_def)
qed



end
