(* ===== verification/Async_Barrier_Steps.thy ===== *)
theory Async_Barrier_Steps
  imports Async_Barrier "HOL-Library.Multiset"
begin

text \<open>
  Threads that use one barrier concurrently, one atomic access at a time, on the state of \<open>Async_Barrier\<close>.

  An arrival is \<open>Arrived p final\<close> after it has counted down (\<open>final\<close>: it took the count from 1 to 0) and
  \<open>Adding p previous final\<close> in the loop that pushes its entry \<open>p\<close>.  A coroutine in \<open>complete_phase\<close> is
  \<open>Completing\<close> in the loop of \<open>aquire_window\<close> (or still queued by \<open>execute\<close>), \<open>Window w\<close> when it has found
  the window that starts at \<open>w\<close>, \<open>Trimmed w k ws\<close> when it has cut it off the set and counted \<open>k\<close> drops,
  \<open>Reduced w ws\<close> when it has run the completion function and lowered \<open>expected_\<close>, and \<open>Resuming p c ws\<close> in the
  loop of \<open>resume_frames\<close> at the entry \<open>p\<close>, where \<open>c\<close> is the count that its \<open>fetch_add\<close> returned.  A scan of the
  list, its cut and the count of drops are one step each: what they read after the head of the list is written
  by nobody else.  A resumed waiter is gone and its memory may be used again.

  Auxiliary, read by no step: the lists \<open>ws\<close> of the entries of a window and \<open>v_set\<close> of the working set, the
  coroutines that were added, in order, the windows that were cut off and the coroutines that were resumed, and
  how often the completion function ran.
\<close>

section \<open>Steps\<close>

datatype bar_agent =
    Arrived addr bool
  | Adding addr addr bool
  | Completing
  | Window addr
  | Trimmed addr int "addr list"
  | Reduced addr "addr list"
  | Resuming addr int "addr list"

record bar_conc =
  v_bar :: "unit barrier"
  v_agents :: "bar_agent multiset"
  v_set :: "addr list"
  v_arrived :: "(thread_t \<times> coro) list"
  v_windows :: "(thread_t \<times> coro) list list"
  v_resumed :: "(thread_t \<times> coro) list"
  v_completions :: nat

definition bwake :: "(addr \<rightharpoonup> bnode) \<Rightarrow> addr \<Rightarrow> thread_t \<times> coro" where
  "bwake h p = (node_thread (the (node_at h p)), node_handle (the (node_at h p)))"

text \<open>What an arrival adds to the history: nothing for a drop.\<close>

fun wake_list :: "bnode \<Rightarrow> (thread_t \<times> coro) list" where
  "wake_list (Drop_node _) = []"
| "wake_list nd = [(node_thread nd, node_handle nd)]"

definition window_wakes :: "(addr \<rightharpoonup> bnode) \<Rightarrow> addr list \<Rightarrow> (thread_t \<times> coro) list" where
  "window_wakes h ws = concat (map (\<lambda>p. wake_list (the (node_at h p))) ws)"

inductive bar_step :: "bool \<Rightarrow> bar_conc \<Rightarrow> bar_conc \<Rightarrow> bool" for drops where
  bar_arrive: "v_bar s = b \<Longrightarrow> nodes b a = None \<Longrightarrow> a \<noteq> 0 \<Longrightarrow> a AND kFlagMask = 0 \<Longrightarrow> co \<noteq> 0 \<Longrightarrow>
     bar_step drops s
       (s\<lparr>v_bar := b\<lparr>bar_count := bar_count b - 1, nodes := (nodes b)(a \<mapsto> Waiter_node 0 co th)\<rparr>,
          v_agents := add_mset (Arrived a (bar_count b = 1)) (v_agents s)\<rparr>)"
| bar_drop: "drops \<Longrightarrow> v_bar s = b \<Longrightarrow> nodes b a = None \<Longrightarrow> a \<noteq> 0 \<Longrightarrow> a AND kFlagMask = 0 \<Longrightarrow>
     bar_step drops s
       (s\<lparr>v_bar := b\<lparr>bar_count := bar_count b - 1, nodes := (nodes b)(a \<mapsto> Drop_node 0)\<rparr>,
          v_agents := add_mset (Arrived (a OR kDropFlag) (bar_count b = 1)) (v_agents s)\<rparr>)"
| bar_load: "v_agents s = add_mset (Arrived p final) A \<Longrightarrow>
     bar_step drops s (s\<lparr>v_agents := add_mset (Adding p (working_set (v_bar s)) final) A\<rparr>)"
| bar_push: "v_agents s = add_mset (Adding p previous final) A \<Longrightarrow> v_bar s = b \<Longrightarrow> working_set b = previous \<Longrightarrow>
     node_at (nodes b) p = Some nd \<Longrightarrow>
     bar_step drops s
       (s\<lparr>v_bar := b\<lparr>nodes := set_next p previous (nodes b), working_set := p\<rparr>,
          v_agents := (if final then add_mset Completing A else A), v_set := p # v_set s,
          v_arrived := v_arrived s @ wake_list nd\<rparr>)"
| bar_push_retry: "v_agents s = add_mset (Adding p previous final) A \<Longrightarrow> v_bar s = b \<Longrightarrow>
     bar_step drops s
       (s\<lparr>v_bar := b\<lparr>nodes := set_next p previous (nodes b)\<rparr>,
          v_agents := add_mset (Adding p (working_set b) final) A\<rparr>)"
| bar_scan: "v_agents s = add_mset Completing A \<Longrightarrow> window_scan n (v_bar s) = Inr w \<Longrightarrow>
     bar_step drops s (s\<lparr>v_agents := add_mset (if w = 0 then Completing else Window w) A\<rparr>)"
| bar_trim: "v_agents s = add_mset (Window w) A \<Longrightarrow> trim_window n w (v_bar s) = Inr b \<Longrightarrow>
     amount_to_drop m w b = Inr k \<Longrightarrow> v_set s = us @ ws \<Longrightarrow> ws \<noteq> [] \<Longrightarrow> hd ws = w \<Longrightarrow>
     bar_step drops s
       (s\<lparr>v_bar := b, v_agents := add_mset (Trimmed w k ws) A, v_set := us,
          v_windows := v_windows s @ [window_wakes (nodes b) ws]\<rparr>)"
| bar_reduce: "v_agents s = add_mset (Trimmed w k ws) A \<Longrightarrow> v_bar s = b \<Longrightarrow>
     bar_step drops s
       (s\<lparr>v_bar := b\<lparr>expected := expected b - k\<rparr>, v_agents := add_mset (Reduced w ws) A,
          v_completions := Suc (v_completions s)\<rparr>)"
| bar_add: "v_agents s = add_mset (Reduced w ws) A \<Longrightarrow> v_bar s = b \<Longrightarrow>
     bar_step drops s
       (s\<lparr>v_bar := b\<lparr>bar_count := bar_count b + expected b\<rparr>, v_agents := add_mset (Resuming w (bar_count b) ws) A\<rparr>)"
| bar_resume: "v_agents s = add_mset (Resuming p c ws) A \<Longrightarrow> p \<noteq> 0 \<Longrightarrow> v_bar s = b \<Longrightarrow>
     node_at (nodes b) p = Some nd \<Longrightarrow>
     bar_step drops s
       (s\<lparr>v_bar := b\<lparr>nodes := (nodes b)(base p := None)\<rparr>,
          v_agents := add_mset (Resuming (node_next nd) c (tl ws)) A, v_resumed := v_resumed s @ wake_list nd\<rparr>)"
| bar_check: "v_agents s = add_mset (Resuming 0 c ws) A \<Longrightarrow>
     bar_step drops s (s\<lparr>v_agents := (if c \<le> - expected (v_bar s) then add_mset Completing A else A)\<rparr>)"

definition bar_init :: "engine \<Rightarrow> thread_t \<Rightarrow> int \<Rightarrow> bar_conc" where
  "bar_init e th n = \<lparr>v_bar = make_barrier e n th (), v_agents = {#}, v_set = [], v_arrived = [], v_windows = [],
     v_resumed = [], v_completions = 0\<rparr>"

text \<open>The states that \<open>n\<close> parties can reach, with or without calls of \<open>arrive_and_drop\<close>.\<close>

definition bar_reachable :: "bool \<Rightarrow> int \<Rightarrow> bar_conc \<Rightarrow> bool" where
  "bar_reachable drops n s \<longleftrightarrow> (\<exists>e th. (bar_step drops)\<^sup>*\<^sup>* (bar_init e th n) s)"

section \<open>Invariant without drops\<close>

fun entries :: "bar_agent \<Rightarrow> addr list" where
  "entries (Arrived p _) = [p]"
| "entries (Adding p _ _) = [p]"
| "entries (Trimmed _ _ ws) = ws"
| "entries (Reduced _ ws) = ws"
| "entries (Resuming _ _ ws) = ws"
| "entries _ = []"

fun arriving :: "bar_agent \<Rightarrow> bool" where
  "arriving (Arrived _ _) = True"
| "arriving (Adding _ _ _) = True"
| "arriving _ = False"

fun took :: "bar_agent \<Rightarrow> bool" where
  "took (Trimmed _ _ _) = True"
| "took (Reduced _ _) = True"
| "took _ = False"

text \<open>An agent that completes the phase, or is going to.\<close>

fun busy :: "int \<Rightarrow> bar_agent \<Rightarrow> bool" where
  "busy n (Arrived _ final) = final"
| "busy n (Adding _ _ final) = final"
| "busy n (Resuming _ c _) = (c \<le> - n)"
| "busy n _ = True"

fun ran :: "bar_agent \<Rightarrow> bool" where
  "ran (Trimmed _ _ _) = False"
| "ran _ = True"

definition wnode :: "(addr \<rightharpoonup> bnode) \<Rightarrow> addr \<Rightarrow> bool" where
  "wnode h a \<longleftrightarrow> a \<noteq> 0 \<and> a AND kFlagMask = 0 \<and> (\<exists>q co th. node_at h a = Some (Waiter_node q co th))"

definition owned :: "(addr \<rightharpoonup> bnode) \<Rightarrow> addr multiset \<Rightarrow> bool" where
  "owned h M \<longleftrightarrow> once M \<and> (\<forall>a \<in># M. wnode h a)"

fun agent_ok :: "int \<Rightarrow> (addr \<rightharpoonup> bnode) \<Rightarrow> addr list \<Rightarrow> bar_agent \<Rightarrow> bool" where
  "agent_ok n h xs (Window w) = (\<exists>us ws. xs = us @ w # ws \<and> int (length (w # ws)) = n)"
| "agent_ok n h xs (Trimmed w k ws) = (chain (bnext h) w ws 0 \<and> k = 0 \<and> int (length ws) = n)"
| "agent_ok n h xs (Reduced w ws) = (chain (bnext h) w ws 0 \<and> int (length ws) = n)"
| "agent_ok n h xs (Resuming w c ws) = chain (bnext h) w ws 0"
| "agent_ok n h xs _ = True"

definition held_entries :: "bar_agent multiset \<Rightarrow> addr multiset" where
  "held_entries A = \<Sum>\<^sub># (image_mset (\<lambda>g. mset (entries g)) A)"

text \<open>The entries of the windows that are being completed.\<close>

definition window_entries :: "bar_agent multiset \<Rightarrow> addr multiset" where
  "window_entries A = held_entries (filter_mset (\<lambda>g. \<not> arriving g) A)"

definition agents_with :: "(bar_agent \<Rightarrow> bool) \<Rightarrow> bar_agent multiset \<Rightarrow> int" where
  "agents_with P A = int (size (filter_mset P A))"

lemma held_entries_simps [simp]:
  "held_entries {#} = {#}" "held_entries (add_mset g A) = mset (entries g) + held_entries A"
  by (simp_all add: held_entries_def)

lemma window_entries_simps [simp]:
  "window_entries {#} = {#}"
  "window_entries (add_mset g A) = (if arriving g then window_entries A else mset (entries g) + window_entries A)"
  by (simp_all add: window_entries_def)

lemma agents_with_simps [simp]:
  "agents_with P {#} = 0" "agents_with P (add_mset g A) = (if P g then 1 + agents_with P A else agents_with P A)"
  by (simp_all add: agents_with_def)

lemma agents_with_nonneg: "0 \<le> agents_with P A"
  by (simp add: agents_with_def)

definition bar_shape :: "int \<Rightarrow> (addr \<rightharpoonup> bnode) \<Rightarrow> addr \<Rightarrow> addr list \<Rightarrow> bar_agent multiset \<Rightarrow> bool" where
  "bar_shape n h p xs A \<longleftrightarrow> chain (bnext h) p xs 0 \<and> (\<forall>g \<in># A. agent_ok n h xs g) \<and>
     owned h (mset xs + held_entries A)"

definition bar_history :: "int \<Rightarrow> bar_conc \<Rightarrow> bool" where
  "bar_history n s \<longleftrightarrow> (let h = nodes (v_bar s) in
     v_arrived s = concat (map rev (v_windows s)) @ map (bwake h) (rev (v_set s)) \<and>
     mset (concat (v_windows s)) = mset (v_resumed s) + image_mset (bwake h) (window_entries (v_agents s)) \<and>
     (\<forall>w \<in> set (v_windows s). int (length w) = n) \<and>
     int (v_completions s) = int (length (v_windows s)) - agents_with (\<lambda>g. \<not> ran g) (v_agents s))"

definition bar_numbers :: "int \<Rightarrow> bar_conc \<Rightarrow> bool" where
  "bar_numbers n s \<longleftrightarrow> (let b = v_bar s; A = v_agents s in
     expected b = n \<and> agents_with (busy n) A = (if bar_count b \<le> 0 then 1 else 0) \<and>
     bar_count b + int (length (v_set s)) + agents_with arriving A + n * agents_with took A = n)"

definition bar_inv :: "int \<Rightarrow> bar_conc \<Rightarrow> bool" where
  "bar_inv n s \<longleftrightarrow> bar_shape n (nodes (v_bar s)) (working_set (v_bar s)) (v_set s) (v_agents s) \<and>
     bar_history n s \<and> bar_numbers n s"


subsection \<open>Memory\<close>

lemma wnode_base: "wnode h a \<Longrightarrow> base a = a"
  by (simp add: wnode_def aligned_base)

lemma wnode_cong: "node_at h' a = node_at h a \<Longrightarrow> wnode h' a = wnode h a"
  by (simp add: wnode_def)

lemma wnode_with_next: "wnode h a \<Longrightarrow> wnode (set_next a q h) a"
  by (auto simp: wnode_def set_next_same)

lemma wnode_wakes: "wnode h a \<Longrightarrow> wake_list (the (node_at h a)) = [bwake h a]"
  by (auto simp: wnode_def bwake_def)

lemma window_wakes_map: "(\<And>x. x \<in> set ws \<Longrightarrow> wnode h x) \<Longrightarrow> window_wakes h ws = map (bwake h) ws"
  by (induction ws) (simp_all add: window_wakes_def wnode_wakes)

lemma wnode_not_drop: "wnode h a \<Longrightarrow> \<not> is_drop (the (node_at h a))"
  by (auto simp: wnode_def is_drop_def)

lemma bwake_cong: "node_at h' a = node_at h a \<Longrightarrow> bwake h' a = bwake h a"
  by (simp add: bwake_def)

lemma bwake_set_next: "wnode h a \<Longrightarrow> bwake (set_next a q h) a = bwake h a"
  by (auto simp: wnode_def bwake_def set_next_same)

lemma owned_agent_add [simp]: "owned h (add_mset a M) \<longleftrightarrow> a \<notin># M \<and> wnode h a \<and> owned h M"
  by (auto simp: owned_def)

lemma owned_wnode: "owned h M \<Longrightarrow> a \<in># M \<Longrightarrow> wnode h a"
  by (simp add: owned_def)

lemma owned_cong: "(\<And>x. x \<in># M \<Longrightarrow> node_at h' x = node_at h x) \<Longrightarrow> owned h' M = owned h M"
  unfolding owned_def using wnode_cong by blast

lemma chain_nodes: "(\<And>x. x \<in> set ws \<Longrightarrow> node_at h' x = node_at h x) \<Longrightarrow>
    chain (bnext h') p ws 0 = chain (bnext h) p ws 0"
  by (rule chain_cong) (simp add: bnext_def)

text \<open>A write to the entry \<open>a\<close> does not change the others.\<close>

lemma owned_upd_other:
  assumes "owned h (add_mset a M)" and "x \<in># M"
  shows "node_at (h(a := v)) x = node_at h x" and "node_at (set_next a q h) x = node_at h x"
proof -
  have "wnode h x" using assms owned_wnode by force
  then have "base x = x" by (rule wnode_base)
  moreover have "x \<noteq> a" "base a = a" using assms wnode_base by auto
  ultimately show "node_at (h(a := v)) x = node_at h x" "node_at (set_next a q h) x = node_at h x"
    by (simp_all add: node_at_other set_next_other)
qed

lemma fresh_upd:
  assumes "owned h M" and "h a = None" and "a AND kFlagMask = 0"
  shows "a \<notin># M" and "x \<in># M \<Longrightarrow> node_at (h(a := v)) x = node_at h x"
proof -
  have "\<not> wnode h a" using assms by (simp add: wnode_def node_at_def)
  then show a: "a \<notin># M" using assms owned_wnode by blast
  assume x: "x \<in># M"
  then have "base x = x" using owned_wnode [OF assms(1)] wnode_base by blast
  moreover have "x \<noteq> a" using x a by auto
  ultimately show "node_at (h(a := v)) x = node_at h x" by (simp add: node_at_other)
qed

lemma entries_held: "g \<in># A \<Longrightarrow> x \<in> set (entries g) \<Longrightarrow> x \<in># held_entries A"
  by (auto dest!: multi_member_split)

lemma window_held: "x \<in># window_entries A \<Longrightarrow> x \<in># held_entries A"
  by (induction A) (auto split: if_splits)

lemma agent_ok_cong: "(\<And>x. x \<in> set (entries g) \<Longrightarrow> node_at h' x = node_at h x) \<Longrightarrow>
    agent_ok n h' xs g = agent_ok n h xs g"
  using chain_nodes [of "entries g" h' h] by (cases g) simp_all

lemma agent_ok_push: "agent_ok n h xs g \<Longrightarrow> agent_ok n h (p # xs) g"
proof (cases g)
  case (Window w)
  moreover assume "agent_ok n h xs g"
  ultimately obtain us ws where "p # xs = (p # us) @ w # ws" "int (length (w # ws)) = n" by auto
  with Window show ?thesis unfolding agent_ok.simps Window by blast
qed auto

lemma agent_ok_other: "(\<And>w. g \<noteq> Window w) \<Longrightarrow> agent_ok n h xs g \<Longrightarrow> agent_ok n h ys g"
  by (cases g) auto

lemma no_agents: "agents_with P A = 0 \<Longrightarrow> g \<in># A \<Longrightarrow> \<not> P g"
  by (auto dest!: multi_member_split split: if_splits) (smt (verit) agents_with_nonneg)

lemma bar_shape_cong:
  assumes "\<And>x. x \<in># mset xs + held_entries A \<Longrightarrow> node_at h' x = node_at h x"
  shows "bar_shape n h' p xs A = bar_shape n h p xs A"
proof -
  have "chain (bnext h') p xs 0 = chain (bnext h) p xs 0" using assms by (intro chain_nodes) simp
  moreover have "agent_ok n h' xs g = agent_ok n h xs g" if "g \<in># A" for g
    using assms entries_held [OF that] by (intro agent_ok_cong) simp
  moreover have "owned h' (mset xs + held_entries A) = owned h (mset xs + held_entries A)"
    using assms by (intro owned_cong)
  ultimately show ?thesis by (simp add: bar_shape_def)
qed

lemma wakes_cong:
  assumes "\<And>x. x \<in># mset xs + held_entries A \<Longrightarrow> node_at h' x = node_at h x"
  shows "map (bwake h') (rev xs) = map (bwake h) (rev xs)"
    and "image_mset (bwake h') (window_entries A) = image_mset (bwake h) (window_entries A)"
  using assms window_held bwake_cong [of h' _ h] by (auto intro!: image_mset_cong)

lemma bar_shape_own:
  assumes "bar_shape n h p xs (add_mset g A)" and "entries g = [a]"
  shows "bar_shape n h p xs A" "wnode h a" "a \<notin># mset xs + held_entries A" "owned h (add_mset a (mset xs + held_entries A))"
  using assms by (simp_all add: bar_shape_def)

lemma bar_shape_bset:
  assumes "bar_shape n h p xs A"
  shows "bset h p xs"
proof -
  have "map base xs = xs" using assms by (intro map_idI) (auto simp: bar_shape_def owned_def intro!: wnode_base)
  with assms show ?thesis unfolding bset_def bar_shape_def using chain_distinct by metis
qed

subsection \<open>Arrivals\<close>

lemma bar_shape_arrive:
  assumes sh: "bar_shape n h p xs A" and a: "h a = None" "a \<noteq> 0" "a AND kFlagMask = 0"
  shows "bar_shape n (h(a \<mapsto> Waiter_node 0 co th)) p xs (add_mset (Arrived a f) A)"
proof -
  have o: "owned h (mset xs + held_entries A)" using sh by (simp add: bar_shape_def)
  note other = fresh_upd(2) [OF o a(1,3)]
  have "bar_shape n (h(a \<mapsto> Waiter_node 0 co th)) p xs A" using sh bar_shape_cong [of xs A, OF other] by blast
  moreover have "wnode (h(a \<mapsto> Waiter_node 0 co th)) a" using a by (simp add: wnode_def node_at_def)
  ultimately show ?thesis using fresh_upd(1) [OF o a(1,3)] by (simp add: bar_shape_def)
qed

lemma bar_shape_retry:
  assumes sh: "bar_shape n h p xs (add_mset (Adding a q f) A)"
  shows "bar_shape n (set_next a q' h) p xs (add_mset (Adding a q'' f) A)"
proof -
  note own = bar_shape_own [OF sh entries.simps(2)]
  have "bar_shape n (set_next a q' h) p xs A"
    using own(1) bar_shape_cong [of xs A, OF owned_upd_other(2) [OF own(4)]] by blast
  then show ?thesis using own wnode_with_next [OF own(2)] by (simp add: bar_shape_def)
qed

lemma bar_shape_push:
  assumes sh: "bar_shape n h p xs (add_mset (Adding a q f) A)"
  shows "bar_shape n (set_next a p h) a (a # xs) A"
proof -
  note own = bar_shape_own [OF sh entries.simps(2)]
  have sh': "bar_shape n (set_next a p h) p xs A"
    using own(1) bar_shape_cong [of xs A, OF owned_upd_other(2) [OF own(4)]] by blast
  obtain nd where "node_at h a = Some nd" "a \<noteq> 0" using own(2) by (auto simp: wnode_def)
  then have "chain (bnext (set_next a p h)) a (a # xs) 0" using sh' by (simp add: bar_shape_def set_next_same)
  then show ?thesis using sh' own(3) wnode_with_next [OF own(2)] by (auto simp: bar_shape_def agent_ok_push)
qed


subsection \<open>The window\<close>

lemma iterate_linked_list_mono:
  "iterate_linked_list n hp f p s = Inr r \<Longrightarrow> n \<le> m \<Longrightarrow> iterate_linked_list m hp f p s = Inr r"
proof (induction n arbitrary: m p s)
  case 0
  then show ?case by (cases m) (auto split: if_splits)
next
  case (Suc n)
  then obtain m' where m: "m = Suc m'" "n \<le> m'" by (cases m) auto
  show ?case
  proof (cases "p = 0")
    case False
    with Suc.prems(1) obtain nd s' go where "deref (hp s) p = Inr nd" "f p nd s = Inr (s', go)"
      "(if go then iterate_linked_list n hp f (node_next nd) s' else Inr s') = Inr r" by auto
    with Suc.IH [OF _ m(2), of "node_next nd" s'] m False show ?thesis by (cases go) simp_all
  qed (use Suc.prems m in simp)
qed

lemma window_scan_mono: "window_scan n b = Inr w \<Longrightarrow> n \<le> m \<Longrightarrow> window_scan m b = Inr w"
  unfolding window_scan_def using iterate_linked_list_mono [of n _ _ _ _ _ m] by fastforce

lemma trim_window_mono: "trim_window n w b = Inr b' \<Longrightarrow> n \<le> m \<Longrightarrow> trim_window m w b = Inr b'"
  unfolding trim_window_def using iterate_linked_list_mono by (auto split: if_splits)

lemma amount_to_drop_mono: "amount_to_drop n w b = Inr k \<Longrightarrow> n \<le> m \<Longrightarrow> amount_to_drop m w b = Inr k"
  unfolding amount_to_drop_def by (rule iterate_linked_list_mono)

lemma window_found:
  assumes bs: "bset (nodes b) (working_set b) xs" and ex: "1 \<le> expected b" and scan: "window_scan m b = Inr w"
  shows "if int (length xs) < expected b then w = 0
     else \<exists>us ws. xs = us @ w # ws \<and> int (length (w # ws)) = expected b"
proof -
  let ?k = "nat (expected b)" let ?us = "take (length xs - ?k) xs" and ?ws = "drop (Suc (length xs - ?k)) xs"
  have w: "w = (if int (length xs) < expected b then 0 else xs ! (length xs - ?k))"
    using window_scan_mono [OF scan, of "max m (length xs)"] window_scan_eq [OF bs _ ex, of "max m (length xs)"] by simp
  show ?thesis
  proof (cases "int (length xs) < expected b")
    case False
    then have "length xs - ?k < length xs" using ex by simp
    then have "xs = ?us @ w # ?ws" using w False id_take_nth_drop by simp
    moreover have "int (length (w # ?ws)) = expected b" using False ex by auto
    ultimately have "\<exists>us ws. xs = us @ w # ws \<and> int (length (w # ws)) = expected b" by blast
    then show ?thesis using False by simp
  qed (use w in simp)
qed

lemma trim_window_nodes:
  assumes "bset (nodes b) (working_set b) (us @ w # ws)" and "trim_window n w b = Inr b'"
  shows "nodes b' = (if us = [] then nodes b else set_next (last us) 0 (nodes b))"
proof -
  let ?n = "max n (length us)"
  have t: "trim_window ?n w b = Inr b'" using trim_window_mono [OF assms(2)] by simp
  show ?thesis
  proof (cases us)
    case Nil
    with assms(1) have "working_set b = w" by (simp add: bset_Cons)
    with t Nil show ?thesis by (auto simp: trim_window_def)
  next
    case (Cons u us')
    have "distinct (map base (us @ w # ws))" using assms(1) by (simp only: bset_def)
    then have "base u \<noteq> base w" using Cons by simp
    moreover have "working_set b = u" using assms(1) Cons by (simp add: bset_Cons)
    ultimately have "working_set b \<noteq> w" by auto
    then show ?thesis using t trim_iterate [OF assms(1), of ?n] Cons by (auto simp: trim_window_def)
  qed
qed


lemma set_next_keeps:
  assumes "wnode h a" and "wnode h x"
  shows "wnode (set_next a q h) x" and "bwake (set_next a q h) x = bwake h x"
proof -
  have b: "base a = a" "base x = x" using assms wnode_base by auto
  have "wnode (set_next a q h) x \<and> bwake (set_next a q h) x = bwake h x"
  proof (cases "x = a")
    case True
    with assms show ?thesis by (simp add: wnode_with_next bwake_set_next)
  next
    case False
    with b have "node_at (set_next a q h) x = node_at h x" by (simp add: set_next_other)
    with assms show ?thesis using wnode_cong bwake_cong by blast
  qed
  then show "wnode (set_next a q h) x" "bwake (set_next a q h) x = bwake h x" by simp_all
qed

lemma bar_shape_trim:
  assumes sh: "bar_shape n (nodes b) (working_set b) xs (add_mset (Window w) A)"
    and nw: "\<And>g v. g \<in># A \<Longrightarrow> g \<noteq> Window v"
    and tr: "trim_window i w b = Inr b'" and dr: "amount_to_drop j w b' = Inr k"
    and xs: "xs = us @ ws" "ws \<noteq> []" "hd ws = w"
  shows "bar_shape n (nodes b') (working_set b') us (add_mset (Trimmed w k ws) A)"
    and "b' = b\<lparr>working_set := working_set b', nodes := nodes b'\<rparr>"
    and "\<And>x. x \<in># mset xs + held_entries A \<Longrightarrow> bwake (nodes b') x = bwake (nodes b) x"
    and "\<And>x. x \<in># mset ws \<Longrightarrow> wnode (nodes b') x" and "int (length ws) = n"
proof -
  obtain ws' where ws: "ws = w # ws'" using xs by (cases ws) auto
  have bs: "bset (nodes b) (working_set b) (us @ w # ws')" using bar_shape_bset [OF sh] xs ws by simp
  have o: "owned (nodes b) (mset (us @ w # ws') + held_entries A)" using sh xs ws by (simp add: bar_shape_def)
  obtain us2 ws2 where 2: "xs = us2 @ w # ws2" "int (length (w # ws2)) = n" using sh by (auto simp: bar_shape_def)
  have "distinct (us @ w # ws')" using bs unfolding bset_def using chain_distinct by blast
  then have "us2 = us" "ws2 = ws'" using 2(1) xs(1) ws append_Cons_eq_iff [of w us ws' us2 ws2] by auto
  then show len: "int (length ws) = n" using 2(2) ws by simp
  obtain b1 where b1: "trim_window (max i (length us)) w b = Inr b1"
    "b1 = b\<lparr>working_set := working_set b1, nodes := nodes b1\<rparr>" "bset (nodes b1) (working_set b1) us"
    "bset (nodes b1) w (w # ws')" "\<forall>x \<in> set (w # ws'). node_at (nodes b1) x = node_at (nodes b) x"
    using trim_window_eq [OF bs, of "max i (length us)"] by auto
  have eq: "b1 = b'" using trim_window_mono [OF tr, of "max i (length us)"] b1(1) by simp
  show "b' = b\<lparr>working_set := working_set b', nodes := nodes b'\<rparr>" using b1(2) eq by simp
  have h': "nodes b' = (if us = [] then nodes b else set_next (last us) 0 (nodes b))"
    by (rule trim_window_nodes [OF bs tr])
  have keep: "wnode (nodes b') x \<and> bwake (nodes b') x = bwake (nodes b) x" if "x \<in># mset xs + held_entries A" for x
  proof -
    have x: "wnode (nodes b) x" using o that xs ws by (auto simp: owned_def)
    show ?thesis
    proof (cases "us = []")
      case False
      then have "wnode (nodes b) (last us)" using o by (auto simp: owned_def)
      from set_next_keeps [OF this x, of 0] h' False show ?thesis by simp
    qed (use h' x in simp)
  qed
  then show "\<And>x. x \<in># mset xs + held_entries A \<Longrightarrow> bwake (nodes b') x = bwake (nodes b) x"
    and wn: "\<And>x. x \<in># mset ws \<Longrightarrow> wnode (nodes b') x" using xs by auto
  have same: "node_at (nodes b') x = node_at (nodes b) x" if hx: "x \<in># held_entries A" for x
  proof (cases "us = []")
    case False
    then have "mset (butlast us @ [last us]) = mset us" by simp
    then have "mset us = add_mset (last us) (mset (butlast us))" by simp
    then obtain M where M: "mset (us @ w # ws') + held_entries A = add_mset (last us) M" "x \<in># M"
      using hx by auto
    show ?thesis using owned_upd_other(2) [OF o [unfolded M(1)] M(2), of 0] h' False by simp
  qed (use h' in simp)
  have ag: "agent_ok n (nodes b') us g" if g: "g \<in># A" for g
  proof -
    have "agent_ok n (nodes b) xs g" using sh g by (simp add: bar_shape_def)
    then have "agent_ok n (nodes b) us g" by (rule agent_ok_other [OF nw [OF g]])
    moreover have "agent_ok n (nodes b') us g = agent_ok n (nodes b) us g"
      by (rule agent_ok_cong) (rule same [OF entries_held [OF g]])
    ultimately show ?thesis by simp
  qed
  have "amount_to_drop (max j (length ws)) w b' =
      Inr (int (length (filter (\<lambda>x. is_drop (the (node_at (nodes b') x))) ws)))"
    using b1(4) eq ws by (intro amount_to_drop_eq) simp_all
  moreover have "filter (\<lambda>x. is_drop (the (node_at (nodes b') x))) ws = []"
    using wn wnode_not_drop by (auto simp: filter_empty_conv)
  ultimately have k: "k = 0" using amount_to_drop_mono [OF dr, of "max j (length ws)"] by simp
  have "owned (nodes b') (mset (us @ w # ws') + held_entries A)"
    using o keep xs ws by (simp add: owned_def)
  then show "bar_shape n (nodes b') (working_set b') us (add_mset (Trimmed w k ws) A)"
    using b1(3,4) eq ag k len ws by (simp add: bar_shape_def bset_def add.assoc)
qed

lemma bar_shape_resume:
  assumes sh: "bar_shape n h p xs (add_mset (Resuming a c ws) A)" and a: "a \<noteq> 0" and nd: "node_at h a = Some nd"
  shows "bar_shape n (h(base a := None)) p xs (add_mset (Resuming (node_next nd) c (tl ws)) A)"
    and "ws = a # tl ws" and "wake_list nd = [bwake h a]"
    and "\<And>x. x \<in># mset xs + held_entries (add_mset (Resuming (node_next nd) c (tl ws)) A) \<Longrightarrow>
      node_at (h(base a := None)) x = node_at h x"
proof -
  let ?A = "add_mset (Resuming (node_next nd) c (tl ws)) A"
  have ch: "chain (bnext h) a ws 0" using sh by (simp add: bar_shape_def)
  with a obtain ws' where ws: "ws = a # ws'" by (cases ws) auto
  then show "ws = a # tl ws" by simp
  have o: "owned h (add_mset a (mset xs + held_entries ?A))" using sh ws by (simp add: bar_shape_def)
  then have wa: "wnode h a" by simp
  then show "wake_list nd = [bwake h a]" using wnode_wakes [OF wa] nd by simp
  have ba: "base a = a" using wa by (rule wnode_base)
  show other: "\<And>x. x \<in># mset xs + held_entries ?A \<Longrightarrow> node_at (h(base a := None)) x = node_at h x"
    using owned_upd_other(1) [OF o] ba by simp
  have "bar_shape n h p xs ?A" using sh ch ws nd o by (auto simp: bar_shape_def)
  then show "bar_shape n (h(base a := None)) p xs ?A" using bar_shape_cong [of xs ?A, OF other] by blast
qed


subsection \<open>Every step keeps the invariant\<close>

lemma bar_invD:
  assumes "bar_inv n s"
  shows "bar_shape n (nodes (v_bar s)) (working_set (v_bar s)) (v_set s) (v_agents s)"
    "bar_history n s" "bar_numbers n s" "expected (v_bar s) = n"
  using assms by (simp_all add: bar_inv_def bar_numbers_def Let_def)

text \<open>Changes of agents that hold the same entries.\<close>

lemma bar_history_frame:
  assumes "bar_history n s" and "v_arrived t = v_arrived s" "v_windows t = v_windows s" "v_resumed t = v_resumed s"
    "v_set t = v_set s" "window_entries (v_agents t) = window_entries (v_agents s)"
    "int (v_completions t) + agents_with (\<lambda>g. \<not> ran g) (v_agents t) =
     int (v_completions s) + agents_with (\<lambda>g. \<not> ran g) (v_agents s)"
    "\<And>x. x \<in># mset (v_set s) + held_entries (v_agents s) \<Longrightarrow> bwake (nodes (v_bar t)) x = bwake (nodes (v_bar s)) x"
  shows "bar_history n t"
proof -
  have "map (bwake (nodes (v_bar t))) (rev (v_set s)) = map (bwake (nodes (v_bar s))) (rev (v_set s))"
    using assms(8) by auto
  moreover have "image_mset (bwake (nodes (v_bar t))) (window_entries (v_agents s)) =
      image_mset (bwake (nodes (v_bar s))) (window_entries (v_agents s))"
    using assms(8) window_held by (intro image_mset_cong) auto
  ultimately show ?thesis using assms(1-7) by (simp add: bar_history_def Let_def)
qed

lemma bar_inv_arrive:
  assumes inv: "bar_inv n s" and b: "v_bar s = b" and a: "nodes b a = None" "a \<noteq> 0" "a AND kFlagMask = 0"
  shows "bar_inv n (s\<lparr>v_bar := b\<lparr>bar_count := bar_count b - 1, nodes := (nodes b)(a \<mapsto> Waiter_node 0 co th)\<rparr>,
          v_agents := add_mset (Arrived a (bar_count b = 1)) (v_agents s)\<rparr>)" (is "bar_inv n ?t")
proof -
  note I = bar_invD [OF inv]
  have o: "owned (nodes b) (mset (v_set s) + held_entries (v_agents s))" using I(1) b by (simp add: bar_shape_def)
  have "bwake (nodes (v_bar ?t)) x = bwake (nodes (v_bar s)) x" if "x \<in># mset (v_set s) + held_entries (v_agents s)" for x
    using fresh_upd(2) [OF o a(1,3) that] b by (intro bwake_cong) simp
  then have "bar_history n ?t" using I(2) by (intro bar_history_frame [OF I(2)]) auto
  moreover have "bar_numbers n ?t" using I(3) b by (auto simp: bar_numbers_def Let_def)
  ultimately show ?thesis using bar_shape_arrive [OF I(1)] a b by (simp add: bar_inv_def)
qed

lemma bar_inv_retry:
  assumes inv: "bar_inv n s" and ag: "v_agents s = add_mset (Adding p q f) A" and b: "v_bar s = b"
  shows "bar_inv n (s\<lparr>v_bar := b\<lparr>nodes := set_next p q (nodes b)\<rparr>,
          v_agents := add_mset (Adding p q' f) A\<rparr>)" (is "bar_inv n ?t")
proof -
  note I = bar_invD [OF inv]
  have sh: "bar_shape n (nodes b) (working_set b) (v_set s) (add_mset (Adding p q f) A)" using I(1) ag b by simp
  note own = bar_shape_own [OF sh entries.simps(2)]
  have "bwake (nodes (v_bar ?t)) x = bwake (nodes (v_bar s)) x" if "x \<in># mset (v_set s) + held_entries (v_agents s)" for x
  proof -
    have "wnode (nodes b) x" using own(4) that ag by (auto simp: owned_def)
    then show ?thesis using set_next_keeps(2) [OF own(2)] b by simp
  qed
  then have "bar_history n ?t" by (intro bar_history_frame [OF I(2)]) (auto simp: ag)
  moreover have "bar_numbers n ?t" using I(3) b ag by (simp add: bar_numbers_def Let_def)
  ultimately show ?thesis using bar_shape_retry [OF sh] by (simp add: bar_inv_def)
qed

lemma bar_inv_push:
  assumes inv: "bar_inv n s" and ag: "v_agents s = add_mset (Adding p q f) A" and b: "v_bar s = b" "working_set b = q"
    and nd: "node_at (nodes b) p = Some nd"
  shows "bar_inv n (s\<lparr>v_bar := b\<lparr>nodes := set_next p q (nodes b), working_set := p\<rparr>,
          v_agents := (if f then add_mset Completing A else A), v_set := p # v_set s,
          v_arrived := v_arrived s @ wake_list nd\<rparr>)" (is "bar_inv n ?t")
proof -
  note I = bar_invD [OF inv]
  let ?h = "set_next p q (nodes b)"
  have sh: "bar_shape n (nodes b) (working_set b) (v_set s) (add_mset (Adding p q f) A)" using I(1) ag b by simp
  note own = bar_shape_own [OF sh entries.simps(2)]
  have "wake_list nd = [bwake (nodes b) p]" using wnode_wakes [OF own(2)] nd by simp
  moreover have "bwake ?h p = bwake (nodes b) p" by (rule bwake_set_next [OF own(2)])
  moreover note wakes_cong [of "v_set s" A, OF owned_upd_other(2) [OF own(4)]]
  moreover have "window_entries (if f then add_mset Completing A else A) = window_entries A"
    "agents_with (\<lambda>g. \<not> ran g) (if f then add_mset Completing A else A) = agents_with (\<lambda>g. \<not> ran g) A" by simp_all
  ultimately have "bar_history n ?t" using I(2) ag b(1) by (simp add: bar_history_def Let_def)
  moreover have "bar_numbers n ?t" using I(3) b(1) ag by (auto simp: bar_numbers_def Let_def)
  moreover have "bar_shape n ?h p (p # v_set s) (if f then add_mset Completing A else A)"
    using bar_shape_push [OF sh] b(2) by (simp add: bar_shape_def)
  ultimately show ?thesis by (simp add: bar_inv_def)
qed

lemma bar_inv_trim:
  assumes inv: "bar_inv n s" and ag: "v_agents s = add_mset (Window w) A"
    and tr: "trim_window i w (v_bar s) = Inr b" and dr: "amount_to_drop j w b = Inr k"
    and xs: "v_set s = us @ ws" "ws \<noteq> []" "hd ws = w"
  shows "bar_inv n (s\<lparr>v_bar := b, v_agents := add_mset (Trimmed w k ws) A, v_set := us,
          v_windows := v_windows s @ [window_wakes (nodes b) ws]\<rparr>)" (is "bar_inv n ?t")
proof -
  note I = bar_invD [OF inv]
  have "agents_with (busy n) A = 0"
    using I(3) ag agents_with_nonneg [of "busy n" A]
    by (simp add: bar_numbers_def Let_def split: if_splits)
  then have nw: "g \<noteq> Window v" if "g \<in># A" for g v using no_agents [OF _ that] by fastforce
  have sh: "bar_shape n (nodes (v_bar s)) (working_set (v_bar s)) (v_set s) (add_mset (Window w) A)" using I(1) ag by simp
  note t = bar_shape_trim [OF sh nw tr dr xs]
  have f: "expected b = expected (v_bar s)" "bar_count b = bar_count (v_bar s)" 
    using arg_cong [OF t(2), of expected] arg_cong [OF t(2), of bar_count] by simp_all
  have ww: "window_wakes (nodes b) ws = map (bwake (nodes b)) ws"
    using t(4) by (intro window_wakes_map) simp
  have "map (bwake (nodes b)) (rev (v_set s)) = map (bwake (nodes (v_bar s))) (rev (v_set s))" using t(3) by auto
  moreover have "image_mset (bwake (nodes b)) (window_entries A) = image_mset (bwake (nodes (v_bar s))) (window_entries A)"
    using t(3) window_held by (intro image_mset_cong) auto
  ultimately have "bar_history n ?t"
    using I(2) t(5) ww by (simp add: bar_history_def Let_def ag xs(1) rev_map)
  moreover have "bar_numbers n ?t" using I(3) f t(5) xs(1) ag by (simp add: bar_numbers_def Let_def algebra_simps)
  ultimately show ?thesis using t(1) by (simp add: bar_inv_def)
qed

lemma bar_inv_resume:
  assumes inv: "bar_inv n s" and ag: "v_agents s = add_mset (Resuming p c ws) A" and p: "p \<noteq> 0" and b: "v_bar s = b"
    and nd: "node_at (nodes b) p = Some nd"
  shows "bar_inv n (s\<lparr>v_bar := b\<lparr>nodes := (nodes b)(base p := None)\<rparr>,
          v_agents := add_mset (Resuming (node_next nd) c (tl ws)) A, v_resumed := v_resumed s @ wake_list nd\<rparr>)"
    (is "bar_inv n ?t")
proof -
  note I = bar_invD [OF inv]
  have sh: "bar_shape n (nodes b) (working_set b) (v_set s) (add_mset (Resuming p c ws) A)" using I(1) ag b by simp
  note r = bar_shape_resume [OF sh p nd]
  have we: "window_entries (v_agents s) = add_mset p (window_entries (add_mset (Resuming (node_next nd) c (tl ws)) A))"
    using r(2) ag by (metis (no_types) arriving.simps(7) entries.simps(5) mset.simps(2) union_mset_add_mset_left window_entries_simps(2))
  note wakes_cong [of "v_set s" "add_mset (Resuming (node_next nd) c (tl ws)) A", OF r(4)]
  then have "bar_history n ?t" using I(2) r(3) b we by (simp add: bar_history_def Let_def ag)
  moreover have "bar_numbers n ?t" using I(3) b ag by (simp add: bar_numbers_def Let_def)
  ultimately show ?thesis using r(1) by (simp add: bar_inv_def)
qed


lemma bar_step_inv:
  assumes "bar_step False s t" and "bar_inv n s" and n: "1 \<le> n"
  shows "bar_inv n t"
  using assms
proof (induction rule: bar_step.induct)
  case (bar_arrive s b a co th)
  then show ?case by (intro bar_inv_arrive)
next
  case (bar_load s p f A)
  note I = bar_invD [OF bar_load(2)]
  have "bar_history n (s\<lparr>v_agents := add_mset (Adding p (working_set (v_bar s)) f) A\<rparr>)"
    by (rule bar_history_frame [OF I(2)]) (simp_all add: bar_load(1))
  then show ?case using I(1,3) bar_load(1) by (simp add: bar_inv_def bar_shape_def bar_numbers_def Let_def)
next
  case (bar_push s p previous f A b nd)
  then show ?case by (intro bar_inv_push)
next
  case (bar_push_retry s p previous f A b)
  then show ?case by (intro bar_inv_retry)
next
  case (bar_scan s A i w)
  note I = bar_invD [OF bar_scan(3)]
  let ?t = "s\<lparr>v_agents := add_mset (if w = 0 then Completing else Window w) A\<rparr>"
  have "bar_history n ?t" by (rule bar_history_frame [OF I(2)]) (simp_all add: bar_scan(1))
  moreover have "agent_ok n (nodes (v_bar s)) (v_set s) (if w = 0 then Completing else Window w)"
    using window_found [OF bar_shape_bset [OF I(1)] _ bar_scan(2)] I(4) n by (auto split: if_splits)
  ultimately show ?case using I(1,3) bar_scan(1) by (simp add: bar_inv_def bar_shape_def bar_numbers_def Let_def)
next
  case (bar_trim s w A i b j k us ws)
  then show ?case by (intro bar_inv_trim)
next
  case (bar_reduce s w k ws A b)
  note I = bar_invD [OF bar_reduce(3)]
  let ?t = "s\<lparr>v_bar := b\<lparr>expected := expected b - k\<rparr>, v_agents := add_mset (Reduced w ws) A,
          v_completions := Suc (v_completions s)\<rparr>"
  have "bar_history n ?t" by (rule bar_history_frame [OF I(2)]) (simp_all add: bar_reduce(1,2))
  moreover have "k = 0" using I(1) bar_reduce(1) by (simp add: bar_shape_def)
  then have "bar_numbers n ?t" using I(3) bar_reduce(1,2) by (simp add: bar_numbers_def Let_def)
  ultimately show ?case using I(1) bar_reduce(1,2) by (simp add: bar_inv_def bar_shape_def)
next
  case (bar_add s w ws A b)
  note I = bar_invD [OF bar_add(3)]
  let ?t = "s\<lparr>v_bar := b\<lparr>bar_count := bar_count b + expected b\<rparr>,
      v_agents := add_mset (Resuming w (bar_count b) ws) A\<rparr>"
  have "bar_history n ?t" by (rule bar_history_frame [OF I(2)]) (simp_all add: bar_add(1,2))
  moreover have "bar_numbers n ?t"
    using I(3) bar_add(1,2) agents_with_nonneg [of "busy n" A]
    by (auto simp: bar_numbers_def Let_def algebra_simps split: if_splits)
  ultimately show ?case using I(1) bar_add(1,2) by (simp add: bar_inv_def bar_shape_def)
next
  case (bar_resume s p c ws A b nd)
  then show ?case by (intro bar_inv_resume)
next
  case (bar_check s c ws A)
  note I = bar_invD [OF bar_check(2)]
  let ?t = "s\<lparr>v_agents := (if c \<le> - expected (v_bar s) then add_mset Completing A else A)\<rparr>"
  have ws: "ws = []" using I(1) bar_check(1) by (simp add: bar_shape_def)
  then have "bar_history n ?t" by (intro bar_history_frame [OF I(2)]) (simp_all add: bar_check(1))
  moreover have "bar_numbers n ?t" using I(3) bar_check(1) by (simp add: bar_numbers_def Let_def split: if_splits)
  ultimately show ?case using I(1) bar_check(1) ws by (simp add: bar_inv_def bar_shape_def)
qed simp

lemma bar_steps_inv:
  assumes "(bar_step False)\<^sup>*\<^sup>* s t" and "bar_inv n s" and "1 \<le> n"
  shows "bar_inv n t"
  using assms by (induction rule: rtranclp_induct) (auto intro: bar_step_inv)

lemma bar_init_inv: "1 \<le> n \<Longrightarrow> bar_inv n (bar_init e th n)"
  by (simp add: bar_inv_def bar_init_def make_barrier_def bar_shape_def bar_history_def bar_numbers_def owned_def)

lemma bar_reachable_inv [zab_inv]: "bar_reachable False n s \<Longrightarrow> 1 \<le> n \<Longrightarrow> bar_inv n s"
  unfolding bar_reachable_def using bar_steps_inv bar_init_inv by blast


section \<open>Progress\<close>

text \<open>The work that is left when nobody else arrives.\<close>

fun bar_rank :: "bar_agent \<Rightarrow> nat" where
  "bar_rank (Arrived _ _) = 30"
| "bar_rank (Adding _ _ _) = 29"
| "bar_rank Completing = 6"
| "bar_rank (Window _) = 5"
| "bar_rank (Trimmed _ _ ws) = 9 + length ws"
| "bar_rank (Reduced _ ws) = 8 + length ws"
| "bar_rank (Resuming _ _ ws) = 7 + length ws"

definition bar_work :: "bar_conc \<Rightarrow> nat" where
  "bar_work s = 20 * length (v_set s) + sum_mset (image_mset bar_rank (v_agents s))"

text \<open>How many have arrived, added or not.\<close>

definition arrivals :: "bar_conc \<Rightarrow> int" where
  "arrivals s = int (length (v_arrived s)) + agents_with arriving (v_agents s)"

definition advances :: "bar_conc \<Rightarrow> bar_conc \<Rightarrow> bool" where
  "advances s t \<longleftrightarrow> (bar_step False)\<^sup>*\<^sup>* s t \<and> arrivals t = arrivals s \<and> bar_work t < bar_work s"

lemma advance_step:
  "bar_step False s t \<Longrightarrow> arrivals t = arrivals s \<Longrightarrow> bar_work t < bar_work s \<Longrightarrow> \<exists>t. advances s t"
  unfolding advances_def by blast

lemma adding_advances:
  assumes inv: "bar_inv n s" and ag: "v_agents s = add_mset (Adding p q f) A"
  shows "\<exists>t. advances s t"
proof -
  let ?b = "v_bar s" let ?b1 = "?b\<lparr>nodes := set_next p q (nodes ?b)\<rparr>"
  let ?u = "s\<lparr>v_bar := ?b1, v_agents := add_mset (Adding p (working_set ?b) f) A\<rparr>"
  note I = bar_invD [OF inv]
  have w: "wnode (nodes ?b) p" using bar_shape_own(2) [OF I(1) [unfolded ag]] by simp
  have "wnode (nodes ?b1) p" using wnode_with_next [OF w] by simp
  then obtain nd where nd: "node_at (nodes ?b1) p = Some nd" "wake_list nd = [bwake (nodes ?b1) p]"
    using wnode_wakes by (metis option.sel wnode_def)
  have "bar_step False s ?u" by (rule bar_push_retry [OF ag refl])
  moreover obtain t where "bar_step False ?u t" and t: "v_agents t = (if f then add_mset Completing A else A)"
    "v_set t = p # v_set s" "v_arrived t = v_arrived s @ wake_list nd"
    using bar_push [of ?u p "working_set ?b" f A ?b1 nd False] nd(1) by force
  ultimately have "(bar_step False)\<^sup>*\<^sup>* s t" by (meson r_into_rtranclp rtranclp_trans)
  moreover have "arrivals t = arrivals s" "bar_work t < bar_work s"
    using t nd(2) ag by (simp_all add: arrivals_def bar_work_def)
  ultimately show ?thesis unfolding advances_def by blast
qed

lemma completing_advances:
  assumes inv: "bar_inv n s" and n: "1 \<le> n" and ag: "v_agents s = add_mset Completing A"
    and na: "agents_with arriving (v_agents s) = 0"
  shows "\<exists>t. advances s t"
proof -
  note I = bar_invD [OF inv]
  have c: "bar_count (v_bar s) \<le> 0" "agents_with (busy n) A = 0"
    using I(3) ag agents_with_nonneg [of "busy n" A] by (auto simp: bar_numbers_def Let_def split: if_splits)
  have "agents_with took A = 0"
  proof (rule ccontr)
    assume "agents_with took A \<noteq> 0"
    then have "filter_mset took A \<noteq> {#}" unfolding agents_with_def by force
    then obtain g where "g \<in># filter_mset took A" by (meson multiset_nonemptyE)
    then have "g \<in># A" "took g" by simp_all
    then have "busy n g" by (cases g) auto
    with no_agents [OF c(2) \<open>g \<in># A\<close>] show False by simp
  qed
  then have len: "n \<le> int (length (v_set s))"
    using I(3) c(1) na ag by (simp add: bar_numbers_def Let_def)
  let ?l = "length (v_set s)"
  have "window_scan ?l (v_bar s) = Inr (v_set s ! (?l - nat n))"
    using window_scan_eq [OF bar_shape_bset [OF I(1)], of ?l] I(4) n len by simp
  moreover from window_found [OF bar_shape_bset [OF I(1)] _ this] I(4) n len
  obtain us ws where "v_set s = us @ (v_set s ! (?l - nat n)) # ws" by auto
  then have "v_set s ! (?l - nat n) \<noteq> 0" using bset_nonzero [OF bar_shape_bset [OF I(1)]]
    by (metis in_set_conv_decomp)
  ultimately have "bar_step False s (s\<lparr>v_agents := add_mset (Window (v_set s ! (?l - nat n))) A\<rparr>)"
    using bar_scan [OF ag, of ?l "v_set s ! (?l - nat n)" False] by simp
  then show ?thesis by (rule advance_step) (simp_all add: arrivals_def bar_work_def ag)
qed

lemma window_advances:
  assumes inv: "bar_inv n s" and ag: "v_agents s = add_mset (Window w) A"
  shows "\<exists>t. advances s t"
proof -
  note I = bar_invD [OF inv]
  from I(1) ag obtain us ws where xs: "v_set s = us @ w # ws" by (auto simp: bar_shape_def)
  have bs: "bset (nodes (v_bar s)) (working_set (v_bar s)) (us @ w # ws)" using bar_shape_bset [OF I(1)] xs by simp
  from trim_window_eq [OF bs, of "length us"] obtain b where b: "trim_window (length us) w (v_bar s) = Inr b"
    "bset (nodes b) w (w # ws)" by auto
  obtain k where k: "amount_to_drop (length (w # ws)) w b = Inr k"
    using amount_to_drop_eq [OF b(2), of "length (w # ws)"] by simp
  show ?thesis
    by (rule advance_step [OF bar_trim [OF ag b(1) k xs]]) (simp_all add: arrivals_def bar_work_def ag xs)
qed

lemma resuming_advances:
  assumes inv: "bar_inv n s" and ag: "v_agents s = add_mset (Resuming p c ws) A"
  shows "\<exists>t. advances s t"
proof (cases "p = 0")
  case True
  show ?thesis
    by (rule advance_step [OF bar_check [OF ag [unfolded True]]]) (simp_all add: arrivals_def bar_work_def ag)
next
  case False
  have ch: "chain (bnext (nodes (v_bar s))) p ws 0" using bar_invD(1) [OF inv] ag by (simp add: bar_shape_def)
  with False obtain a ws' where ws: "ws = a # ws'" by (cases ws) auto
  from ch have "a = p" "\<exists>nd. node_at (nodes (v_bar s)) p = Some nd" unfolding ws chain_Cons by auto
  then obtain nd where nd: "node_at (nodes (v_bar s)) p = Some nd" "ws = p # ws'" using ws by blast
  show ?thesis
    by (rule advance_step [OF bar_resume [OF ag False refl nd(1)]]) (simp_all add: arrivals_def bar_work_def ag nd(2))
qed

lemma barrier_advances:
  assumes inv: "bar_inv n s" and n: "1 \<le> n" and ag: "v_agents s \<noteq> {#}"
  shows "\<exists>t. advances s t"
proof (cases "agents_with arriving (v_agents s) = 0")
  case True
  from ag obtain g A where g: "v_agents s = add_mset g A" by (metis multiset_cases)
  show ?thesis
  proof (cases g)
    case Completing
    then show ?thesis using completing_advances [OF inv n _ True] g by blast
  next
    case (Window w)
    then show ?thesis using window_advances [OF inv] g by blast
  next
    case (Trimmed w k ws)
    show ?thesis by (rule advance_step [OF bar_reduce [OF g [unfolded Trimmed] refl]])
        (simp_all add: arrivals_def bar_work_def g Trimmed)
  next
    case (Reduced w ws)
    show ?thesis by (rule advance_step [OF bar_add [OF g [unfolded Reduced] refl]])
        (simp_all add: arrivals_def bar_work_def g Reduced)
  next
    case (Resuming p c ws)
    then show ?thesis using resuming_advances [OF inv] g by blast
  qed (use True g agents_with_nonneg [of arriving A] in simp_all)
next
  case False
  then have "filter_mset arriving (v_agents s) \<noteq> {#}" unfolding agents_with_def by force
  then obtain g where "g \<in># filter_mset arriving (v_agents s)" by (meson multiset_nonemptyE)
  then obtain A where g: "v_agents s = add_mset g A" "arriving g" by (auto dest: multi_member_split)
  show ?thesis
  proof (cases g)
    case (Arrived p f)
    show ?thesis by (rule advance_step [OF bar_load [OF g(1) [unfolded Arrived]]])
        (simp_all add: arrivals_def bar_work_def g Arrived)
  next
    case (Adding p q f)
    then show ?thesis using adding_advances [OF inv] g by blast
  qed (use g(2) in simp_all)
qed

lemma barrier_settles:
  assumes "bar_inv n s" and "1 \<le> n"
  shows "\<exists>t. (bar_step False)\<^sup>*\<^sup>* s t \<and> arrivals t = arrivals s \<and> v_agents t = {#}"
  using assms
proof (induction "bar_work s" arbitrary: s rule: less_induct)
  case less
  show ?case
  proof (cases "v_agents s = {#}")
    case False
    from barrier_advances [OF less.prems this] obtain u where
      u: "(bar_step False)\<^sup>*\<^sup>* s u" "arrivals u = arrivals s" "bar_work u < bar_work s" by (auto simp: advances_def)
    from less.hyps [OF u(3) bar_steps_inv [OF u(1) less.prems] less.prems(2)] u show ?thesis
      by (metis rtranclp_trans)
  qed auto
qed


section \<open>A run with drops\<close>

lemma bar_reachable_step: "bar_reachable drops n s \<Longrightarrow> bar_step drops s t \<Longrightarrow> bar_reachable drops n t"
  unfolding bar_reachable_def by (meson rtranclp.rtrancl_into_rtrancl)

text \<open>Two parties can bring the barrier to these values of its members, its agents and its set.\<close>

definition reach :: "int \<Rightarrow> addr \<Rightarrow> int \<Rightarrow> (addr \<rightharpoonup> bnode) \<Rightarrow> bar_agent multiset \<Rightarrow> addr list \<Rightarrow> bool" where
  "reach ex w c h A xs \<longleftrightarrow> (\<exists>s. bar_reachable True 2 s \<and> expected (v_bar s) = ex \<and> working_set (v_bar s) = w \<and>
     bar_count (v_bar s) = c \<and> nodes (v_bar s) = h \<and> v_agents s = A \<and> v_set s = xs)"

lemma reachI:
  "bar_reachable True 2 s \<Longrightarrow> bar_step True s t \<Longrightarrow>
   expected (v_bar t) = ex \<and> working_set (v_bar t) = w \<and> bar_count (v_bar t) = c \<and> nodes (v_bar t) = h \<and>
   v_agents t = A \<and> v_set t = xs \<Longrightarrow> reach ex w c h A xs"
  unfolding reach_def using bar_reachable_step by blast

lemma reach_init: "reach 2 0 2 Map.empty {#} []"
proof -
  have "bar_reachable True 2 (bar_init e th 2)" for e th unfolding bar_reachable_def by blast
  then show ?thesis unfolding reach_def by (intro exI conjI) (auto simp: bar_init_def make_barrier_def)
qed

text \<open>An arrival with no other step in between, of a waiter and of a drop.\<close>

lemma reach_add:
  assumes "reach ex w c h (add_mset (Arrived p f) A) xs" and "node_at h p = Some nd"
  shows "reach ex p c (set_next p w h) (if f then add_mset Completing A else A) (p # xs)"
proof -
  from assms(1) obtain s where s: "bar_reachable True 2 s" "expected (v_bar s) = ex" "working_set (v_bar s) = w"
    "bar_count (v_bar s) = c" "nodes (v_bar s) = h" "v_agents s = add_mset (Arrived p f) A" "v_set s = xs"
    unfolding reach_def by blast
  let ?u = "s\<lparr>v_agents := add_mset (Adding p w f) A\<rparr>"
  have "bar_reachable True 2 ?u" using bar_reachable_step [OF s(1) bar_load [OF s(6)]] s(3) by simp
  moreover have "bar_step True ?u (?u\<lparr>v_bar := v_bar s\<lparr>nodes := set_next p w h, working_set := p\<rparr>,
      v_agents := (if f then add_mset Completing A else A), v_set := p # xs, v_arrived := v_arrived s @ wake_list nd\<rparr>)"
    using bar_push [of ?u p w f A "v_bar s" nd True] s assms(2) by simp
  ultimately show ?thesis by (rule reachI) (simp add: s)
qed

lemma reach_arrive:
  assumes "reach ex w c h A xs" and "h a = None" "a \<noteq> 0" "a AND kFlagMask = 0"
  shows "reach ex a (c - 1) (h(a \<mapsto> Waiter_node w a (Thread_t 0))) (if c = 1 then add_mset Completing A else A) (a # xs)"
proof -
  let ?h = "h(a \<mapsto> Waiter_node 0 a (Thread_t 0))"
  from assms(1) obtain s where s: "bar_reachable True 2 s" "expected (v_bar s) = ex" "working_set (v_bar s) = w"
    "bar_count (v_bar s) = c" "nodes (v_bar s) = h" "v_agents s = A" "v_set s = xs"
    unfolding reach_def by blast
  have "reach ex w (c - 1) ?h (add_mset (Arrived a (c = 1)) A) xs"
    by (rule reachI [OF s(1) bar_arrive [where s = s and b = "v_bar s" and a = a and co = a and th = "Thread_t 0"]]) (simp_all add: s assms)
  from reach_add [OF this] assms(4) have "reach ex a (c - 1) (set_next a w ?h) (if c = 1 then add_mset Completing A else A) (a # xs)"
    by (simp add: node_at_def)
  moreover have "set_next a w ?h = h(a \<mapsto> Waiter_node w a (Thread_t 0))"
    using aligned_base [OF assms(4)] by (simp add: set_next_def)
  ultimately show ?thesis by simp
qed

lemma reach_drop:
  assumes "reach ex w c h A xs" and "h a = None" "a \<noteq> 0" "a AND kFlagMask = 0"
    and "(a OR kDropFlag) AND kFlagMask = kDropFlag" "(a OR kDropFlag) AND kAddressMask = a"
  shows "reach ex (a OR kDropFlag) (c - 1) (h(a \<mapsto> Drop_node w)) (if c = 1 then add_mset Completing A else A)
    ((a OR kDropFlag) # xs)"
proof -
  let ?h = "h(a \<mapsto> Drop_node 0)" and ?p = "a OR kDropFlag"
  from assms(1) obtain s where s: "bar_reachable True 2 s" "expected (v_bar s) = ex" "working_set (v_bar s) = w"
    "bar_count (v_bar s) = c" "nodes (v_bar s) = h" "v_agents s = A" "v_set s = xs"
    unfolding reach_def by blast
  have "reach ex w (c - 1) ?h (add_mset (Arrived ?p (c = 1)) A) xs"
    by (rule reachI [OF s(1) bar_drop [of True s "v_bar s" a]]) (simp_all add: s assms)
  moreover have "node_at ?h ?p = Some (Drop_node 0)"
    using assms(5,6) by (simp add: node_at_def Let_def kDropFlag_def kTokenFlag_def)
  ultimately have "reach ex ?p (c - 1) (set_next ?p w ?h) (if c = 1 then add_mset Completing A else A) (?p # xs)"
    by (rule reach_add)
  moreover have "set_next ?p w ?h = h(a \<mapsto> Drop_node w)" using assms(6) by (simp add: set_next_def)
  ultimately show ?thesis by simp
qed

lemma reach_scan:
  assumes "reach ex w c h (add_mset Completing A) xs"
    and "iterate_linked_list n (\<lambda>_. h) (window_scan_step ex h w) w (0, 0) = Inr (k, p)" and "p \<noteq> 0"
  shows "reach ex w c h (add_mset (Window p) A) xs"
proof -
  from assms(1) obtain s where s: "bar_reachable True 2 s" "expected (v_bar s) = ex" "working_set (v_bar s) = w"
    "bar_count (v_bar s) = c" "nodes (v_bar s) = h" "v_agents s = add_mset Completing A" "v_set s = xs"
    unfolding reach_def by blast
  have "window_scan n (v_bar s) = Inr p" using assms(2) s by (simp add: window_scan_def)
  then show ?thesis by (rule reachI [OF s(1) bar_scan [OF s(6)]]) (simp add: s assms(3))
qed

lemma reach_trim:
  assumes "reach ex w c h (add_mset (Window p) A) (us @ p # ws)"
    and "\<And>b :: unit barrier. working_set b = w \<Longrightarrow> nodes b = h \<Longrightarrow>
      trim_window n p b = Inr (b\<lparr>working_set := w', nodes := h'\<rparr>)"
    and "\<And>b :: unit barrier. nodes b = h' \<Longrightarrow> amount_to_drop m p b = Inr k"
  shows "reach (ex - k) w' (c + (ex - k)) h' (add_mset (Resuming p c (p # ws)) A) us"
proof -
  from assms(1) obtain s where s: "bar_reachable True 2 s" "expected (v_bar s) = ex" "working_set (v_bar s) = w"
    "bar_count (v_bar s) = c" "nodes (v_bar s) = h" "v_agents s = add_mset (Window p) A" "v_set s = us @ p # ws"
    unfolding reach_def by blast
  let ?b = "v_bar s\<lparr>working_set := w', nodes := h'\<rparr>"
  let ?t = "s\<lparr>v_bar := ?b, v_agents := add_mset (Trimmed p k (p # ws)) A, v_set := us,
          v_windows := v_windows s @ [window_wakes (nodes ?b) (p # ws)]\<rparr>"
  let ?u = "?t\<lparr>v_bar := ?b\<lparr>expected := ex - k\<rparr>, v_agents := add_mset (Reduced p (p # ws)) A,
          v_completions := Suc (v_completions s)\<rparr>"
  have "trim_window n p (v_bar s) = Inr ?b" "amount_to_drop m p ?b = Inr k" using assms(2,3) s by simp_all
  then have "bar_step True s ?t" using s by (intro bar_trim) simp_all
  moreover have "bar_step True ?t ?u" using bar_reduce [of ?t p k "p # ws" A ?b True] s(2) by simp
  ultimately have "bar_reachable True 2 ?u" using bar_reachable_step [OF bar_reachable_step [OF s(1)]] by blast
  then show ?thesis by (rule reachI [OF _ bar_add [of ?u p "p # ws" A "v_bar ?u"]]) (simp_all add: s)
qed

lemma reach_resume:
  assumes "reach ex w c h (add_mset (Resuming p c' ws) A) xs" and "p \<noteq> 0" and "node_at h p = Some nd"
  shows "reach ex w c (h(base p := None)) (add_mset (Resuming (node_next nd) c' (tl ws)) A) xs"
proof -
  from assms(1) obtain s where s: "bar_reachable True 2 s" "expected (v_bar s) = ex" "working_set (v_bar s) = w"
    "bar_count (v_bar s) = c" "nodes (v_bar s) = h" "v_agents s = add_mset (Resuming p c' ws) A" "v_set s = xs"
    unfolding reach_def by blast
  show ?thesis
    by (rule reachI [OF s(1) bar_resume [OF s(6) assms(2) refl, of nd]]) (simp_all add: s assms(3))
qed

lemma reach_check:
  assumes "reach ex w c h (add_mset (Resuming 0 c' ws) A) xs" and "c' \<le> - ex"
  shows "reach ex w c h (add_mset Completing A) xs"
proof -
  from assms(1) obtain s where s: "bar_reachable True 2 s" "expected (v_bar s) = ex" "working_set (v_bar s) = w"
    "bar_count (v_bar s) = c" "nodes (v_bar s) = h" "v_agents s = add_mset (Resuming 0 c' ws) A" "v_set s = xs"
    unfolding reach_def by blast
  show ?thesis by (rule reachI [OF s(1) bar_check [OF s(6)]]) (simp add: s assms(2))
qed


text \<open>Five entries of memory.\<close>

definition mem :: "bnode option \<Rightarrow> bnode option \<Rightarrow> bnode option \<Rightarrow> bnode option \<Rightarrow> bnode option \<Rightarrow> addr \<Rightarrow> bnode option" where
  "mem v1 v2 v3 v4 v5 = (\<lambda>_. None)(16 := v1, 32 := v2, 48 := v3, 64 := v4, 80 := v5)"

lemma mem_simps [simp]:
  "mem v1 v2 v3 v4 v5 16 = v1" "mem v1 v2 v3 v4 v5 32 = v2" "mem v1 v2 v3 v4 v5 48 = v3" "mem v1 v2 v3 v4 v5 64 = v4"
  "mem v1 v2 v3 v4 v5 80 = v5"
  "(mem v1 v2 v3 v4 v5)(16 := v) = mem v v2 v3 v4 v5" "(mem v1 v2 v3 v4 v5)(32 := v) = mem v1 v v3 v4 v5"
  "(mem v1 v2 v3 v4 v5)(48 := v) = mem v1 v2 v v4 v5" "(mem v1 v2 v3 v4 v5)(64 := v) = mem v1 v2 v3 v v5"
  "(mem v1 v2 v3 v4 v5)(80 := v) = mem v1 v2 v3 v4 v"
  by (simp_all add: mem_def fun_eq_iff)

lemma mem_empty: "Map.empty = mem None None None None None"
  by (simp add: mem_def fun_eq_iff)

lemmas bar_words = kDropFlag_def kTokenFlag_def kFlagMask_def kAddressMask_def
lemmas bar_eval = bar_words node_at_def deref_def set_next_def window_scan_step_def get_next_def
  trim_window_def amount_to_drop_def is_drop_def

abbreviation waits :: "addr \<Rightarrow> addr \<Rightarrow> bnode option" where
  "waits a q \<equiv> Some (Waiter_node q a (Thread_t 0))"

text \<open>Two parties complete a phase, a third arrives early; while the first phase is being resumed, a drop
  completes the second.\<close>

lemma reach_first_phase:
  "reach 2 48 1 (mem (waits 16 0) (waits 32 16) (waits 48 0) None None) {#Resuming 32 (-1) [32, 16]#} [48]"
proof -
  have "reach 2 16 1 (mem (waits 16 0) None None None None) {#} [16]"
    using reach_arrive [OF reach_init [unfolded mem_empty], of 16] by (simp add: bar_words)
  from reach_arrive [OF this, of 32]
  have "reach 2 32 0 (mem (waits 16 0) (waits 32 16) None None None) {#Completing#} [32, 16]" by (simp add: bar_words)
  from reach_arrive [OF this, of 48]
  have "reach 2 48 (-1) (mem (waits 16 0) (waits 32 16) (waits 48 32) None None) {#Completing#} [48, 32, 16]"
    by (simp add: bar_words)
  from reach_scan [OF this, of "Suc (Suc (Suc 0))" 3 32]
  have "reach 2 48 (-1) (mem (waits 16 0) (waits 32 16) (waits 48 32) None None) {#Window 32#} ([48] @ 32 # [16])"
    by (simp add: bar_eval)
  from reach_trim [OF this, where n = "Suc 0" and w' = 48 and h' = "mem (waits 16 0) (waits 32 16) (waits 48 0) None None" and m = "Suc (Suc 0)" and k = 0]
  show ?thesis by (simp add: bar_eval)
qed

lemma reach_second_phase:
  "reach 1 0 1 (mem (waits 16 0) (waits 32 16) (waits 48 0) (Some (Drop_node 48)) None)
     {#Resuming 65 0 [65, 48], Resuming 32 (-1) [32, 16]#} []"
proof -
  have "reach 2 65 0 (mem (waits 16 0) (waits 32 16) (waits 48 0) (Some (Drop_node 48)) None)
      {#Completing, Resuming 32 (-1) [32, 16]#} [65, 48]"
    using reach_drop [OF reach_first_phase, of 64] by (simp add: bar_words)
  from reach_scan [OF this, of "Suc (Suc 0)" 2 65]
  have "reach 2 65 0 (mem (waits 16 0) (waits 32 16) (waits 48 0) (Some (Drop_node 48)) None)
      {#Window 65, Resuming 32 (-1) [32, 16]#} ([] @ 65 # [48])" by (simp add: bar_eval)
  from reach_trim [OF this, where n = 0 and w' = 0 and h' = "mem (waits 16 0) (waits 32 16) (waits 48 0) (Some (Drop_node 48)) None" and m = "Suc (Suc 0)" and k = 1]
  show ?thesis by (simp add: bar_eval)
qed

lemma reach_two_windows:
  "\<exists>h A xs. reach 1 80 0 h (add_mset (Window 80) (add_mset (Window 80) A)) xs"
proof -
  let ?A = "{#Resuming 65 0 [65, 48]#}"
  have "reach 1 0 1 (mem (waits 16 0) (waits 32 16) (waits 48 0) (Some (Drop_node 48)) None)
     (add_mset (Resuming 32 (-1) [32, 16]) ?A) []" using reach_second_phase by (simp add: add_mset_commute)
  from reach_resume [OF this] have
    "reach 1 0 1 (mem (waits 16 0) None (waits 48 0) (Some (Drop_node 48)) None) (add_mset (Resuming 16 (-1) [16]) ?A) []"
    by (simp add: bar_eval)
  from reach_resume [OF this] have
    "reach 1 0 1 (mem None None (waits 48 0) (Some (Drop_node 48)) None) (add_mset (Resuming 0 (-1) []) ?A) []"
    by (simp add: bar_eval)
  from reach_check [OF this] have
    "reach 1 0 1 (mem None None (waits 48 0) (Some (Drop_node 48)) None) (add_mset Completing ?A) []" by simp
  from reach_arrive [OF this, of 80] have
    "reach 1 80 0 (mem None None (waits 48 0) (Some (Drop_node 48)) (waits 80 0)) (add_mset Completing (add_mset Completing ?A)) [80]"
    by (simp add: bar_words)
  from reach_scan [OF this, of "Suc 0" 1 80] have
    "reach 1 80 0 (mem None None (waits 48 0) (Some (Drop_node 48)) (waits 80 0)) (add_mset Completing (add_mset (Window 80) ?A)) [80]"
    by (simp add: bar_eval add_mset_commute)
  from reach_scan [OF this, of "Suc 0" 1 80] show ?thesis by (auto simp: bar_eval)
qed

section \<open>Properties\<close>

text \<open>C16: However the threads interleave, as long as nobody drops: every phase takes exactly \<open>n\<close> arrivals,
  and the phases take them in the order in which they were added, the oldest first; each of them is resumed
  exactly once or still in the window of a coroutine that resumes it; at most one coroutine completes a phase or
  is going to; and the completion function has run once for each phase that was taken, except one that is about
  to run it.\<close>

theorem barrier_phases_exact:
  assumes "bar_reachable False n s" and "1 \<le> n"
  shows "(\<forall>w \<in> set (v_windows s). int (length w) = n) \<and>
     v_arrived s = concat (map rev (v_windows s)) @ map (bwake (nodes (v_bar s))) (rev (v_set s)) \<and>
     mset (concat (v_windows s)) =
       mset (v_resumed s) + image_mset (bwake (nodes (v_bar s))) (window_entries (v_agents s)) \<and>
     agents_with (busy n) (v_agents s) = (if bar_count (v_bar s) \<le> 0 then 1 else 0) \<and>
     int (v_completions s) = int (length (v_windows s)) - agents_with (\<lambda>g. \<not> ran g) (v_agents s)"
  using bar_invD [OF bar_reachable_inv [OF assms]] by (simp add: bar_history_def bar_numbers_def Let_def)

text \<open>C17: A barrier never leaves a full phase waiting: from any state that the threads can reach without drops,
  they can go on with no further arrival until none of them is inside the barrier, and then as many coroutines
  as fill whole phases have been resumed, each once, and fewer than \<open>n\<close> still wait.  In particular the loop of
  \<open>aquire_window\<close> always finds its window once the arrivals that it waits for are added.\<close>

theorem barrier_phase_completes:
  assumes "bar_reachable False n s" and "1 \<le> n"
  shows "\<exists>t. (bar_step False)\<^sup>*\<^sup>* s t \<and> v_agents t = {#} \<and> arrivals t = arrivals s \<and>
     mset (v_resumed t) = mset (concat (v_windows t)) \<and>
     int (length (v_resumed t)) = n * (arrivals s div n) \<and> int (length (v_set t)) = arrivals s mod n"
proof -
  note inv = bar_reachable_inv [OF assms]
  from barrier_settles [OF inv assms(2)] obtain t where
    t: "(bar_step False)\<^sup>*\<^sup>* s t" "arrivals t = arrivals s" "v_agents t = {#}" by blast
  note I = bar_invD [OF bar_steps_inv [OF t(1) inv assms(2)]]
  have r: "mset (v_resumed t) = mset (concat (v_windows t))"
    "v_arrived t = concat (map rev (v_windows t)) @ map (bwake (nodes (v_bar t))) (rev (v_set t))"
    "\<forall>w \<in> set (v_windows t). int (length w) = n"
    using I(2) t(3) by (simp_all add: bar_history_def Let_def)
  have cat: "int (length (concat ws)) = n * int (length ws)" "length (concat (map rev ws)) = length (concat ws)"
    if "\<forall>w \<in> set ws. int (length w) = n" for ws :: "(thread_t \<times> coro) list list"
    using that by (induction ws) (auto simp: algebra_simps)
  have len: "length (v_resumed t) = length (concat (v_windows t))" using r(1) by (metis size_mset)
  have "arrivals s = n * int (length (v_windows t)) + int (length (v_set t))"
    using t(2,3) r(2) cat [OF r(3)] by (simp add: arrivals_def flip: t(2))
  moreover have "int (length (v_set t)) < n"
    using I(3) t(3) by (simp add: bar_numbers_def Let_def split: if_splits)
  ultimately have "arrivals s div n = int (length (v_windows t))" "arrivals s mod n = int (length (v_set t))"
    using assms(2) by simp_all
  with t r(1) len cat(1) [OF r(3)] show ?thesis by auto
qed


section \<open>Witnesses\<close>

text \<open>A barrier for one party, at which a coroutine has arrived.\<close>

lemma demo_barrier_run:
  "\<exists>s. bar_reachable False 1 s \<and> v_agents s = {#Arrived 16 True#} \<and> v_arrived s = [] \<and> bar_count (v_bar s) = 0"
proof -
  have "bar_reachable False 1 (bar_init e th 1)" for e th unfolding bar_reachable_def by blast
  from bar_reachable_step [OF this bar_arrive [OF refl, of _ 16 32 False "Thread_t 0"]] show ?thesis
    by (fastforce simp: bar_init_def make_barrier_def bar_words)
qed

theorem barrier_phases_exact_witness:
  "\<exists>s. bar_reachable False 1 s \<and> agents_with (busy 1) (v_agents s) = 1 \<and> v_agents s = {#Arrived 16 True#}"
proof -
  from demo_barrier_run obtain s where s: "bar_reachable False 1 s" "v_agents s = {#Arrived 16 True#}"
    "bar_count (v_bar s) = 0" by blast
  with barrier_phases_exact [OF s(1)] show ?thesis by auto
qed

theorem barrier_phase_completes_witness:
  "\<exists>s t. bar_reachable False 1 s \<and> v_agents s = {#Arrived 16 True#} \<and> (bar_step False)\<^sup>*\<^sup>* s t \<and> length (v_resumed t) = 1"
proof -
  from demo_barrier_run obtain s where s: "bar_reachable False 1 s" "v_agents s = {#Arrived 16 True#}" "v_arrived s = []"
    by blast
  have "arrivals s = 1" using s by (simp add: arrivals_def)
  with barrier_phase_completes [OF s(1)] s show ?thesis by auto
qed

end
