(* ===== verification/Engine_Run.thy ===== *)
theory Engine_Run
  imports Signal_Handler
begin

text \<open>
  The life of an engine (\<open>src/engine.cpp\<close>): construction, \<open>start\<close> with what every worker thread does before
  its loop, the calls made while it runs, \<open>stop\<close>, and the end of \<open>start\<close>.  The engine lies in the
  \<open>signal_world\<close> of its signal handler.  What the workers do at the start touches only their own timer
  (and, for the first, the signal handler), so they are taken one after the other.

  \<open>eng_step\<close> is the engine at work: the workers execute their queues while any thread calls \<open>thread_resume\<close>.
  It is composed of the steps of the loops (\<open>us_step\<close>).  The sizes that \<open>get_any_thread\<close> reads may be
  out of date when it has read the last, so a call without a thread may choose any loop.
\<close>

section \<open>Access to a worker\<close>

definition get_event_loop :: "thread_t \<Rightarrow> engine \<Rightarrow> event_loop outcome" where
  "get_event_loop th e =
     (if unat (thread_id th) < length (loops e) then Inr (loops e ! unat (thread_id th)) else Inl Assertion_failed)"

definition get_timer :: "thread_t \<Rightarrow> engine \<Rightarrow> timer_service outcome" where
  "get_timer th e =
     (if unat (thread_id th) < length (timers e) then Inr (timers e ! unat (thread_id th)) else Inl Assertion_failed)"

section \<open>Starting and stopping\<close>

text \<open>A worker: the signal thread starts the coroutine that reads signals, which suspends with its
  \<open>io_event\<close> at \<open>ret\<close>; every worker creates the timer descriptor (\<open>create_rc\<close> is the answer).\<close>

definition worker_starts :: "addr \<Rightarrow> nat \<times> int \<Rightarrow> signal_handler \<times> signal_world \<Rightarrow> (signal_handler \<times> signal_world) outcome" where
  "worker_starts ret = (\<lambda>(i, create_rc) (h, w).
     let h1 = (if i = unat (thread_id kSignalThread)
               then (let (go, h0) = signal_run_start h w in if go then snd (signal_run_suspend ret h0) else h0)
               else h);
         e = sig_engine w
     in if i < length (timers e)
        then bind_outcome (run_start create_rc (timers e ! i))
               (\<lambda>t. Inr (h1, w\<lparr>sig_engine := e\<lparr>timers := (timers e)[i := t]\<rparr>\<rparr>))
        else Inl Bad_address)"

definition engine_start :: "int \<Rightarrow> addr \<Rightarrow> int list \<Rightarrow> signal_handler \<Rightarrow> signal_world \<Rightarrow> (signal_handler \<times> signal_world) outcome" where
  "engine_start settime ret rcs h w =
     fold_outcome (worker_starts ret) (zip [0..<unat (threads (engine_configs (sig_engine w)))] rcs)
       (h, w\<lparr>sig_engine := start_workers settime (sig_engine w)\<rparr>)"

text \<open>The rest of \<open>start\<close>, after the threads have been joined.\<close>

definition engine_joined :: "signal_world \<Rightarrow> signal_world" where
  "engine_joined w = w\<lparr>sig_engine := finish_workers (sig_engine w)\<rparr>"

definition engine_stop :: "int \<Rightarrow> signal_handler \<Rightarrow> signal_world \<Rightarrow> signal_handler \<times> signal_world" where
  "engine_stop write_rc h w =
     (let (h1, w1) = signal_stop write_rc h w
      in (h1, w1\<lparr>sig_engine := stop_workers (sig_engine w1)\<rparr>))"

text \<open>The calls of an engine; a turn of a timer whose read failed ends its coroutine and leaves the engine
  as it is.\<close>

datatype engine_call =
    Call_resume tagged_event thread_t
  | Call_delayed thread_t tagged_event order_t thread_t
  | Call_timer nat int u64 int itimerspec
  | Call_stop

fun engine_do :: "engine_call \<Rightarrow> engine \<Rightarrow> engine outcome" where
  "engine_do (Call_resume h th) e = thread_resume h th e"
| "engine_do (Call_delayed cur h ord th) e = delayed_resume cur h ord th e"
| "engine_do (Call_timer i rc buf grc spec) e =
     bind_outcome (timer_turn i rc buf grc spec e) (\<lambda>r. Inr (case r of None \<Rightarrow> e | Some e' \<Rightarrow> e'))"
| "engine_do Call_stop e = Inr (stop_workers e)"

section \<open>Well-formed engines\<close>

definition engine_wf :: "engine \<Rightarrow> bool" where
  "engine_wf e \<longleftrightarrow> loops e \<noteq> [] \<and> length (loops e) = unat (threads (engine_configs e)) \<and>
     length (timers e) = length (workers e) \<and> (timers e = [] \<or> length (timers e) = length (loops e)) \<and>
     (\<forall>l \<in> set (loops e). loop_size l = of_nat (length (write_handles l))) \<and>
     (\<forall>t \<in> set (timers e). timer_inv t)"

text \<open>A delay must not run past the end of the 64 bit clock.\<close>

fun call_ok :: "engine_call \<Rightarrow> engine \<Rightarrow> bool" where
  "call_ok (Call_delayed cur h ord th) e =
     (\<forall>t \<in> set (timers e). unat (current t) + unat (order_ns ord) < 2 ^ 64)"
| "call_ok _ e = True"

fun engine_calls :: "engine_call list \<Rightarrow> engine \<Rightarrow> engine outcome" where
  "engine_calls [] e = Inr e"
| "engine_calls (c # cs) e =
     (if call_ok c e then bind_outcome (engine_do c e) (engine_calls cs) else Inl Assertion_failed)"

lemma wf_dispatch:
  assumes "engine_wf e"
  shows "engine_wf (e\<lparr>loops := (loops e)[i := dispatch_user_event h (loops e ! i)]\<rparr>)"
proof (cases "i < length (loops e)")
  case True
  let ?l = "dispatch_user_event h (loops e ! i)"
  have "loop_size ?l = of_nat (length (write_handles ?l))" using assms True by (simp add: engine_wf_def)
  then show ?thesis using assms True
    by (auto simp: engine_wf_def dest: subsetD [OF set_update_subset_insert])
next
  case False
  then have "(loops e)[i := dispatch_user_event h (loops e ! i)] = loops e" by (simp add: list_update_beyond)
  then show ?thesis using assms by (auto simp: engine_wf_def)
qed

lemma wf_thread_resume: "thread_resume h th e = Inr e' \<Longrightarrow> engine_wf e \<Longrightarrow> engine_wf e'"
  by (auto simp: thread_resume_def Let_def intro: wf_dispatch split: if_splits)

lemma thread_resume_parts:
  "thread_resume h th e = Inr e' \<Longrightarrow> timers e' = timers e \<and> workers e' = workers e \<and>
     engine_configs e' = engine_configs e \<and> length (loops e') = length (loops e)"
  by (auto simp: thread_resume_def Let_def split: if_splits)

lemma wf_timer:
  assumes "engine_wf e" and "timer_inv t"
  shows "engine_wf (e\<lparr>timers := (timers e)[i := t]\<rparr>)"
  using assms by (auto simp: engine_wf_def dest: subsetD [OF set_update_subset_insert])

lemma wf_delayed_resume:
  assumes "delayed_resume cur h ord th e = Inr e'" and "engine_wf e" and "call_ok (Call_delayed cur h ord th) e"
  shows "engine_wf e'"
proof (cases "order_ns ord = 0")
  case True
  with assms show ?thesis by (auto simp: delayed_resume_def Let_def intro: wf_thread_resume)
next
  case False
  let ?i = "unat (thread_id cur)"
  from False assms(1) obtain t where t: "?i < length (timers e)"
    "wait cur h (order_ns ord) (resolve_thread th e) (timers e ! ?i) = Inr t" "e' = e\<lparr>timers := (timers e)[?i := t]\<rparr>"
    by (auto simp: delayed_resume_def Let_def split: if_splits)
  have "timers e ! ?i \<in> set (timers e)" using t(1) by simp
  then have "timer_inv (timers e ! ?i)" "unat (current (timers e ! ?i)) + unat (order_ns ord) < 2 ^ 64"
    using assms(2,3) by (auto simp: engine_wf_def)
  from wait_inv [OF this(1) False this(2) t(2)] show ?thesis using t(3) wf_timer [OF assms(2)] by simp
qed

lemma fold_resume_wf:
  assumes "fold_outcome (\<lambda>(h, th). thread_resume h th) ws e = Inr e'" and "engine_wf e"
  shows "engine_wf e' \<and> timers e' = timers e"
  using assms
proof (induction ws arbitrary: e)
  case (Cons w ws)
  obtain h th where w: "w = (h, th)" by force
  with Cons.prems obtain e1 where e1: "thread_resume h th e = Inr e1"
    "fold_outcome (\<lambda>(h, th). thread_resume h th) ws e1 = Inr e'" by auto
  with Cons.IH [OF e1(2) wf_thread_resume [OF e1(1) Cons.prems(2)]] thread_resume_parts [OF e1(1)] show ?case by simp
qed simp

lemma run_turn_engine:
  assumes "run_turn thread_resume rc buf grc spec t e = Inr (Some (t', e'))" and "timer_inv t"
  shows "timer_inv t'" and "engine_wf e \<Longrightarrow> engine_wf e' \<and> timers e' = timers e"
proof -
  have g: "buf = 0 \<or> 0 \<le> grc" using assms(1) by (auto simp: run_turn_def Let_def split: if_splits)
  from run_turn_inv [OF assms(2) g assms(1)] show "timer_inv t'" .
  assume e: "engine_wf e"
  have asc: "ascending (waiting t)" using assms(2) by (simp add: timer_inv_def)
  show "engine_wf e' \<and> timers e' = timers e"
  proof (cases "buf = 0")
    case True
    with assms(1) e show ?thesis by (auto simp: run_turn_def Let_def split: if_splits)
  next
    case False
    with assms(1) asc obtain ws where "fold_outcome (\<lambda>(h, th). thread_resume h th) ws e = Inr e'"
      by (auto simp: run_turn_def timerfd_settime_def change_timer_def Let_def expire_spec split: if_splits)
    then show ?thesis by (rule fold_resume_wf [OF _ e])
  qed
qed

lemma wf_timer_turn:
  assumes "timer_turn i rc buf grc spec e = Inr (Some e')" and "engine_wf e"
  shows "engine_wf e'"
proof -
  from assms(1) obtain t e1 where i: "i < length (timers e)"
    and r: "run_turn thread_resume rc buf grc spec (timers e ! i) e = Inr (Some (t, e1))"
    and e': "e' = e1\<lparr>timers := (timers e1)[i := t]\<rparr>" by (auto simp: timer_turn_def split: if_splits)
  have "timer_inv (timers e ! i)" using assms(2) i by (simp add: engine_wf_def)
  from run_turn_engine [OF r this] assms(2) have "timer_inv t" "engine_wf e1" by simp_all
  then show ?thesis unfolding e' by (intro wf_timer)
qed

lemma stop_loops_sizes:
  "\<forall>l \<in> set ls. loop_size l = of_nat (length (write_handles l)) \<Longrightarrow>
   \<forall>l \<in> set (stop_loops ws ls). loop_size l = of_nat (length (write_handles l))"
  by (induction ws ls rule: stop_loops.induct) (auto simp: wake_def)

lemma wf_stop_workers:
  assumes "engine_wf e"
  shows "engine_wf (stop_workers e)"
proof -
  have "stop_loops (workers e) (loops e) \<noteq> []"
    using assms length_stop_loops [of "workers e" "loops e"] by (auto simp: engine_wf_def simp flip: length_greater_0_conv)
  then show ?thesis using assms stop_loops_sizes [of "loops e" "workers e"]
    by (auto simp: engine_wf_def stop_workers_def)
qed

lemma wf_engine_do: "engine_do c e = Inr e' \<Longrightarrow> engine_wf e \<Longrightarrow> call_ok c e \<Longrightarrow> engine_wf e'"
  by (cases c) (auto intro: wf_thread_resume wf_delayed_resume wf_timer_turn wf_stop_workers split: option.splits)

lemma wf_engine_calls: "engine_calls cs e = Inr e' \<Longrightarrow> engine_wf e \<Longrightarrow> engine_wf e'"
  by (induction cs arbitrary: e) (auto split: if_splits intro: wf_engine_do)


subsection \<open>The life cycle\<close>

lemma wf_make_engine:
  assumes "make_engine cores c answers = Inr e" and "unat (threads (validate cores c)) \<le> length answers"
  shows "engine_wf e" and "timers e = []" and "engine_configs e = validate cores c"
proof -
  let ?n = "unat (threads (validate cores c))"
  have nz: "threads (validate cores c) \<noteq> 0" by (simp add: validate_threads Let_def)
  from assms obtain a rest l0 ls where r: "take ?n answers = a # rest"
    and l0: "(case a of (rc, ring, efd, wrc) \<Rightarrow> initialise rc ring efd wrc) = Inr l0"
    and ls: "map_outcome (\<lambda>(rc, ring, efd, wrc). initialise_shared (io_fd l0) rc ring efd wrc) rest = Inr ls"
    and e: "e = \<lparr>loops = l0 # ls, timers = [], workers = [], engine_configs = validate cores c\<rparr>"
    by (auto simp: make_engine_def Let_def split: list.splits)
  have "length (take ?n answers) = ?n" using assms(2) by simp
  then have len: "length (l0 # ls) = ?n" using r length_map_outcome [OF ls] by simp
  have empty: "initialise rc ring efd wrc = Inr l \<Longrightarrow> write_handles l = [] \<and> loop_size l = 0"
    "initialise_shared fd rc ring efd wrc = Inr l \<Longrightarrow> write_handles l = [] \<and> loop_size l = 0" for fd rc ring efd wrc l
    by (auto simp: initialise_def initialise_shared_def init_event_loop_def split: if_splits)
  have "write_handles (ls ! j) = [] \<and> loop_size (ls ! j) = 0" if "j < length ls" for j
    using map_outcome_nth [OF ls, of j] that length_map_outcome [OF ls] by (auto dest: empty(2) split: prod.splits)
  then have "\<forall>l \<in> set (l0 # ls). loop_size l = of_nat (length (write_handles l))"
    using l0 by (auto simp: in_set_conv_nth dest: empty(1) split: prod.splits)
  with len nz show "engine_wf e" "timers e = []" "engine_configs e = validate cores c" by (simp_all add: engine_wf_def e)
qed

lemma wf_start_workers:
  assumes "engine_wf e" and "timers e = []"
  shows "engine_wf (start_workers settime e)" and "length (timers (start_workers settime e)) = length (loops e)"
  using assms timer_inv_init by (auto simp: engine_wf_def start_workers_def Let_def)

lemma timer_inv_run_start: "run_start rc t = Inr t' \<Longrightarrow> timer_inv t \<Longrightarrow> timer_inv t'"
  by (auto simp: run_start_def timer_inv_def split: if_splits)

lemma wf_worker_starts:
  assumes "worker_starts ret (i, rc) (h, w) = Inr (h', w')" and "engine_wf (sig_engine w)"
  shows "engine_wf (sig_engine w')" and "length (timers (sig_engine w')) = length (timers (sig_engine w))"
proof -
  let ?e = "sig_engine w"
  from assms(1) obtain t where t: "i < length (timers ?e)" "run_start rc (timers ?e ! i) = Inr t"
    "sig_engine w' = ?e\<lparr>timers := (timers ?e)[i := t]\<rparr>" by (auto simp: worker_starts_def Let_def split: if_splits)
  have "timer_inv (timers ?e ! i)" using assms(2) t(1) by (simp add: engine_wf_def)
  then have "timer_inv t" by (rule timer_inv_run_start [OF t(2)])
  then show "engine_wf (sig_engine w')" "length (timers (sig_engine w')) = length (timers ?e)"
    using wf_timer [OF assms(2)] t(3) by simp_all
qed

lemma wf_workers_start:
  assumes "fold_outcome (worker_starts ret) xs (h, w) = Inr (h', w')" and "engine_wf (sig_engine w)"
  shows "engine_wf (sig_engine w') \<and> length (timers (sig_engine w')) = length (timers (sig_engine w))"
  using assms
proof (induction xs arbitrary: h w)
  case (Cons x xs)
  obtain i rc where x: "x = (i, rc)" by force
  with Cons.prems(1) obtain h1 w1 where 1: "worker_starts ret (i, rc) (h, w) = Inr (h1, w1)"
    "fold_outcome (worker_starts ret) xs (h1, w1) = Inr (h', w')" by auto
  from Cons.IH [OF 1(2)] wf_worker_starts [OF 1(1) Cons.prems(2)] show ?case by simp
qed simp

lemma wf_engine_start:
  assumes "engine_start settime ret rcs h w = Inr (h', w')" and "engine_wf (sig_engine w)" and "timers (sig_engine w) = []"
  shows "engine_wf (sig_engine w')" and "length (timers (sig_engine w')) = length (loops (sig_engine w))"
  using wf_workers_start [OF assms(1) [unfolded engine_start_def]] wf_start_workers [OF assms(2,3)] by simp_all

lemma engine_do_timers: "engine_do c e = Inr e' \<Longrightarrow> engine_wf e \<Longrightarrow> length (timers e') = length (timers e)"
proof (cases c)
  case (Call_timer i rc buf grc spec)
  assume "engine_do c e = Inr e'" and e: "engine_wf e"
  with Call_timer obtain r where r: "timer_turn i rc buf grc spec e = Inr r" "e' = (case r of None \<Rightarrow> e | Some e' \<Rightarrow> e')" by auto
  show ?thesis
  proof (cases r)
    case (Some e1)
    with r obtain t e2 where i: "i < length (timers e)"
      and t: "run_turn thread_resume rc buf grc spec (timers e ! i) e = Inr (Some (t, e2))"
      and e1: "e1 = e2\<lparr>timers := (timers e2)[i := t]\<rparr>" by (auto simp: timer_turn_def split: if_splits)
    have "timer_inv (timers e ! i)" using e i by (simp add: engine_wf_def)
    from run_turn_engine(2) [OF t this e] e1 r Some show ?thesis by simp
  qed (use r in simp)
qed (auto simp: delayed_resume_def stop_workers_def Let_def dest: thread_resume_parts split: if_splits)

lemma engine_calls_timers: "engine_calls cs e = Inr e' \<Longrightarrow> engine_wf e \<Longrightarrow> length (timers e') = length (timers e)"
  by (induction cs arbitrary: e) (auto split: if_splits, metis engine_do_timers wf_engine_do)


section \<open>The engine at work\<close>

text \<open>The workers, and the calls of \<open>thread_resume\<close> so far, each with the loop its event was queued on
  (auxiliary).\<close>

record eng_conc =
  ec_workers :: "us_state list"
  ec_calls :: "(nat \<times> tagged_event) list"

inductive eng_step :: "eng_conc \<Rightarrow> eng_conc \<Rightarrow> bool" where
  eng_resume: "i < length (ec_workers s) \<Longrightarrow> thread_id th = kAnyThread \<or> unat (thread_id th) = i \<Longrightarrow>
     dispatch_locked h (us_loop (ec_workers s ! i)) = (l, notify) \<Longrightarrow> u = ec_workers s ! i \<Longrightarrow>
     eng_step s (s\<lparr>ec_workers := (ec_workers s)[i := u\<lparr>us_loop := l, dispatched := dispatched u @ [h],
                     pending_notify := pending_notify u + (if notify then 1 else 0)\<rparr>],
                   ec_calls := ec_calls s @ [(i, h)]\<rparr>)"
| eng_work: "i < length (ec_workers s) \<Longrightarrow> us_step (ec_workers s ! i) u \<Longrightarrow>
     dispatched u = dispatched (ec_workers s ! i) \<Longrightarrow>
     eng_step s (s\<lparr>ec_workers := (ec_workers s)[i := u]\<rparr>)"

definition eng_init :: "engine \<Rightarrow> eng_conc" where
  "eng_init e = \<lparr>ec_workers = map us_init (loops e), ec_calls = []\<rparr>"

definition eng_reachable :: "engine \<Rightarrow> eng_conc \<Rightarrow> bool" where
  "eng_reachable e s \<longleftrightarrow> eng_step\<^sup>*\<^sup>* (eng_init e) s"

text \<open>What was queued on the loop \<open>i\<close>: before the start and by the calls.\<close>

definition handed :: "engine \<Rightarrow> eng_conc \<Rightarrow> nat \<Rightarrow> tagged_event list" where
  "handed e s i = write_handles (loops e ! i) @ map snd (filter (\<lambda>c. fst c = i) (ec_calls s))"

definition eng_inv :: "engine \<Rightarrow> eng_conc \<Rightarrow> bool" where
  "eng_inv e s \<longleftrightarrow> length (ec_workers s) = length (loops e) \<and>
     (\<forall>i < length (loops e). us_queue_inv (ec_workers s ! i) \<and> us_wake_inv (ec_workers s ! i) \<and>
        dispatched (ec_workers s ! i) = handed e s i)"

text \<open>An engine whose loops are idle and whose event descriptors accept writes.\<close>

definition idle :: "engine \<Rightarrow> bool" where
  "idle e \<longleftrightarrow> (\<forall>l \<in> set (loops e). loop_wf l \<and> efd_write_result l = 8)"

lemma eng_init_inv: "idle e \<Longrightarrow> eng_inv e (eng_init e)"
  by (auto simp: eng_inv_def eng_init_def idle_def handed_def us_wake_inv_def us_init_def
      intro!: us_init_inv [unfolded us_init_def])

lemma eng_step_inv: "eng_step s t \<Longrightarrow> eng_inv e s \<Longrightarrow> eng_inv e t"
proof (induction rule: eng_step.induct)
  case (eng_resume i s th h l notify u)
  let ?u = "u\<lparr>us_loop := l, dispatched := dispatched u @ [h], pending_notify := pending_notify u + (if notify then 1 else 0)\<rparr>"
  have "us_step u ?u" using us_dispatch [of h u l notify] eng_resume by simp
  moreover have "us_queue_inv u" "us_wake_inv u" using eng_resume by (auto simp: eng_inv_def)
  ultimately have "us_queue_inv ?u" "us_wake_inv ?u" by (auto intro: us_step_queue_inv us_step_wake_inv)
  with eng_resume show ?case by (auto simp: eng_inv_def handed_def nth_list_update)
next
  case (eng_work i s u)
  have "us_queue_inv (ec_workers s ! i)" "us_wake_inv (ec_workers s ! i)" using eng_work by (auto simp: eng_inv_def)
  then have "us_queue_inv u" "us_wake_inv u" using eng_work(2) by (auto intro: us_step_queue_inv us_step_wake_inv)
  with eng_work show ?case by (auto simp: eng_inv_def handed_def nth_list_update)
qed

lemma eng_reachable_inv [zab_inv]: "eng_reachable e s \<Longrightarrow> idle e \<Longrightarrow> eng_inv e s"
  unfolding eng_reachable_def
  by (induction rule: rtranclp_induct) (auto intro: eng_init_inv eng_step_inv)

text \<open>Steps of one worker are steps of the engine.\<close>

lemma us_steps_dispatched: "us_step\<^sup>*\<^sup>* u v \<Longrightarrow> \<exists>ys. dispatched v = dispatched u @ ys"
  by (induction rule: rtranclp_induct) (auto elim!: us_step.cases)

lemma worker_steps:
  assumes "us_step\<^sup>*\<^sup>* (ec_workers s ! i) v" and "dispatched v = dispatched (ec_workers s ! i)" and "i < length (ec_workers s)"
  shows "eng_step\<^sup>*\<^sup>* s (s\<lparr>ec_workers := (ec_workers s)[i := v]\<rparr>)"
  using assms
proof (induction rule: rtranclp_induct)
  case (step u v)
  from us_steps_dispatched [OF step.hyps(1)] step.hyps(2) have "dispatched u = dispatched (ec_workers s ! i)"
    using step.prems(1) us_steps_dispatched [of u v] by force
  with step have "eng_step\<^sup>*\<^sup>* s (s\<lparr>ec_workers := (ec_workers s)[i := u]\<rparr>)" by blast
  moreover have "eng_step (s\<lparr>ec_workers := (ec_workers s)[i := u]\<rparr>) (s\<lparr>ec_workers := (ec_workers s)[i := v]\<rparr>)"
    using eng_work [of i "s\<lparr>ec_workers := (ec_workers s)[i := u]\<rparr>" v] step.hyps(2) step.prems
      \<open>dispatched u = dispatched (ec_workers s ! i)\<close> by simp
  ultimately show ?case by simp
qed simp

lemma workers_drain:
  assumes "eng_inv e s" and "\<forall>u \<in> set (ec_workers s). us_pc u \<noteq> Us_done" and "k \<le> length (loops e)"
  shows "\<exists>t. eng_step\<^sup>*\<^sup>* s t \<and> ec_calls t = ec_calls s \<and> length (ec_workers t) = length (ec_workers s) \<and>
     (\<forall>i < k. ran (ec_workers t ! i) = handed e s i) \<and>
     (\<forall>i. k \<le> i \<and> i < length (loops e) \<longrightarrow> ec_workers t ! i = ec_workers s ! i)"
  using assms(3)
proof (induction k)
  case (Suc k)
  then obtain t where t: "eng_step\<^sup>*\<^sup>* s t" "ec_calls t = ec_calls s" "length (ec_workers t) = length (ec_workers s)"
     "\<forall>i < k. ran (ec_workers t ! i) = handed e s i"
     "\<forall>i. k \<le> i \<and> i < length (loops e) \<longrightarrow> ec_workers t ! i = ec_workers s ! i" by auto
  let ?u = "ec_workers s ! k"
  have k: "k < length (loops e)" "length (ec_workers s) = length (loops e)" using Suc.prems assms(1) by (auto simp: eng_inv_def)
  then have "us_queue_inv ?u" "us_wake_inv ?u" "dispatched ?u = handed e s k" "us_pc ?u \<noteq> Us_done"
    using assms(1,2) by (auto simp: eng_inv_def)
  with us_drain obtain v where v: "us_step\<^sup>*\<^sup>* ?u v" "dispatched v = dispatched ?u" "ran v = handed e s k" by metis
  have "eng_step\<^sup>*\<^sup>* t (t\<lparr>ec_workers := (ec_workers t)[k := v]\<rparr>)" using v t k by (intro worker_steps) simp_all
  then have "eng_step\<^sup>*\<^sup>* s (t\<lparr>ec_workers := (ec_workers t)[k := v]\<rparr>)" using t(1) by simp
  then show ?case using t v k
    by (intro exI [of _ "t\<lparr>ec_workers := (ec_workers t)[k := v]\<rparr>"]) (auto simp: nth_list_update less_Suc_eq)
qed (use assms(1) in auto)

section \<open>Properties\<close>

text \<open>C4: An engine keeps its type: constructed for any configuration, called before it is started, started,
  called while it runs (resuming, delaying, timers that expire, stopping), and ended, it always has one event
  loop per configured thread and at least one, a timer and a worker for each of them while it runs and none
  otherwise, the published size of every loop is the length of its queue, and every timer is armed for its first
  sleep mark, with its marks in order.  So every thread number below \<open>number_of_workers\<close> has a loop and, while
  the engine runs, a timer.\<close>

theorem engine_keeps_type:
  assumes "make_engine cores c answers = Inr e0" and "unat (threads (validate cores c)) \<le> length answers"
    and "engine_calls before e0 = Inr (sig_engine w)"
    and "engine_start settime ret rcs h w = Inr (h', w')"
    and "engine_calls while (sig_engine w') = Inr e"
  shows "engine_wf (sig_engine w) \<and> timers (sig_engine w) = [] \<and>
     engine_wf e \<and> length (timers e) = length (loops e) \<and>
     (\<forall>th. thread_id th < number_of_workers e \<longrightarrow>
        (\<exists>l t. get_event_loop th e = Inr l \<and> get_timer th e = Inr t \<and> timer_inv t)) \<and>
     engine_wf (finish_workers e) \<and> timers (finish_workers e) = []"
proof -
  note e0 = wf_make_engine [OF assms(1,2)]
  have w: "engine_wf (sig_engine w)" by (rule wf_engine_calls [OF assms(3) e0(1)])
  have tw: "timers (sig_engine w) = []" using engine_calls_timers [OF assms(3) e0(1)] e0(2) by simp
  note w' = wf_engine_start [OF assms(4) w tw]
  have e: "engine_wf e" by (rule wf_engine_calls [OF assms(5) w'(1)])
  have "length (timers e) = length (loops (sig_engine w))"
    using engine_calls_timers [OF assms(5) w'(1)] w'(2) by simp
  moreover have "loops (sig_engine w) \<noteq> []" using w by (simp add: engine_wf_def)
  ultimately have "timers e \<noteq> []" "length (timers e) = length (loops (sig_engine w))" by auto
  then have len: "length (timers e) = length (loops e)" using e by (auto simp: engine_wf_def)
  moreover have "unat (number_of_workers e) = length (loops e)"
    using e unsigned_less [of "threads (engine_configs e)"]
    by (simp add: engine_wf_def number_of_workers_def)
  ultimately have "\<exists>l t. get_event_loop th e = Inr l \<and> get_timer th e = Inr t \<and> timer_inv t"
    if "thread_id th < number_of_workers e" for th
    using that e by (simp add: get_event_loop_def get_timer_def word_less_nat_alt engine_wf_def)
  with len show ?thesis using w tw e by (simp add: engine_wf_def finish_workers_def)
qed



section \<open>Witnesses\<close>

definition demo_engine0 :: engine where
  "demo_engine0 = \<lparr>loops = [init_event_loop 1 None 5 8], timers = [], workers = [], engine_configs = default_configs\<rparr>"

theorem engine_keeps_type_witness:
  "\<exists>e. engine_wf e \<and> length (timers e) = 1 \<and> loops e \<noteq> []"
proof -
  let ?c = "Call_resume (Coroutine_alt 8) (Thread_t 0)"
  let ?e1 = "demo_engine0\<lparr>loops := [dispatch_user_event (Coroutine_alt 8) (init_event_loop 1 None 5 8)]\<rparr>"
  let ?w = "demo_signal_world\<lparr>sig_engine := ?e1\<rparr>"
  have v: "validate 1 default_configs = default_configs" by (simp add: validate_def default_configs_def)
  have 1: "make_engine 1 default_configs [(0, 1, 5, 8)] = Inr demo_engine0"
    by (simp add: make_engine_def v initialise_def demo_engine0_def) (simp add: default_configs_def initialise_def)
  have 2: "engine_calls [?c] demo_engine0 = Inr (sig_engine ?w)"
    by (simp add: thread_resume_def resolve_thread_def demo_engine0_def kAnyThread_def Let_def)
  obtain h' w' where 3: "engine_start 0 64 [7] demo_handler ?w = Inr (h', w')"
    by (simp add: engine_start_def demo_engine0_def default_configs_def start_workers_def worker_starts_def run_start_def
        init_timer_service_def Let_def split: prod.splits)
  have 4: "engine_calls [Call_stop] (sig_engine w') = Inr (stop_workers (sig_engine w'))" by simp
  have n: "unat (threads (validate 1 default_configs)) \<le> length [(0 :: int, 1 :: int, 5 :: int, 8 :: int)]"
    unfolding v by (simp add: default_configs_def)
  note r = engine_keeps_type [OF 1 n 2 3 4]
  have "length (loops (stop_workers (sig_engine w'))) = 1"
    using 3 by (simp add: engine_start_def demo_engine0_def default_configs_def start_workers_def worker_starts_def
        run_start_def init_timer_service_def stop_workers_def Let_def split: prod.splits) auto
  with r show ?thesis by (intro exI [of _ "stop_workers (sig_engine w')"]) auto
qed


end
