(* ===== verification/Echo_Server.thy ===== *)
theory Echo_Server
  imports Engine_Enabled Tcp_Networking Async_File Async_Mutex Engine_Run
begin

text \<open>
  The two programs under \<open>example/\<close>: \<open>echo_server.cpp\<close> and \<open>logging_echo_server.cpp\<close>, composed of the
  components that they use: a class on the engine, an acceptor, streams, a signal function, and for the
  second a mutex, a set of streams and a log file.

  A coroutine is a function of what the kernel answers to its requests, in order; when the answers run out it
  is suspended, and the result says where.  A submission entry is free at every request.  \<open>co\<close> is the handle
  of the coroutine, the addresses of the \<open>io_event\<close>s in its frame are arguments (\<open>rd\<close> of its reads, \<open>wctx\<close>
  of its writes).  What is printed is left out; the coroutines that print are there.
\<close>

section \<open>The server\<close>

definition SIGINT :: int where "SIGINT = 2"

definition echo_class :: base_class where
  "echo_class = base_defaults\<lparr>kDefaultThread := Thread_t 0, has_initialise := True\<rparr>"

record echo_server =
  es_enabled :: engine_enabled
  es_acceptor :: network_operation
  es_port :: u16

definition make_echo_server ::
    "thread_t \<Rightarrow> coro \<Rightarrow> coro \<Rightarrow> addr \<Rightarrow> u16 \<Rightarrow> engine \<Rightarrow> (echo_server \<times> engine) outcome" where
  "make_echo_server cur fi fm eng p e =
     bind_outcome (Engine_Enabled.register_engine echo_class cur fi fm eng \<lparr>ee_engine = null\<rparr> e) (\<lambda>(_, ee, e').
       Inr (\<lparr>es_enabled = ee, es_acceptor = make_tcp_acceptor eng, es_port = p\<rparr>, e'))"

text \<open>\<open>run_stream\<close> up to its first suspension: it takes the stream and yields to the thread that it is
  assigned to.\<close>

definition stream_thread :: "nat \<Rightarrow> engine \<Rightarrow> thread_t" where
  "stream_thread k e = Thread_t (of_nat (k mod unat (number_of_workers e)))"

definition run_stream_start :: "nat \<Rightarrow> coro \<Rightarrow> tcp_stream \<Rightarrow> engine \<Rightarrow> (tcp_stream \<times> engine) outcome" where
  "run_stream_start k co s e =
     (if number_of_workers e = 0 then Inl Division_by_zero
      else bind_outcome (enabled_yield_in (Coroutine_alt co) (stream_thread k e) e)
             (\<lambda>e'. Inr (fst (move_tcp_stream s), e')))"

text \<open>The loop of \<open>run_acceptor\<close> from an accept that was requested on: \<open>rs\<close> are the results of the accepts,
  each with the frame of the \<open>run_stream\<close> that it starts.  The connections are collected with their
  coroutines.  The bool says whether the loop has ended.\<close>

fun acceptor_loop ::
    "addr \<Rightarrow> coro \<Rightarrow> addr \<Rightarrow> addr \<Rightarrow> (int \<times> coro) list \<Rightarrow> (coro \<times> tcp_stream) list \<Rightarrow>
     network_operation \<Rightarrow> net_world \<Rightarrow> engine \<Rightarrow>
     (bool \<times> (coro \<times> tcp_stream) list \<times> network_operation \<times> net_world \<times> engine) outcome" where
  "acceptor_loop ret co address len [] conns op n e = Inr (False, conns, op, n, e)"
| "acceptor_loop ret co address len ((r, frame) # rs) conns op n e =
     (case accept_resume r op of
        (None, op1) \<Rightarrow> Inr (True, conns, op1, n, e)
      | (Some s, op1) \<Rightarrow>
          bind_outcome (run_stream_start (length conns) frame s e) (\<lambda>(s', e').
          bind_outcome (accept_suspend True ret (Coroutine_alt co) address len SOCK_CLOEXEC op1 n) (\<lambda>(op2, n').
            acceptor_loop ret co address len rs (conns @ [(frame, s')]) op2 n' e')))"

definition run_acceptor ::
    "background \<Rightarrow> socket_answers \<Rightarrow> int \<Rightarrow> addr \<Rightarrow> coro \<Rightarrow> addr \<Rightarrow> addr \<Rightarrow> (int \<times> coro) list \<Rightarrow> echo_server \<Rightarrow>
     net_world \<Rightarrow> signal_handler \<Rightarrow> signal_world \<Rightarrow>
     (bool \<times> (coro \<times> tcp_stream) list \<times> echo_server \<times> net_world \<times> signal_handler \<times> signal_world) outcome" where
  "run_acceptor bl ans stop_rc ret co address len rs es n h w =
     bind_outcome (listen bl AF_INET (es_port es) 10 ans (es_acceptor es) n) (\<lambda>(ok, op, n1).
       if ok then
         bind_outcome (accept_suspend True ret (Coroutine_alt co) address len SOCK_CLOEXEC op n1) (\<lambda>(op1, n2).
         bind_outcome (acceptor_loop ret co address len rs [] op1 n2 (sig_engine w)) (\<lambda>(ended, conns, op2, n3, e).
           Inr (ended, conns, es\<lparr>es_acceptor := op2\<rparr>, n3, h, w\<lparr>sig_engine := e\<rparr>)))
       else let (h1, w1) = engine_stop stop_rc h w
            in Inr (True, [], es\<lparr>es_acceptor := op\<rparr>, n1, h1, w1))"

text \<open>\<open>initialise\<close>: the acceptor, then the function \<open>f\<close> for the interrupt signal, which stops the engine.\<close>

definition echo_initialise ::
    "background \<Rightarrow> socket_answers \<Rightarrow> int \<Rightarrow> addr \<Rightarrow> coro \<Rightarrow> addr \<Rightarrow> addr \<Rightarrow> int \<Rightarrow> nat \<Rightarrow> echo_server \<Rightarrow>
     net_world \<Rightarrow> signal_handler \<Rightarrow> signal_world \<Rightarrow>
     (echo_server \<times> net_world \<times> signal_handler \<times> signal_world) outcome" where
  "echo_initialise bl ans stop_rc ret co address len previous f es n h w =
     bind_outcome (run_acceptor bl ans stop_rc ret co address len [] es n h w) (\<lambda>(_, _, es1, n1, h1, w1).
       let (_, h2, w2) = signal_handle previous SIGINT (kDefaultThread echo_class) f h1 w1
       in Inr (es1, n1, h2, w2))"

section \<open>A connection\<close>

definition kEchoBuffer :: u64 where
  "kEchoBuffer = 1028 * 1028"

datatype echo_pc = Echo_reading | Echo_writing | Echo_ended

text \<open>The write of one turn: the completions \<open>rs\<close> of its requests; \<open>None\<close> while it is not finished.\<close>

definition echo_write ::
    "coro \<Rightarrow> addr \<Rightarrow> buffer \<Rightarrow> int list \<Rightarrow> tcp_stream \<Rightarrow> net_world \<Rightarrow> (bool \<times> tcp_stream \<times> net_world) outcome" where
  "echo_write co wctx data rs s w =
     (let f = write_functor True wctx data 0 0
      in bind_outcome (transfer_start True f (Coroutine_alt co) \<lparr>stream = s, world = w, so_far = 0\<rparr>) (\<lambda>(t, acts).
         bind_outcome (if acts = [] then transfer_run f (Coroutine_alt co) rs t else Inr (t, acts)) (\<lambda>(t', acts').
           if acts' = [] then Inr (False, stream t', world t')
           else Inr (True, snd (write_resume t'), world t'))))"

text \<open>The loop of \<open>run_stream\<close>.  Each turn is the result of the read and the completions of the write.\<close>

fun echo_loop ::
    "coro \<Rightarrow> addr \<Rightarrow> addr \<Rightarrow> addr \<Rightarrow> (int \<times> int list) list \<Rightarrow> tcp_stream \<Rightarrow> net_world \<Rightarrow>
     (echo_pc \<times> tcp_stream \<times> net_world) outcome" where
  "echo_loop co rd wctx buf turns s w =
     (let (err, s0) = stream_last_error s
      in if err \<noteq> 0 then Inr (Echo_ended, s0, w)
         else bind_outcome (read_some_suspend True rd (Coroutine_alt co) (buf, kEchoBuffer) 0 0 s0 w) (\<lambda>(s1, w1).
           case turns of
             [] \<Rightarrow> Inr (Echo_reading, s1, w1)
           | (r, rs) # ts \<Rightarrow>
               let (amount, s2) = read_some_resume r s1
               in if amount > 0
                  then bind_outcome (echo_write co wctx (buf, of_int amount) rs s2 w1) (\<lambda>(fin, s3, w3).
                         if fin then echo_loop co rd wctx buf ts s3 w3 else Inr (Echo_writing, s3, w3))
                  else Inr (Echo_ended, s2, w1)))"

declare echo_loop.simps [simp del]

text \<open>The rest of \<open>run_stream\<close>: the shutdown with its answers, then the parameter \<open>_stream\<close> is destroyed.\<close>

record shutdown_answers =
  sh_cancel_read :: int
  sh_cancel_write :: int
  sh_rc :: int
  sh_reads :: "int list"

definition run_stream_end ::
    "background \<Rightarrow> background \<Rightarrow> background \<Rightarrow> coro \<Rightarrow> addr \<Rightarrow> addr \<Rightarrow> shutdown_answers \<Rightarrow> tcp_stream \<Rightarrow> net_world \<Rightarrow>
     (bool \<times> tcp_stream \<times> net_world) outcome" where
  "run_stream_end bw bc bl co ret buf a s w =
     bind_outcome (shutdown ret (Coroutine_alt co) buf (sh_cancel_read a) (sh_cancel_write a) (sh_rc a) (sh_reads a) s w)
       (\<lambda>(fin, s1, w1).
         if fin then bind_outcome (destroy_tcp_stream bw bc bl s1 w1) (\<lambda>w2. Inr (True, s1, w2))
         else Inr (False, s1, w1))"


section \<open>The server that logs\<close>

definition kPrintThread :: thread_t where
  "kPrintThread = kDefaultThread echo_class"

text \<open>\<open>print\<close> up to its suspension; its frame is \<open>frame\<close>.\<close>

definition print :: "coro \<Rightarrow> engine \<Rightarrow> engine outcome" where
  "print frame e = enabled_yield_in (Coroutine_alt frame) kPrintThread e"

text \<open>The set of the addresses of the streams is kept in order.  It is changed under the mutex: at once when
  the lock is free, otherwise when the coroutine is resumed as its owner.\<close>

definition emplace :: "addr \<Rightarrow> addr list \<Rightarrow> addr list" where
  "emplace a S = (if a \<in> set S then S else insort a S)"

definition erase_stream :: "addr \<Rightarrow> addr list \<Rightarrow> addr list" where
  "erase_stream a S = filter (\<lambda>x. x \<noteq> a) S"

definition active_owned :: "nat \<Rightarrow> (addr list \<Rightarrow> addr list) \<Rightarrow> async_mutex \<Rightarrow> addr list \<Rightarrow> (async_mutex \<times> addr list) outcome" where
  "active_owned n f m S = bind_outcome (destroy_guard n mutex_await_resume m) (\<lambda>m'. Inr (m', f S))"

definition active_await ::
    "nat \<Rightarrow> bool list \<Rightarrow> addr \<Rightarrow> coro \<Rightarrow> (addr list \<Rightarrow> addr list) \<Rightarrow> async_mutex \<Rightarrow> addr list \<Rightarrow>
     (bool \<times> async_mutex \<times> addr list) outcome" where
  "active_await n fs a co f m S =
     bind_outcome (mutex_await fs a co m) (\<lambda>(m1, suspended).
       if suspended then Inr (False, m1, S)
       else bind_outcome (active_owned n f m1 S) (\<lambda>(m2, S'). Inr (True, m2, S')))"

text \<open>\<open>run_stream\<close> between its suspensions.  With its address in the set it prints and requests to open the log of
  connection \<open>k\<close>; the constructor of the file leaves the descriptor \<open>garbage\<close>.\<close>

fun to_string :: "nat \<Rightarrow> string" where
  "to_string n = (if n < 10 then [char_of (48 + n)] else to_string (n div 10) @ [char_of (48 + n mod 10)])"

declare to_string.simps [simp del]

definition log_path :: "nat \<Rightarrow> string" where
  "log_path k = ''./connection_log.'' @ to_string k @ ''.txt''"

definition log_stream_opens ::
    "coro \<Rightarrow> addr \<Rightarrow> coro \<Rightarrow> nat \<Rightarrow> addr \<Rightarrow> int \<Rightarrow> engine \<Rightarrow> net_world \<Rightarrow> (async_file \<times> engine \<times> net_world) outcome" where
  "log_stream_opens frame ret co k eng garbage e w =
     (let file = make_async_file eng garbage
      in bind_outcome (print frame e) (\<lambda>e'.
         bind_outcome (open_option_suspend True ret (Coroutine_alt co) (log_path k) kTrunc kDefaultMode file w) (\<lambda>w'.
           Inr (file, e', w'))))"

text \<open>After the loop it prints, shuts the stream down and awaits the mutex (\<open>active_await\<close> with \<open>erase_stream\<close>).  As the
  owner it removes its address; then the guard, the file and the stream are destroyed.\<close>

definition log_stream_shuts ::
    "coro \<Rightarrow> addr \<Rightarrow> coro \<Rightarrow> addr \<Rightarrow> shutdown_answers \<Rightarrow> tcp_stream \<Rightarrow> engine \<Rightarrow> net_world \<Rightarrow>
     (bool \<times> tcp_stream \<times> engine \<times> net_world) outcome" where
  "log_stream_shuts frame ret co buf a s e w =
     bind_outcome (print frame e) (\<lambda>e'.
     bind_outcome (shutdown ret (Coroutine_alt co) buf (sh_cancel_read a) (sh_cancel_write a) (sh_rc a) (sh_reads a) s w)
       (\<lambda>(fin, s', w'). Inr (fin, s', e', w')))"

definition log_stream_leaves ::
    "background \<Rightarrow> background \<Rightarrow> background \<Rightarrow> background \<Rightarrow> nat \<Rightarrow> addr \<Rightarrow> async_file \<Rightarrow> tcp_stream \<Rightarrow>
     async_mutex \<Rightarrow> addr list \<Rightarrow> net_world \<Rightarrow> (async_mutex \<times> addr list \<times> net_world) outcome" where
  "log_stream_leaves bf bw bc bl n a file s m S w =
     bind_outcome (active_owned n (erase_stream a) m S) (\<lambda>(m', S').
     bind_outcome (destroy_async_file bf file w) (\<lambda>w1.
     bind_outcome (destroy_tcp_stream bw bc bl s w1) (\<lambda>w2. Inr (m', S', w2))))"

text \<open>\<open>initialise\<close> of this server; its function for the interrupt signal starts \<open>wake_connections\<close>.\<close>

definition logging_initialise ::
    "background \<Rightarrow> socket_answers \<Rightarrow> int \<Rightarrow> addr \<Rightarrow> coro \<Rightarrow> addr \<Rightarrow> addr \<Rightarrow> int \<Rightarrow> nat \<Rightarrow> echo_server \<Rightarrow>
     net_world \<Rightarrow> signal_handler \<Rightarrow> signal_world \<Rightarrow>
     (echo_server \<times> net_world \<times> signal_handler \<times> signal_world) outcome" where
  "logging_initialise bl ans stop_rc ret co address len previous f es n h w =
     bind_outcome (run_acceptor bl ans stop_rc ret co address len [] es n h w) (\<lambda>(_, _, es1, n1, h1, w1).
       let (_, h2, w2) = signal_handle previous SIGINT kPrintThread f h1 w1
       in Inr (es1, n1, h2, w2))"

text \<open>The loop of \<open>run_stream\<close> with its log.  A turn has the result of the read and the bytes that it stored,
  the completions of the write to the stream and of the write to the file, and the frames of the two
  \<open>print\<close>s.  \<open>content\<close> is the content of the file.\<close>

record 'b log_turn =
  lt_result :: int
  lt_data :: "'b list"
  lt_sends :: "int list"
  lt_writes :: "int list"
  lt_print :: coro
  lt_failed :: coro

datatype log_pc = Log_reading | Log_writing | Log_logging | Log_ended

fun log_loop ::
    "coro \<Rightarrow> addr \<Rightarrow> addr \<Rightarrow> addr \<Rightarrow> bool \<Rightarrow> 'b::zero log_turn list \<Rightarrow> tcp_stream \<Rightarrow> net_world \<Rightarrow> engine \<Rightarrow> 'b list \<Rightarrow>
     (log_pc \<times> tcp_stream \<times> net_world \<times> engine \<times> 'b list) outcome" where
  "log_loop co rd wctx buf file_open turns s w e content =
     (let (err, s0) = stream_last_error s
      in if err \<noteq> 0 then Inr (Log_ended, s0, w, e, content)
         else bind_outcome (read_some_suspend True rd (Coroutine_alt co) (buf, kEchoBuffer) 0 0 s0 w) (\<lambda>(s1, w1).
           case turns of
             [] \<Rightarrow> Inr (Log_reading, s1, w1, e, content)
           | t # ts \<Rightarrow>
               let (amount, s2) = read_some_resume (lt_result t) s1
               in if amount > 0
                  then bind_outcome (print (lt_print t) e) (\<lambda>e1.
                       bind_outcome (echo_write co wctx (buf, of_int amount) (lt_sends t) s2 w1) (\<lambda>(fin, s3, w3).
                         if \<not> fin then Inr (Log_writing, s3, w3, e1, content)
                         else if file_open
                         then (case write_to_file (take (nat amount) (lt_data t)) (lt_writes t) content of
                                 Finished (k, content') \<Rightarrow>
                                   bind_outcome (if k = 0 then print (lt_failed t) e1 else Inr e1) (\<lambda>e2.
                                     log_loop co rd wctx buf file_open ts s3 w3 e2 content')
                               | Waiting (k, content') \<Rightarrow> Inr (Log_logging, s3, w3, e1, content')
                               | Overrun \<Rightarrow> Inl Bad_address)
                         else log_loop co rd wctx buf file_open ts s3 w3 e1 content))
                  else Inr (Log_ended, s2, w1, e, content)))"

declare log_loop.simps [simp del]

text \<open>\<open>wake_connections\<close>, when it has the lock: every stream of the set is shut down and closed, in order;
  \<open>ans\<close> has the answers for each; then the lock is released and the engine stopped.\<close>

fun wake_streams ::
    "addr \<Rightarrow> coro \<Rightarrow> addr \<Rightarrow> (shutdown_answers \<times> int) list \<Rightarrow> addr list \<Rightarrow> (addr \<rightharpoonup> tcp_stream) \<Rightarrow> net_world \<Rightarrow>
     (bool \<times> (addr \<rightharpoonup> tcp_stream) \<times> net_world) outcome" where
  "wake_streams ret co buf ans [] streams w = Inr (True, streams, w)"
| "wake_streams ret co buf ans (a # S) streams w =
     (case (streams a, ans) of
        (None, _) \<Rightarrow> Inl Bad_address
      | (Some s, []) \<Rightarrow> Inr (False, streams, w)
      | (Some s, (sa, close_rc) # ans') \<Rightarrow>
          bind_outcome (shutdown ret (Coroutine_alt co) buf (sh_cancel_read sa) (sh_cancel_write sa) (sh_rc sa) (sh_reads sa) s w)
            (\<lambda>(fin, s1, w1).
              if \<not> fin then Inr (False, streams(a \<mapsto> s1), w1)
              else bind_outcome (stream_close_suspend True ret (Coroutine_alt co) s1 w1) (\<lambda>w2.
                     wake_streams ret co buf ans' S (streams(a \<mapsto> snd (stream_close_resume close_rc s1))) w2)))"

definition wake_connections ::
    "nat \<Rightarrow> int \<Rightarrow> addr \<Rightarrow> coro \<Rightarrow> addr \<Rightarrow> (shutdown_answers \<times> int) list \<Rightarrow> addr list \<Rightarrow> (addr \<rightharpoonup> tcp_stream) \<Rightarrow>
     async_mutex \<Rightarrow> net_world \<Rightarrow> signal_handler \<Rightarrow> signal_world \<Rightarrow>
     (bool \<times> (addr \<rightharpoonup> tcp_stream) \<times> async_mutex \<times> net_world \<times> signal_handler \<times> signal_world) outcome" where
  "wake_connections n stop_rc ret co buf ans S streams m w h sw =
     bind_outcome (wake_streams ret co buf ans S streams w) (\<lambda>(fin, streams', w').
       if \<not> fin then Inr (False, streams', m, w', h, sw)
       else bind_outcome (destroy_guard n mutex_await_resume m) (\<lambda>m'.
         let (h', sw') = engine_stop stop_rc h sw in Inr (True, streams', m', w', h', sw')))"

section \<open>What is on the wire\<close>

text \<open>The kernel's part: a receive stores its bytes at the start of the buffer, a send that completes with \<open>r\<close>
  takes \<open>r\<close> bytes from the address of its request.\<close>

definition stored :: "addr \<Rightarrow> 'b list \<Rightarrow> (addr \<Rightarrow> 'b) \<Rightarrow> addr \<Rightarrow> 'b" where
  "stored a bs mem x = (let i = unat (x - a) in if i < length bs then bs ! i else mem x)"

definition bytes_at :: "(addr \<Rightarrow> 'b) \<Rightarrow> addr \<Rightarrow> nat \<Rightarrow> 'b list" where
  "bytes_at mem a n = map (\<lambda>i. mem (a + of_nat i)) [0..<n]"

fun on_wire :: "(addr \<Rightarrow> 'b) \<Rightarrow> (uring_op \<times> addr) list \<Rightarrow> int list \<Rightarrow> 'b list" where
  "on_wire mem ((Prep_send fd (a, len) flags, tok) # qs) (r # rs) = bytes_at mem a (nat r) @ on_wire mem qs rs"
| "on_wire mem _ _ = []"

definition echo_read :: "addr \<Rightarrow> int \<Rightarrow> addr \<Rightarrow> uring_op \<times> addr" where
  "echo_read rd fd buf = (Prep_recv fd (buf, kEchoBuffer) 0, rd)"

definition echo_sends :: "addr \<Rightarrow> int \<Rightarrow> addr \<Rightarrow> int \<Rightarrow> int list \<Rightarrow> (uring_op \<times> addr) list" where
  "echo_sends wctx fd buf r rs =
     (let req = write_request wctx fd (buf, of_int r) 0 0 in req 0 # requests_at req 0 (butlast rs))"

lemma bytes_at_stored:
  assumes "length bs < 2 ^ 64" and "k + n \<le> length bs"
  shows "bytes_at (stored a bs mem) (a + of_nat k) n = take n (drop k bs)"
proof (rule nth_equalityI)
  fix i
  assume "i < length (bytes_at (stored a bs mem) (a + of_nat k) n)"
  then have i: "i < n" by (simp add: bytes_at_def)
  have "a + of_nat k + of_nat i - a = (of_nat (k + i) :: addr)" by simp
  moreover have "unat (of_nat (k + i) :: addr) = k + i" using assms i by (simp add: unat_of_nat del: of_nat_add)
  ultimately have "unat (a + of_nat k + of_nat i - a) = k + i" by (simp only:)
  then show "bytes_at (stored a bs mem) (a + of_nat k) n ! i = take n (drop k bs) ! i"
    using assms i by (simp add: bytes_at_def stored_def Let_def)
qed (use assms in \<open>simp add: bytes_at_def\<close>)

lemma on_wire_sends:
  assumes "length bs < 2 ^ 64" and req: "req = write_request wctx fd (buf, n) 0 0"
    and "\<forall>r \<in> set rs. 0 < r" and "rs \<noteq> []" and "int k + sum_list rs \<le> int (length bs)"
  shows "on_wire (stored buf bs mem) (req (int k) # requests_at req (int k) (butlast rs)) rs = take (nat (sum_list rs)) (drop k bs)"
  using assms(3-)
proof (induction rs arbitrary: k)
  case (Cons r rs)
  have s0: "0 \<le> sum_list rs" using Cons.prems(1) by (intro sum_list_pos_iff(1)) auto
  have r: "0 < r" "k + nat r \<le> length bs" using Cons.prems s0 by auto
  have b: "bytes_at (stored buf bs mem) (buf + of_nat k) (nat r) = take (nat r) (drop k bs)"
    by (rule bytes_at_stored [OF assms(1) r(2)])
  have first: "on_wire (stored buf bs mem) (req (int k) # qs) (r # rs) = take (nat r) (drop k bs) @ on_wire (stored buf bs mem) qs rs" for qs
    using b by (simp add: req write_request_def)
  show ?case
  proof (cases "rs = []")
    case True
    then show ?thesis using first [of "[]"] by simp
  next
    case False
    have k': "int k + r = int (k + nat r)" using r(1) by simp
    have "on_wire (stored buf bs mem) (req (int (k + nat r)) # requests_at req (int (k + nat r)) (butlast rs)) rs =
        take (nat (sum_list rs)) (drop (k + nat r) bs)"
      using Cons.prems r(1) False by (intro Cons.IH) auto
    with first False k' have "on_wire (stored buf bs mem) (req (int k) # requests_at req (int k) (butlast (r # rs))) (r # rs) =
        take (nat r) (drop k bs) @ take (nat (sum_list rs)) (drop (k + nat r) bs)" by simp
    then show ?thesis using r(1) s0 by (simp add: nat_add_distrib take_add add.commute)
  qed
qed simp

section \<open>The streams and the logs\<close>

lemma active_set_kept:
  assumes "sorted S" and "distinct S"
  shows "sorted (emplace a S) \<and> distinct (emplace a S) \<and> set (emplace a S) = insert a (set S)"
    and "sorted (erase_stream a S) \<and> distinct (erase_stream a S) \<and> set (erase_stream a S) = set S - {a}"
    and "a \<notin> set S \<Longrightarrow> erase_stream a (emplace a S) = S"
proof -
  show "sorted (emplace a S) \<and> distinct (emplace a S) \<and> set (emplace a S) = insert a (set S)"
    using assms by (auto simp: emplace_def sorted_insort distinct_insort set_insort_key)
  show "sorted (erase_stream a S) \<and> distinct (erase_stream a S) \<and> set (erase_stream a S) = set S - {a}"
    using assms by (auto simp: erase_stream_def intro: sorted_wrt_filter)
  assume a: "a \<notin> set S"
  then have "filter (\<lambda>x. x \<noteq> a) S = S" by (auto intro: filter_True)
  then have "filter (\<lambda>x. x \<noteq> a) (insort a S) = S" using assms a by (induction S) auto
  then show "erase_stream a (emplace a S) = S" using a by (simp add: erase_stream_def emplace_def)
qed

text \<open>Every connection has a log of its own: the number can be read back from the name.\<close>

definition read_number :: "string \<Rightarrow> nat" where
  "read_number = foldl (\<lambda>k c. 10 * k + (of_char c - 48)) 0"

lemma read_to_string: "read_number (to_string n) = n"
proof (induction n rule: to_string.induct)
  case (1 n)
  then show ?case by (subst to_string.simps) (auto simp: read_number_def)
qed

lemma log_path_inj: "log_path k = log_path l \<longleftrightarrow> k = l"
  using read_to_string by (metis log_path_def append_same_eq same_append_eq)

section \<open>Turns of the loop\<close>

definition open_stream :: "int \<Rightarrow> tcp_stream \<Rightarrow> bool" where
  "open_stream fd s \<longleftrightarrow> net_engine (net s) \<noteq> null \<and> sd (net s) = fd \<and> last_err (net s) = 0"

lemma echo_read_requested:
  assumes "open_stream fd s"
  shows "\<exists>w'. read_some_suspend True rd (Coroutine_alt co) (buf, kEchoBuffer) 0 0 s w =
      Inr (s\<lparr>net := set_cancel rd (net s)\<rparr>, w') \<and>
    sq (loop (nio w')) = sq (loop (nio w)) @ [echo_read rd fd buf]"
  using assms
  by (simp add: open_stream_def read_some_suspend_def net_defs stream_defs recv_await_def io_suspend_def recv_def
      do_op_impl_def Let_def echo_read_def read_some_amount_def kMaxRead_def kEchoBuffer_def)

lemma echo_write_complete:
  assumes "open_stream fd s" and "0 < r" and "r \<le> uint kEchoBuffer" and "\<forall>x \<in> set rs. 0 < x" and "sum_list rs = r" and "co \<noteq> 0"
  shows "\<exists>s' w'. echo_write co wctx (buf, of_int r) rs s w = Inr (True, s', w') \<and> open_stream fd s' \<and>
    sq (loop (nio w')) = sq (loop (nio w)) @ echo_sends wctx fd buf r rs"
proof -
  let ?t = "\<lparr>stream = s, world = w, so_far = 0\<rparr>" and ?f = "write_functor True wctx (buf, of_int r) 0 0"
  have "sint (of_int r :: u64) = r"
    using assms(2,3) by (simp add: kEchoBuffer_def sint_sbintrunc' signed_take_bit_int_eq_self)
  then obtain t1 t2 where "transfer_start True ?f (Coroutine_alt co) ?t = Inr (t1, [])"
    "transfer_run ?f (Coroutine_alt co) rs t1 = Inr (t2, [Resume co])" "usable fd t2"
    "last_err (net (stream t2)) = last_err (net (stream ?t))"
    "requests t2 = requests ?t @ echo_sends wctx fd buf r rs"
    using wr.start_and_complete [of fd ?t rs "(buf, of_int r)" co wctx 0 0] assms
    by (auto simp: usable_def open_stream_def echo_sends_def Let_def simp del: bind_outcome_eq_Inr transfer_run.simps)
  then show ?thesis using assms(1)
    by (simp add: echo_write_def Let_def open_stream_def write_resume_def usable_def requests_def
        del: bind_outcome_eq_Inr transfer_run.simps)
qed

lemma echo_turn:
  assumes s: "open_stream fd s" and r: "0 < r" "r \<le> uint kEchoBuffer" and rs: "\<forall>x \<in> set rs. 0 < x" "sum_list rs = r"
    and co: "co \<noteq> 0"
  shows "\<exists>s' w'. echo_loop co rd wctx buf ((r, rs) # ts) s w = echo_loop co rd wctx buf ts s' w' \<and> open_stream fd s' \<and>
    sq (loop (nio w')) = sq (loop (nio w)) @ echo_read rd fd buf # echo_sends wctx fd buf r rs"
proof -
  have last: "stream_last_error s = (0, s)" using s by (simp add: stream_last_error_def last_error_def open_stream_def)
  obtain w1 where w1: "read_some_suspend True rd (Coroutine_alt co) (buf, kEchoBuffer) 0 0 s w =
      Inr (s\<lparr>net := set_cancel rd (net s)\<rparr>, w1)" "sq (loop (nio w1)) = sq (loop (nio w)) @ [echo_read rd fd buf]"
    using echo_read_requested [OF s] by blast
  obtain s2 where s2: "read_some_resume r (s\<lparr>net := set_cancel rd (net s)\<rparr>) = (r, s2)" "open_stream fd s2"
    using r(1) s by (simp add: read_some_resume_def open_stream_def stream_defs)
  obtain s3 w3 where s3: "echo_write co wctx (buf, of_int r) rs s2 w1 = Inr (True, s3, w3)" "open_stream fd s3"
    "sq (loop (nio w3)) = sq (loop (nio w1)) @ echo_sends wctx fd buf r rs"
    using echo_write_complete [OF s2(2) r rs co] by blast
  have "echo_loop co rd wctx buf ((r, rs) # ts) s w = echo_loop co rd wctx buf ts s3 w3"
    using last w1(1) s2(1) s3(1) r(1) by (subst echo_loop.simps) simp
  with s3 w1(2) show ?thesis by (intro exI [of _ s3] exI [of _ w3]) simp
qed

lemma echo_suspended:
  assumes s: "open_stream fd s"
  shows "\<exists>s' w'. echo_loop co rd wctx buf [] s w = Inr (Echo_reading, s', w') \<and>
    sq (loop (nio w')) = sq (loop (nio w)) @ [echo_read rd fd buf]"
proof -
  have last: "stream_last_error s = (0, s)" using s by (simp add: stream_last_error_def last_error_def open_stream_def)
  from echo_read_requested [OF s, of rd co buf w] obtain w1 where
    "read_some_suspend True rd (Coroutine_alt co) (buf, kEchoBuffer) 0 0 s w = Inr (s\<lparr>net := set_cancel rd (net s)\<rparr>, w1)"
    "sq (loop (nio w1)) = sq (loop (nio w)) @ [echo_read rd fd buf]" by blast
  then show ?thesis using last by (subst echo_loop.simps) simp
qed


text \<open>A turn in which the peer has sent the bytes \<open>bs\<close> and takes them back in parts of \<open>rs\<close> bytes.\<close>

definition turn_ok :: "'b list \<times> int list \<Rightarrow> bool" where
  "turn_ok = (\<lambda>(bs, rs). bs \<noteq> [] \<and> int (length bs) \<le> uint kEchoBuffer \<and> (\<forall>x \<in> set rs. 0 < x) \<and>
     sum_list rs = int (length bs))"

definition turn_answers :: "'b list \<times> int list \<Rightarrow> int \<times> int list" where
  "turn_answers = (\<lambda>(bs, rs). (int (length bs), rs))"

definition turn_sends :: "addr \<Rightarrow> int \<Rightarrow> addr \<Rightarrow> 'b list \<times> int list \<Rightarrow> (uring_op \<times> addr) list" where
  "turn_sends wctx fd buf = (\<lambda>(bs, rs). echo_sends wctx fd buf (int (length bs)) rs)"

lemma turn_on_wire:
  assumes "turn_ok (bs, rs)"
  shows "on_wire (stored buf bs mem) (turn_sends wctx fd buf (bs, rs)) rs = bs"
proof -
  have t: "bs \<noteq> []" "length bs < 2 ^ 64" "\<forall>x \<in> set rs. 0 < x" "sum_list rs = int (length bs)"
    using assms by (auto simp: turn_ok_def kEchoBuffer_def)
  then have "rs \<noteq> []" by auto
  from on_wire_sends [OF t(2) refl t(3) this, of 0 buf mem wctx fd "of_int (int (length bs))"] t(4) show ?thesis
    by (simp add: turn_sends_def echo_sends_def Let_def)
qed

lemma echo_turns:
  assumes "open_stream fd s" and "\<forall>x \<in> set ins. turn_ok x" and "co \<noteq> 0"
  shows "\<exists>s' w'. echo_loop co rd wctx buf (map turn_answers ins) s w = Inr (Echo_reading, s', w') \<and>
     sq (loop (nio w')) = sq (loop (nio w)) @
       concat (map (\<lambda>x. echo_read rd fd buf # turn_sends wctx fd buf x) ins) @ [echo_read rd fd buf]"
  using assms(1,2)
proof (induction ins arbitrary: s w)
  case Nil
  then show ?case using echo_suspended [OF Nil(1)] by simp
next
  case (Cons x ins)
  obtain bs rs where x: "x = (bs, rs)" by force
  have t: "0 < int (length bs)" "int (length bs) \<le> uint kEchoBuffer" "\<forall>x \<in> set rs. 0 < x" "sum_list rs = int (length bs)"
    using Cons.prems(2) x by (auto simp: turn_ok_def)
  obtain s1 w1 where 1: "echo_loop co rd wctx buf (map turn_answers (x # ins)) s w = echo_loop co rd wctx buf (map turn_answers ins) s1 w1"
    "open_stream fd s1" "sq (loop (nio w1)) = sq (loop (nio w)) @ echo_read rd fd buf # turn_sends wctx fd buf x"
    using echo_turn [OF Cons.prems(1) t assms(3), of rd wctx buf "map turn_answers ins" w] x
    by (auto simp: turn_answers_def turn_sends_def)
  from Cons.IH [OF 1(2), of w1] Cons.prems(2) 1 show ?case by auto
qed

section \<open>Accepting connections\<close>

text \<open>The connections of the worker \<open>i\<close> among \<open>m\<close>, by their frames.\<close>

fun assigned :: "nat \<Rightarrow> nat \<Rightarrow> nat \<Rightarrow> coro list \<Rightarrow> tagged_event list" where
  "assigned m i k [] = []"
| "assigned m i k (f # fs) = (if k mod m = i then [resume_event f] else []) @ assigned m i (Suc k) fs"

lemma run_stream_start_queues:
  assumes "loops e \<noteq> []" and "length (loops e) \<le> 65534"
  shows "let i = k mod length (loops e) in run_stream_start k co s e =
     Inr (fst (move_tcp_stream s), e\<lparr>loops := (loops e)[i := dispatch_user_event (resume_event co) (loops e ! i)]\<rparr>)"
proof -
  let ?m = "length (loops e)" let ?i = "k mod ?m"
  have m: "unat (number_of_workers e) = ?m" using assms(2) by (simp add: number_of_workers_def unat_of_nat_u16)
  have nz: "0 < ?m" using assms(1) by simp
  then have i: "?i < ?m" by simp
  have t: "thread_id (stream_thread k e) = of_nat ?i" by (simp add: stream_thread_def m)
  have u: "unat (of_nat ?i :: u16) = ?i" using i assms(2) by (intro unat_of_nat_u16) simp
  have "of_nat ?i \<noteq> kAnyThread"
  proof
    assume "of_nat ?i = kAnyThread"
    then have "?i = unat kAnyThread" using u by simp
    then show False using i assms(2) by (simp add: kAnyThread_def)
  qed
  moreover have "number_of_workers e \<noteq> 0" using m nz by auto
  ultimately show ?thesis using i u t
    by (simp add: run_stream_start_def enabled_yield_in_def yield_in_def thread_resume_def resolve_thread_def Let_def)
qed

lemma accept_requested:
  assumes "net_engine op \<noteq> null"
  shows "\<exists>n'. accept_suspend True ret h address len flags op n = Inr (set_cancel ret op, n')"
  using assms
  by (simp add: accept_suspend_def net_defs set_cancel_def accept_await_def io_suspend_def accept_def do_op_impl_def Let_def)

lemma acceptor_loop_accepts:
  assumes "net_engine op \<noteq> null" and "loops e \<noteq> []" and "length (loops e) \<le> 65534" and "\<forall>(r, f) \<in> set rs. 0 \<le> r"
  shows "\<exists>conns' op' n' e'. acceptor_loop ret co address len rs conns op n e = Inr (False, conns @ conns', op', n', e') \<and>
     map (\<lambda>(f, s). (f, sd (net s))) conns' = map (\<lambda>(r, f). (f, r)) rs \<and>
     length (loops e') = length (loops e) \<and>
     (\<forall>i < length (loops e). write_handles (loops e' ! i) =
        write_handles (loops e ! i) @ assigned (length (loops e)) i (length conns) (map snd rs))"
  using assms
proof (induction rs arbitrary: conns op n e)
  case (Cons x rs)
  obtain r f where x: "x = (r, f)" by force
  let ?i = "length conns mod length (loops e)" and ?ev = "resume_event f"
  let ?e = "e\<lparr>loops := (loops e)[?i := dispatch_user_event ?ev (loops e ! ?i)]\<rparr>"
  let ?op = "set_cancel null op" let ?s = "make_tcp_stream (net_engine ?op) r"
  have r: "0 \<le> r" using Cons.prems(4) x by simp
  then have acc: "accept_resume r op = (Some ?s, ?op)" by (simp add: accept_resume_def Let_def)
  have st: "run_stream_start (length conns) f ?s e = Inr (fst (move_tcp_stream ?s), ?e)"
    using run_stream_start_queues [OF Cons.prems(2,3), of "length conns" f ?s] by (simp add: Let_def)
  obtain n1 where n1: "accept_suspend True ret (Coroutine_alt co) address len SOCK_CLOEXEC ?op n = Inr (set_cancel ret ?op, n1)"
    using accept_requested [of ?op ret "Coroutine_alt co" address len SOCK_CLOEXEC n] Cons.prems(1)
    by (auto simp: set_cancel_def simp del: bind_outcome_eq_Inr)
  have step: "acceptor_loop ret co address len (x # rs) conns op n e =
      acceptor_loop ret co address len rs (conns @ [(f, fst (move_tcp_stream ?s))]) (set_cancel ret ?op) n1 ?e"
    using acc st n1 x by simp
  have "net_engine (set_cancel ret ?op) \<noteq> null" "loops ?e \<noteq> []" "length (loops ?e) \<le> 65534" "\<forall>(r, f) \<in> set rs. 0 \<le> r"
    using Cons.prems by (auto simp: set_cancel_def)
  from Cons.IH [OF this, of "conns @ [(f, fst (move_tcp_stream ?s))]" n1] obtain conns' op' n' e' where
    IH: "acceptor_loop ret co address len rs (conns @ [(f, fst (move_tcp_stream ?s))]) (set_cancel ret ?op) n1 ?e =
        Inr (False, (conns @ [(f, fst (move_tcp_stream ?s))]) @ conns', op', n', e')"
    "map (\<lambda>(f, s). (f, sd (net s))) conns' = map (\<lambda>(r, f). (f, r)) rs" "length (loops e') = length (loops ?e)"
    "\<forall>i < length (loops ?e). write_handles (loops e' ! i) =
        write_handles (loops ?e ! i) @ assigned (length (loops ?e)) i (Suc (length conns)) (map snd rs)" by auto
  have sd: "sd (net (fst (move_tcp_stream ?s))) = r"
    by (simp add: move_tcp_stream_def swap_tcp_stream_def swap_network_operation_def make_tcp_stream_def
        make_network_operation_def)
  have "write_handles (loops ?e ! i) = write_handles (loops e ! i) @ (if ?i = i then [?ev] else [])"
    if "i < length (loops e)" for i using that by (auto simp: nth_list_update)
  with IH(4) have "\<forall>i < length (loops e). write_handles (loops e' ! i) =
      write_handles (loops e ! i) @ assigned (length (loops e)) i (length conns) (map snd (x # rs))"
    using x by simp
  with IH(1-3) step sd x show ?case
    by (intro exI [of _ "(f, fst (move_tcp_stream ?s)) # conns'"] exI [of _ op'] exI [of _ n'] exI [of _ e']) simp
qed simp


section \<open>The log\<close>

lemma write_to_file_whole:
  assumes "data \<noteq> []" and "length data < 2147483647"
  shows "write_to_file data [int (length data)] content = Finished (length data, data @ drop (length data) content)"
  unfolding write_to_file_def
  using assms write_loop_step [of 0 data "length data" "[]" content]
  by (simp add: write_loop.simps [of data "[]"] pwrite_def)

definition logged :: "coro \<Rightarrow> 'b list \<times> int list \<Rightarrow> 'b::zero log_turn" where
  "logged f = (\<lambda>(bs, rs). \<lparr>lt_result = int (length bs), lt_data = bs, lt_sends = rs, lt_writes = [int (length bs)],
     lt_print = f, lt_failed = f\<rparr>)"

lemma log_one_turn:
  assumes s: "open_stream fd s" and t: "turn_ok (bs, rs)" and co: "co \<noteq> 0" and e: "print f e = Inr e1"
  shows "\<exists>s' w'. log_loop co rd wctx buf True (logged f (bs, rs) # ts) s w e content =
      log_loop co rd wctx buf True ts s' w' e1 (bs @ drop (length bs) content) \<and> open_stream fd s'"
proof -
  let ?r = "int (length bs)"
  have r: "0 < ?r" "?r \<le> uint kEchoBuffer" and rs: "\<forall>x \<in> set rs. 0 < x" "sum_list rs = ?r" using t by (auto simp: turn_ok_def)
  have last: "stream_last_error s = (0, s)" using s by (simp add: stream_last_error_def last_error_def open_stream_def)
  obtain w1 where w1: "read_some_suspend True rd (Coroutine_alt co) (buf, kEchoBuffer) 0 0 s w =
      Inr (s\<lparr>net := set_cancel rd (net s)\<rparr>, w1)" using echo_read_requested [OF s] by blast
  obtain s2 where s2: "read_some_resume ?r (s\<lparr>net := set_cancel rd (net s)\<rparr>) = (?r, s2)" "open_stream fd s2"
    using r(1) s by (simp add: read_some_resume_def open_stream_def stream_defs)
  obtain s3 w3 where s3: "echo_write co wctx (buf, of_int ?r) rs s2 w1 = Inr (True, s3, w3)" "open_stream fd s3"
    using echo_write_complete [OF s2(2) r rs co] by blast
  have f: "write_to_file bs [?r] content = Finished (length bs, bs @ drop (length bs) content)"
    using t by (intro write_to_file_whole) (auto simp: turn_ok_def kEchoBuffer_def)
  have "log_loop co rd wctx buf True (logged f (bs, rs) # ts) s w e content =
      log_loop co rd wctx buf True ts s3 w3 e1 (bs @ drop (length bs) content)"
    using last w1 s2(1) s3(1) r(1) e f by (subst log_loop.simps) (simp add: logged_def)
  with s3(2) show ?thesis by blast
qed

section \<open>Properties\<close>


text \<open>The acceptor serves every connection: as long as accepting succeeds, each descriptor is given to a coroutine
  of its own, and the coroutines are queued on the workers in turn, the one of connection \<open>k\<close> on the worker
  \<open>k mod number_of_workers\<close>, in the order in which the connections were accepted.\<close>

theorem acceptor_balances_connections:
  assumes "net_engine op \<noteq> null" and "loops e \<noteq> []" and "length (loops e) \<le> 65534" and "\<forall>(r, f) \<in> set rs. 0 \<le> r"
  shows "\<exists>conns op' n' e'. acceptor_loop ret co address len rs [] op n e = Inr (False, conns, op', n', e') \<and>
     map (\<lambda>(f, s). (f, sd (net s))) conns = map (\<lambda>(r, f). (f, r)) rs \<and>
     (\<forall>i < length (loops e). write_handles (loops e' ! i) =
        write_handles (loops e ! i) @ assigned (length (loops e)) i 0 (map snd rs))"
  using acceptor_loop_accepts [OF assms, of ret co address len "[]" n] by auto

text \<open>The log of a connection does not keep what was received: every turn writes to the file from its start, so the
  second of two turns overwrites the first.\<close>

theorem log_keeps_last_turn:
  assumes "open_stream fd s" and "turn_ok (bs, rs)" and "turn_ok (cs, qs)" and "co \<noteq> 0"
    and "print f e = Inr e1" and "print g e1 = Inr e2"
  shows "\<exists>s' w'. log_loop co rd wctx buf True [logged f (bs, rs), logged g (cs, qs)] s w e [] =
     log_loop co rd wctx buf True [] s' w' e2 (cs @ drop (length cs) bs)"
proof -
  obtain s1 w1 where 1: "log_loop co rd wctx buf True [logged f (bs, rs), logged g (cs, qs)] s w e [] =
      log_loop co rd wctx buf True [logged g (cs, qs)] s1 w1 e1 bs" "open_stream fd s1"
    using log_one_turn [OF assms(1,2,4,5), of rd wctx buf "[logged g (cs, qs)]" w "[]"] by auto
  from log_one_turn [OF 1(2) assms(3,4,6), of rd wctx buf "[]" w1 bs] 1(1) show ?thesis by auto
qed

section \<open>Witnesses\<close>


theorem acceptor_balances_connections_witness:
  "\<exists>conns op' n' e'. acceptor_loop 16 32 0 0 [(7, 40), (8, 48), (9, 56)] [] (make_tcp_acceptor 8) demo_world demo_engine =
       Inr (False, conns, op', n', e') \<and>
     write_handles (loops e' ! 0) = [Coroutine_alt 8, resume_event 40, resume_event 56] \<and>
     write_handles (loops e' ! 1) = [resume_event 48]"
proof -
  have h: "net_engine (make_tcp_acceptor 8) \<noteq> null" "length (loops demo_engine) = 2" "loops demo_engine \<noteq> []"
    "write_handles (loops demo_engine ! 0) = [Coroutine_alt 8]" "write_handles (loops demo_engine ! 1) = []"
    by (simp_all add: make_tcp_acceptor_def make_network_operation_def demo_engine_def demo_loop_def init_event_loop_def)
  have rs: "\<forall>(r, f) \<in> set [(7, 40), (8, 48), (9, 56 :: coro)]. (0 :: int) \<le> r" by simp
  from acceptor_balances_connections [OF h(1,3) _ rs, of 16 32 0 0 demo_world] h(2) obtain conns op' n' e' where
    e: "acceptor_loop 16 32 0 0 [(7, 40), (8, 48), (9, 56)] [] (make_tcp_acceptor 8) demo_world demo_engine =
       Inr (False, conns, op', n', e')"
    and a: "\<forall>i < 2. write_handles (loops e' ! i) = write_handles (loops demo_engine ! i) @ assigned 2 i 0 [40, 48, 56]"
    by (auto simp del: acceptor_loop.simps bind_outcome_eq_Inr)
  from a [rule_format, of 0] a [rule_format, of 1] h(4,5) e show ?thesis by (intro exI conjI) simp_all
qed

end
