(* ===== verification/Loop_Run.thy ===== *)
theory Loop_Run
  imports Event_Loop
begin

text \<open>
  \<open>event_loop::run\<close> with its two halves put together: the coroutine \<open>run_user_space\<close>, which executes the
  queue and awaits the event descriptor, and the loop over kernel completions, which resumes it like any other
  coroutine.  In between other threads dispatch events: a round is what they dispatch and then a turn of the
  loop.  A submission entry is free for the reads of the event descriptor.
\<close>

section \<open>The coroutine of the user space queue\<close>

text \<open>Its handle, the \<open>io_event\<close> of its read and the address of \<open>count\<close>.\<close>

record user_space =
  us_frame :: coro
  us_event :: addr
  us_counter :: addr

definition user_space_read :: "user_space \<Rightarrow> io_state \<Rightarrow> io_state outcome" where
  "user_space_read u s =
     read_await True (us_event u) (Coroutine_alt (us_frame u)) null (user_space_event_fd (loop s)) (us_counter u, 8) 0
       (s\<lparr>loop := (loop s)\<lparr>use_space_handle := us_event u\<rparr>\<rparr>)"

definition user_space_turn ::
    "(tagged_event \<Rightarrow> io_state \<Rightarrow> io_state outcome) \<Rightarrow> user_space \<Rightarrow> io_state \<Rightarrow> io_state outcome" where
  "user_space_turn exec u s =
     (let s1 = s\<lparr>loop := swap_handles (loop s)\<rparr>
      in bind_outcome (fold_outcome exec (read_handles (loop s1)) s1) (\<lambda>s2.
           user_space_read u (s2\<lparr>loop := clear_read (loop s2)\<rparr>)))"

definition user_space_resumed ::
    "bool \<Rightarrow> (tagged_event \<Rightarrow> io_state \<Rightarrow> io_state outcome) \<Rightarrow> user_space \<Rightarrow> io_state \<Rightarrow> io_state outcome" where
  "user_space_resumed stop_requested exec u s =
     bind_outcome (io_resume (us_event u) s) (\<lambda>r.
       let s1 = s\<lparr>loop := (loop s)\<lparr>use_space_handle := null\<rparr>\<rparr>
       in if user_space_continue stop_requested r then user_space_turn exec u s1 else Inr s1)"

section \<open>The loop\<close>

text \<open>Executing a handle on this thread; \<open>exec\<close> is what the handles of others do.\<close>

definition loop_exec ::
    "bool \<Rightarrow> (tagged_event \<Rightarrow> io_state \<Rightarrow> io_state outcome) \<Rightarrow> user_space \<Rightarrow> tagged_event \<Rightarrow> io_state \<Rightarrow> io_state outcome" where
  "loop_exec stop_requested exec u h s =
     (if h = Coroutine_alt (us_frame u) then user_space_resumed stop_requested exec u s else exec h s)"

fun run_rounds ::
    "(tagged_event \<Rightarrow> io_state \<Rightarrow> io_state outcome) \<Rightarrow> nat \<Rightarrow> (tagged_event list \<times> turn) list \<Rightarrow> io_state \<Rightarrow>
     io_state outcome" where
  "run_rounds exec n [] s = Inr s"
| "run_rounds exec n ((qs, t) # rs) s =
     (let s1 = s\<lparr>loop := fold dispatch_user_event qs (loop s)\<rparr>
      in case t of
           Arrived cs \<Rightarrow>
             bind_outcome (drain_completions exec n (s1\<lparr>loop := (loop s1)\<lparr>cq := cq (loop s1) @ cs\<rparr>\<rparr>)) (run_rounds exec n rs)
         | _ \<Rightarrow> Inr s1)"

lemma run_rounds_run_turns: "run_rounds exec n (map (Pair []) ts) s = run_turns exec n ts s"
proof (induction ts arbitrary: s)
  case (Cons t ts)
  then show ?case by (cases t) (simp_all add: Cons.IH cong: bind_outcome_cong)
qed simp

definition event_loop_run ::
    "bool \<Rightarrow> (tagged_event \<Rightarrow> io_state \<Rightarrow> io_state outcome) \<Rightarrow> user_space \<Rightarrow> nat \<Rightarrow> (tagged_event list \<times> turn) list \<Rightarrow>
     io_state \<Rightarrow> io_state outcome" where
  "event_loop_run stop_requested exec u n rs s =
     bind_outcome (user_space_turn exec u s) (\<lambda>s1.
       run_rounds (loop_exec stop_requested exec u) n rs (s1\<lparr>loop := submit_pending_events (loop s1)\<rparr>))"

section \<open>Executing the queue\<close>

definition event_actions :: "tagged_event \<Rightarrow> action list" where
  "event_actions h = (case execute_event h of Inl _ \<Rightarrow> [] | Inr acts \<Rightarrow> acts)"

definition runnable :: "user_space \<Rightarrow> tagged_event \<Rightarrow> bool" where
  "runnable u h \<longleftrightarrow> h \<noteq> Coroutine_alt (us_frame u) \<and> (\<exists>acts. execute_event h = Inr acts)"

definition queue_actions :: "tagged_event list \<Rightarrow> action list" where
  "queue_actions hs = concat (map event_actions hs)"

lemma run_handles_total:
  "\<forall>h \<in> set hs. runnable u h \<Longrightarrow>
   fold_outcome run_handle hs s = Inr (s\<lparr>executed := executed s @ queue_actions hs\<rparr>)"
proof (induction hs arbitrary: s)
  case (Cons h hs)
  then obtain acts where "execute_event h = Inr acts" by (auto simp: runnable_def)
  then have "run_handle h s = Inr (s\<lparr>executed := executed s @ event_actions h\<rparr>)"
    by (simp add: run_handle_def event_actions_def)
  with Cons show ?case by (simp add: queue_actions_def)
qed (simp add: queue_actions_def)

text \<open>The coroutine waits for the event descriptor.\<close>

definition waits :: "user_space \<Rightarrow> io_state \<Rightarrow> bool" where
  "waits u s \<longleftrightarrow> handles_of (ios s) (us_event u) = Some (Coroutine_alt (us_frame u)) \<and> read_handles (loop s) = []"

lemma user_space_turn_total:
  assumes "read_handles (loop s) = []" and "\<forall>h \<in> set (write_handles (loop s)). runnable u h"
  shows "\<exists>t. user_space_turn run_handle u s = Inr t \<and> waits u t \<and> write_handles (loop t) = [] \<and>
     executed t = executed s @ queue_actions (write_handles (loop s)) \<and> cq (loop t) = cq (loop s) \<and>
     ios t = (ios s)(us_event u \<mapsto> \<lparr>handle = Coroutine_alt (us_frame u), result = 0\<rparr>)"
  using assms run_handles_total [OF assms(2), of "s\<lparr>loop := swap_handles (loop s)\<rparr>"]
  by (simp add: user_space_turn_def swap_handles_def user_space_read_def await_is_suspend io_suspend_def Let_def
      read_op_def do_op_impl_def clear_read_def waits_def handles_of_def)


section \<open>Delivering completions\<close>

text \<open>A completion that the loop can serve, and what serving it executes.\<close>

definition served :: "user_space \<Rightarrow> io_state \<Rightarrow> addr \<Rightarrow> bool" where
  "served u s tok \<longleftrightarrow> tok \<noteq> null \<and>
     (tok = us_event u \<or> (\<exists>h. handles_of (ios s) tok = Some h \<and> runnable u h))"

definition token_events :: "user_space \<Rightarrow> io_state \<Rightarrow> tagged_event list \<Rightarrow> addr \<Rightarrow> action list" where
  "token_events u s q tok = (if tok = us_event u then queue_actions q else token_actions s tok)"

lemma served_cong: "handles_of (ios t) = handles_of (ios s) \<Longrightarrow> served u t = served u s"
  by (rule ext) (simp add: served_def)

lemma token_events_cong:
  assumes "handles_of (ios t) = handles_of (ios s)"
  shows "token_events u t q = token_events u s q"
  by (rule ext) (simp add: token_events_def same_handles(2) [OF assms])

lemma token_events_other: "us_event u \<notin> set toks \<Longrightarrow> map (token_events u s q) toks = map (token_events u s q') toks"
  by (auto simp: token_events_def)

lemma resume_user_space:
  assumes "waits u s" and "map_option result (ios s (us_event u)) = Some 8"
    and "\<forall>h \<in> set (write_handles (loop s)). runnable u h"
  shows "\<exists>t. resume_token (loop_exec False run_handle u) (us_event u) s = Inr t \<and> waits u t \<and>
     write_handles (loop t) = [] \<and> executed t = executed s @ queue_actions (write_handles (loop s)) \<and>
     cq (loop t) = cq (loop s) \<and> handles_of (ios t) = handles_of (ios s)"
proof -
  let ?s = "s\<lparr>loop := (loop s)\<lparr>use_space_handle := null\<rparr>\<rparr>"
  obtain ev where ev: "ios s (us_event u) = Some ev" "handle ev = Coroutine_alt (us_frame u)" "result ev = 8"
    using assms(1,2) by (auto simp: waits_def handles_of_def)
  have "read_handles (loop ?s) = []" "\<forall>h \<in> set (write_handles (loop ?s)). runnable u h"
    using assms(1,3) by (simp_all add: waits_def)
  from user_space_turn_total [OF this] obtain t where t: "user_space_turn run_handle u ?s = Inr t" "waits u t"
    "write_handles (loop t) = []" "executed t = executed s @ queue_actions (write_handles (loop s))"
    "cq (loop t) = cq (loop s)"
    "ios t = (ios s)(us_event u \<mapsto> \<lparr>handle = Coroutine_alt (us_frame u), result = 0\<rparr>)" by auto
  have "handles_of (ios t) = handles_of (ios s)" using ev t(6) by (auto simp: handles_of_def)
  moreover have "resume_token (loop_exec False run_handle u) (us_event u) s = Inr t"
    using ev t(1) by (simp add: resume_token_def loop_exec_def user_space_resumed_def io_resume_def
        user_space_continue_def Let_def)
  ultimately show ?thesis using t(2-5) by blast
qed

lemma resume_other:
  assumes "served u s tok" and "tok \<noteq> us_event u"
  shows "resume_token (loop_exec stop exec u) tok s = exec (handle (the (ios s tok))) s"
    and "resume_token (loop_exec stop run_handle u) tok s = Inr (s\<lparr>executed := executed s @ token_actions s tok\<rparr>)"
  using assms
  by (auto simp: served_def handles_of_def runnable_def resume_token_def loop_exec_def run_handle_def token_actions_def)

lemma resume_served:
  assumes "distinct toks" and "\<forall>tok \<in> set toks. served u s tok" and "waits u s"
    and "\<forall>h \<in> set (write_handles (loop s)). runnable u h"
    and "us_event u \<in> set toks \<longrightarrow> map_option result (ios s (us_event u)) = Some 8"
  shows "\<exists>t. fold_outcome (resume_token (loop_exec False run_handle u)) toks s = Inr t \<and> waits u t \<and>
     write_handles (loop t) = (if us_event u \<in> set toks then [] else write_handles (loop s)) \<and>
     executed t = executed s @ concat (map (token_events u s (write_handles (loop s))) toks) \<and>
     cq (loop t) = cq (loop s) \<and> handles_of (ios t) = handles_of (ios s)"
  using assms
proof (induction toks arbitrary: s)
  case (Cons tok toks)
  let ?E = "resume_token (loop_exec False run_handle u)"
  show ?case
  proof (cases "tok = us_event u")
    case True
    from resume_user_space [OF Cons.prems(3) _ Cons.prems(4)] Cons.prems(5) True obtain s1 where
      s1: "?E tok s = Inr s1" "waits u s1" "write_handles (loop s1) = []"
      "executed s1 = executed s @ queue_actions (write_handles (loop s))" "cq (loop s1) = cq (loop s)"
      "handles_of (ios s1) = handles_of (ios s)" by auto
    have nin: "us_event u \<notin> set toks" using Cons.prems(1) True by simp
    have "\<exists>t. fold_outcome ?E toks s1 = Inr t \<and> waits u t \<and>
        write_handles (loop t) = (if us_event u \<in> set toks then [] else write_handles (loop s1)) \<and>
        executed t = executed s1 @ concat (map (token_events u s1 (write_handles (loop s1))) toks) \<and>
        cq (loop t) = cq (loop s1) \<and> handles_of (ios t) = handles_of (ios s1)"
      using Cons.prems s1 nin by (intro Cons.IH) (simp_all add: served_cong [OF s1(6)])
    with s1 nin True show ?thesis
      by (auto simp: token_events_cong [OF s1(6)] token_events_def [of u s _ "us_event u"]
          token_events_other [OF nin, of s "[]" "write_handles (loop s)"])
  next
    case False
    let ?s1 = "s\<lparr>executed := executed s @ token_actions s tok\<rparr>"
    have e: "?E tok s = Inr ?s1" using Cons.prems(2) False by (intro resume_other(2)) simp_all
    have h: "handles_of (ios ?s1) = handles_of (ios s)" by simp
    have "\<exists>t. fold_outcome ?E toks ?s1 = Inr t \<and> waits u t \<and>
        write_handles (loop t) = (if us_event u \<in> set toks then [] else write_handles (loop ?s1)) \<and>
        executed t = executed ?s1 @ concat (map (token_events u ?s1 (write_handles (loop ?s1))) toks) \<and>
        cq (loop t) = cq (loop ?s1) \<and> handles_of (ios t) = handles_of (ios ?s1)"
      using Cons.prems False by (intro Cons.IH) (simp_all add: served_cong [OF h] waits_def)
    with e False show ?thesis
      by (auto simp: token_events_cong [OF h] token_events_def [of u s _ tok])
  qed
qed simp


text \<open>Completions that one pass of the loop can serve: each token once, and the read of the event descriptor
  returned its eight bytes.\<close>

definition serves :: "user_space \<Rightarrow> io_state \<Rightarrow> (addr \<times> int) list \<Rightarrow> bool" where
  "serves u s cs \<longleftrightarrow> distinct (map fst cs) \<and> (\<forall>(tok, r) \<in> set cs. served u s tok \<and> (tok = us_event u \<longrightarrow> r = 8))"

lemma serves_append: "serves u s (cs @ ds) \<Longrightarrow> serves u s cs \<and> serves u s ds"
  by (auto simp: serves_def)

lemma serves_cong:
  assumes "handles_of (ios t) = handles_of (ios s)"
  shows "serves u t = serves u s"
  by (rule ext) (simp add: serves_def served_cong [OF assms])

definition left_queued :: "user_space \<Rightarrow> (addr \<times> int) list \<Rightarrow> tagged_event list \<Rightarrow> tagged_event list" where
  "left_queued u cs q = (if us_event u \<in> fst ` set cs then [] else q)"

definition completion_actions :: "user_space \<Rightarrow> io_state \<Rightarrow> tagged_event list \<Rightarrow> (addr \<times> int) list \<Rightarrow> action list" where
  "completion_actions u s q cs = concat (map (token_events u s q) (map fst cs))"

lemma completion_actions_cong:
  assumes "handles_of (ios t) = handles_of (ios s)"
  shows "completion_actions u t q cs = completion_actions u s q cs"
  by (simp add: completion_actions_def token_events_cong [OF assms])

lemma completion_actions_append:
  assumes "distinct (map fst (cs @ ds))"
  shows "completion_actions u s q (cs @ ds) =
     completion_actions u s q cs @ completion_actions u s (left_queued u cs q) ds"
proof (cases "us_event u \<in> fst ` set cs")
  case True
  then have "us_event u \<notin> set (map fst ds)" using assms by auto
  with True token_events_other [OF this, of s q "[]"] show ?thesis
    by (simp add: completion_actions_def left_queued_def del: map_map map_eq_conv)
qed (simp add: completion_actions_def left_queued_def)

lemma batch_served:
  assumes "serves u s (cq (loop s))" and "waits u s" and "\<forall>h \<in> set (write_handles (loop s)). runnable u h"
  defines "b \<equiv> take kMaxBatch (cq (loop s))"
  shows "\<exists>t. run_batch (loop_exec False run_handle u) s = Inr t \<and> waits u t \<and>
     write_handles (loop t) = left_queued u b (write_handles (loop s)) \<and>
     executed t = executed s @ completion_actions u s (write_handles (loop s)) b \<and>
     cq (loop t) = drop kMaxBatch (cq (loop s)) \<and> handles_of (ios t) = handles_of (ios s)"
proof -
  have sv: "serves u s b" using serves_append [of u s b "drop kMaxBatch (cq (loop s))"] assms(1) by (simp add: b_def)
  have "\<forall>tok \<in> fst ` set b. tok \<noteq> null \<and> ios s tok \<noteq> None"
    using sv assms(2) by (fastforce simp: serves_def served_def waits_def handles_of_def)
  from store_results_total [OF this] sv obtain h where h: "store_results b (ios s) = Inr h"
    "handles_of h = handles_of (ios s)" "\<forall>(tok, r) \<in> set b. map_option result (h tok) = Some r"
    by (auto simp: serves_def)
  let ?s = "s\<lparr>ios := h, loop := (loop s)\<lparr>cq := drop kMaxBatch (cq (loop s))\<rparr>\<rparr>"
  have hs: "handles_of (ios ?s) = handles_of (ios s)" using h(2) by simp
  have "us_event u \<in> set (map fst b) \<longrightarrow> map_option result (ios ?s (us_event u)) = Some 8"
    using h(3) sv by (fastforce simp: serves_def)
  moreover have "distinct (map fst b)" "\<forall>tok \<in> set (map fst b). served u ?s tok"
    using sv unfolding served_cong [OF hs] by (auto simp: serves_def)
  moreover have "waits u ?s" "\<forall>h \<in> set (write_handles (loop ?s)). runnable u h"
    using assms(2,3) hs by (simp_all add: waits_def)
  ultimately obtain t where t: "fold_outcome (resume_token (loop_exec False run_handle u)) (map fst b) ?s = Inr t" "waits u t"
    "write_handles (loop t) = (if us_event u \<in> set (map fst b) then [] else write_handles (loop ?s))"
    "executed t = executed ?s @ concat (map (token_events u ?s (write_handles (loop ?s))) (map fst b))"
    "cq (loop t) = cq (loop ?s)" "handles_of (ios t) = handles_of (ios ?s)"
    using resume_served [of "map fst b" u ?s] by blast
  then show ?thesis using h(1,2)
    by (simp add: run_batch_def Let_def b_def [symmetric] waits_def submit_pending_events_def left_queued_def
        completion_actions_def token_events_cong [OF hs])
qed

lemma drain_served:
  assumes "serves u s (cq (loop s))" and "waits u s" and "\<forall>h \<in> set (write_handles (loop s)). runnable u h"
    and "length (cq (loop s)) < n"
  shows "\<exists>t. drain_completions (loop_exec False run_handle u) n s = Inr t \<and> waits u t \<and> cq (loop t) = [] \<and>
     write_handles (loop t) = left_queued u (cq (loop s)) (write_handles (loop s)) \<and>
     executed t = executed s @ completion_actions u s (write_handles (loop s)) (cq (loop s)) \<and>
     handles_of (ios t) = handles_of (ios s)"
  using assms
proof (induction n arbitrary: s)
  case (Suc n)
  show ?case
  proof (cases "cq (loop s) = []")
    case True
    then show ?thesis using Suc.prems(2) by (simp add: left_queued_def completion_actions_def)
  next
    case False
    let ?b = "take kMaxBatch (cq (loop s))" and ?d = "drop kMaxBatch (cq (loop s))"
    from batch_served [OF Suc.prems(1-3)] obtain s1 where s1:
      "run_batch (loop_exec False run_handle u) s = Inr s1" "waits u s1"
      "write_handles (loop s1) = left_queued u ?b (write_handles (loop s))"
      "executed s1 = executed s @ completion_actions u s (write_handles (loop s)) ?b"
      "cq (loop s1) = ?d" "handles_of (ios s1) = handles_of (ios s)" by blast
    have "serves u s1 (cq (loop s1))"
      using serves_append [of u s ?b ?d] Suc.prems(1) s1(5) by (simp add: serves_cong [OF s1(6)])
    moreover have "\<forall>h \<in> set (write_handles (loop s1)). runnable u h" using Suc.prems(3) s1(3) by (simp add: left_queued_def)
    moreover have "length (cq (loop s1)) < n" using False Suc.prems(4) s1(5)
      by (cases "cq (loop s)") (auto simp: kMaxBatch_def)
    ultimately obtain t where t: "drain_completions (loop_exec False run_handle u) n s1 = Inr t" "waits u t"
      "cq (loop t) = []" "write_handles (loop t) = left_queued u ?d (write_handles (loop s1))"
      "executed t = executed s1 @ completion_actions u s1 (write_handles (loop s1)) ?d"
      "handles_of (ios t) = handles_of (ios s1)" using Suc.IH [of s1] s1(2,5) by auto
    from completion_actions_append [of ?b ?d u s "write_handles (loop s)"] Suc.prems(1) t(5) s1(3,4)
    have "executed t = executed s @ completion_actions u s (write_handles (loop s)) (cq (loop s))"
      by (simp add: serves_def completion_actions_cong [OF s1(6)])
    moreover have "fst ` set (cq (loop s)) = fst ` set ?b \<union> fst ` set ?d"
      by (metis append_take_drop_id image_Un set_append)
    then have "write_handles (loop t) = left_queued u (cq (loop s)) (write_handles (loop s))"
      using t(4) s1(3) by (auto simp: left_queued_def)
    ultimately show ?thesis using False s1(1,6) t(1-3,6) by simp
  qed
qed simp

section \<open>Rounds\<close>

fun rounds_actions :: "user_space \<Rightarrow> io_state \<Rightarrow> tagged_event list \<Rightarrow> (tagged_event list \<times> (addr \<times> int) list) list \<Rightarrow> action list" where
  "rounds_actions u s q [] = []"
| "rounds_actions u s q ((qs, cs) # rs) =
     completion_actions u s (q @ qs) cs @ rounds_actions u s (left_queued u cs (q @ qs)) rs"

fun rounds_left :: "user_space \<Rightarrow> tagged_event list \<Rightarrow> (tagged_event list \<times> (addr \<times> int) list) list \<Rightarrow> tagged_event list" where
  "rounds_left u q [] = q"
| "rounds_left u q ((qs, cs) # rs) = rounds_left u (left_queued u cs (q @ qs)) rs"

definition round_ok :: "user_space \<Rightarrow> io_state \<Rightarrow> nat \<Rightarrow> tagged_event list \<times> (addr \<times> int) list \<Rightarrow> bool" where
  "round_ok u s n = (\<lambda>(qs, cs). (\<forall>h \<in> set qs. runnable u h) \<and> serves u s cs \<and> length cs < n)"

lemma rounds_actions_cong:
  assumes "handles_of (ios t) = handles_of (ios s)"
  shows "rounds_actions u t q rs = rounds_actions u s q rs"
  by (induction rs arbitrary: q) (auto simp: completion_actions_cong [OF assms])

lemma dispatch_events:
  "write_handles (fold dispatch_user_event qs l) = write_handles l @ qs"
  "read_handles (fold dispatch_user_event qs l) = read_handles l"
  "cq (fold dispatch_user_event qs l) = cq l"
  by (induction qs arbitrary: l) (simp_all add: dispatch_user_event_def dispatch_locked_def wake_def Let_def)

lemma rounds_served:
  assumes "\<forall>r \<in> set rs. round_ok u s n r" and "waits u s" and "\<forall>h \<in> set (write_handles (loop s)). runnable u h"
    and "cq (loop s) = []"
  shows "\<exists>t. run_rounds (loop_exec False run_handle u) n (map (\<lambda>(qs, cs). (qs, Arrived cs)) rs) s = Inr t \<and> waits u t \<and>
     write_handles (loop t) = rounds_left u (write_handles (loop s)) rs \<and>
     executed t = executed s @ rounds_actions u s (write_handles (loop s)) rs"
  using assms
proof (induction rs arbitrary: s)
  case (Cons r rs)
  obtain qs cs where r: "r = (qs, cs)" by force
  let ?l = "fold dispatch_user_event qs (loop s)"
  let ?s = "s\<lparr>loop := ?l\<lparr>cq := cq ?l @ cs\<rparr>\<rparr>"
  have h: "handles_of (ios ?s) = handles_of (ios s)" by simp
  have q: "write_handles (loop ?s) = write_handles (loop s) @ qs" "cq (loop ?s) = cs"
    using Cons.prems(4) by (simp_all add: dispatch_events)
  have "serves u ?s (cq (loop ?s))" "waits u ?s" "\<forall>h \<in> set (write_handles (loop ?s)). runnable u h" "length (cq (loop ?s)) < n"
    using Cons.prems r unfolding q serves_cong [OF h] by (auto simp: round_ok_def waits_def dispatch_events)
  from drain_served [OF this] obtain s1 where s1:
    "drain_completions (loop_exec False run_handle u) n ?s = Inr s1" "waits u s1" "cq (loop s1) = []"
    "write_handles (loop s1) = left_queued u cs (write_handles (loop s) @ qs)"
    "executed s1 = executed s @ completion_actions u s (write_handles (loop s) @ qs) cs"
    "handles_of (ios s1) = handles_of (ios s)"
    unfolding q by (auto simp: completion_actions_cong [OF h])
  have "\<forall>r \<in> set rs. round_ok u s1 n r" using Cons.prems(1) by (simp add: round_ok_def serves_cong [OF s1(6)])
  moreover have "\<forall>h \<in> set (write_handles (loop s1)). runnable u h"
    using Cons.prems(1,3) r s1(4) by (auto simp: left_queued_def round_ok_def)
  ultimately obtain t where t: "run_rounds (loop_exec False run_handle u) n (map (\<lambda>(qs, cs). (qs, Arrived cs)) rs) s1 = Inr t" "waits u t"
    "write_handles (loop t) = rounds_left u (write_handles (loop s1)) rs"
    "executed t = executed s1 @ rounds_actions u s1 (write_handles (loop s1)) rs" using Cons.IH [of s1] s1(2,3) by blast
  with s1 r show ?case by (simp add: Let_def rounds_actions_cong [OF s1(6)])
qed simp

lemma event_loop_run_delivers:
  assumes "read_handles (loop s) = []" and "cq (loop s) = []" and "\<forall>h \<in> set (write_handles (loop s)). runnable u h"
    and "\<forall>r \<in> set rs. round_ok u s n r"
  shows "\<exists>t. event_loop_run False run_handle u n (map (\<lambda>(qs, cs). (qs, Arrived cs)) rs) s = Inr t \<and>
     executed t = executed s @ queue_actions (write_handles (loop s)) @ rounds_actions u s [] rs \<and>
     write_handles (loop t) = rounds_left u [] rs \<and> waits u t"
proof -
  from user_space_turn_total [OF assms(1,3)] obtain s1 where s1: "user_space_turn run_handle u s = Inr s1" "waits u s1"
    "write_handles (loop s1) = []" "executed s1 = executed s @ queue_actions (write_handles (loop s))"
    "cq (loop s1) = cq (loop s)"
    "ios s1 = (ios s)(us_event u \<mapsto> \<lparr>handle = Coroutine_alt (us_frame u), result = 0\<rparr>)" by blast
  let ?s = "s1\<lparr>loop := submit_pending_events (loop s1)\<rparr>"
  have other: "handles_of (ios ?s) tok = handles_of (ios s) tok" if "tok \<noteq> us_event u" for tok
    using that s1(6) by (simp add: handles_of_def)
  have "served u ?s = served u s" by (rule ext) (use other in \<open>auto simp: served_def\<close>)
  then have "serves u ?s = serves u s" by (simp add: serves_def fun_eq_iff)
  then have ok: "\<forall>r \<in> set rs. round_ok u ?s n r" using assms(4) by (simp add: round_ok_def)
  have "token_events u ?s q = token_events u s q" for q
    by (rule ext) (use s1(6) in \<open>simp add: token_events_def token_actions_def\<close>)
  then have act: "rounds_actions u ?s q rs = rounds_actions u s q rs" for q
    by (induction rs arbitrary: q) (auto simp: completion_actions_def)
  have w: "waits u ?s" "\<forall>h \<in> set (write_handles (loop ?s)). runnable u h" "cq (loop ?s) = []"
    using s1 assms(2) by (simp_all add: waits_def submit_pending_events_def)
  have "write_handles (loop ?s) = []" using s1(3) by (simp add: submit_pending_events_def)
  with rounds_served [OF ok w] s1(1,4) show ?thesis unfolding act by (auto simp: event_loop_run_def)
qed

section \<open>Properties\<close>


section \<open>Witnesses\<close>

text \<open>A coroutine is queued at the start; another is dispatched while a third awaits a receive; both complete.\<close>

definition demo_user_space :: user_space where
  "demo_user_space = \<lparr>us_frame = 240, us_event = 248, us_counter = 256\<rparr>"


end
