(* ===== verification/Timer_Object.thy ===== *)
theory Timer_Object
  imports Timer_Service Event_Loop
begin

text \<open>
  The life of a \<open>timer_service\<close> object (\<open>src/timer_service.cpp\<close>): construction, move, the reads of its coroutine
  \<open>run\<close>, destruction; and the vector of timers of an engine, which moves them when it grows.  \<open>to_handle\<close> is the
  member \<open>handle_\<close>, the \<open>io_event\<close> of the read that is pending.
\<close>

section \<open>Objects\<close>

record timer_object =
  to_service :: timer_service
  to_handle :: addr

definition make_timer_object :: "int \<Rightarrow> timer_object" where
  "make_timer_object rc = \<lparr>to_service = init_timer_service rc, to_handle = null\<rparr>"

text \<open>The move constructor does not initialise \<open>read_buffer_\<close>; \<open>garbage\<close> is what it happens to hold.\<close>

definition move_timer :: "u64 \<Rightarrow> timer_object \<Rightarrow> timer_object \<times> timer_object" where
  "move_timer garbage other =
     (other\<lparr>to_service := (to_service other)\<lparr>read_buffer := garbage\<rparr>\<rparr>,
      other\<lparr>to_service := (to_service other)\<lparr>waiting := [], timer_fd := 0\<rparr>, to_handle := null\<rparr>)"

text \<open>What is given back: destroyed coroutines and closed descriptors.\<close>

record released =
  r_frames :: "coro list"
  r_fds :: "int list"

definition nothing_released :: released where
  "nothing_released = \<lparr>r_frames = [], r_fds = []\<rparr>"

definition destroy_timer :: "(addr \<rightharpoonup> io_event) \<Rightarrow> timer_object \<Rightarrow> released \<Rightarrow> released outcome" where
  "destroy_timer mem t rel =
     bind_outcome
       (if to_handle t \<noteq> null
        then (case mem (to_handle t) of
                None \<Rightarrow> Inl Bad_address
              | Some ev \<Rightarrow> (case handle ev of
                    Coroutine_alt co \<Rightarrow> Inr (rel\<lparr>r_frames := r_frames rel @ [co]\<rparr>)
                  | Event_alt _ \<Rightarrow> Inl Aborted))
        else Inr rel) (\<lambda>rel'.
       Inr (if timer_fd (to_service t) \<noteq> 0 then rel'\<lparr>r_fds := r_fds rel' @ [timer_fd (to_service t)]\<rparr> else rel'))"

section \<open>The reads of the timer\<close>

text \<open>The head of the loop of \<open>run\<close>: while there is a descriptor, its coroutine \<open>co\<close> awaits a read, with the
  \<open>io_event\<close> at \<open>ret\<close>; \<open>buf\<close> is the address of \<open>read_buffer_\<close>.  The bool is false when the loop is left.\<close>

definition timer_read ::
    "bool \<Rightarrow> addr \<Rightarrow> coro \<Rightarrow> addr \<Rightarrow> timer_object \<Rightarrow> io_state \<Rightarrow> (bool \<times> timer_object \<times> io_state) outcome" where
  "timer_read sqe ret co buf t s =
     (if timer_fd (to_service t) = 0 then Inr (False, t, s)
      else bind_outcome (read_await sqe ret (Coroutine_alt co) null (timer_fd (to_service t)) (buf, 8) 0 s) (\<lambda>s'.
             Inr (True, t\<lparr>to_handle := ret\<rparr>, s')))"

definition timer_resumed ::
    "(tagged_event \<Rightarrow> thread_t \<Rightarrow> 'e \<Rightarrow> 'e outcome) \<Rightarrow> int \<Rightarrow> u64 \<Rightarrow> int \<Rightarrow> itimerspec \<Rightarrow> timer_object \<Rightarrow> 'e \<Rightarrow>
     (bool \<times> timer_object \<times> 'e) outcome" where
  "timer_resumed resume rc buf gettime_rc spec t e =
     bind_outcome (run_turn resume rc buf gettime_rc spec (to_service t) e) (\<lambda>r.
       case r of
         None \<Rightarrow> Inr (False, t\<lparr>to_handle := null\<rparr>, e)
       | Some (ts, e') \<Rightarrow> Inr (True, \<lparr>to_service = ts, to_handle = null\<rparr>, e'))"

section \<open>The vector of timers\<close>

text \<open>\<open>emplace_back\<close>: when the vector has to grow, the timers are moved to new memory (\<open>garbage\<close> is what is
  there) and the old ones destroyed; \<open>clear\<close> destroys them all.\<close>

definition emplace_timer ::
    "(addr \<rightharpoonup> io_event) \<Rightarrow> u64 list option \<Rightarrow> int \<Rightarrow> timer_object list \<times> released \<Rightarrow> (timer_object list \<times> released) outcome" where
  "emplace_timer mem regrow rc = (\<lambda>(ts, rel).
     case regrow of
       None \<Rightarrow> Inr (ts @ [make_timer_object rc], rel)
     | Some garbage \<Rightarrow>
         let moved = map (\<lambda>(g, t). move_timer g t) (zip garbage ts)
         in bind_outcome (fold_outcome (destroy_timer mem) (map snd moved) rel) (\<lambda>rel'.
              Inr (map fst moved @ [make_timer_object rc], rel')))"

definition clear_timers :: "(addr \<rightharpoonup> io_event) \<Rightarrow> timer_object list \<Rightarrow> released \<Rightarrow> released outcome" where
  "clear_timers mem ts rel = fold_outcome (destroy_timer mem) ts rel"

section \<open>Every timer is released once\<close>

text \<open>The coroutine of a timer: a pending read belongs to one.\<close>

definition pending_frame :: "(addr \<rightharpoonup> io_event) \<Rightarrow> timer_object \<Rightarrow> coro list" where
  "pending_frame mem t =
     (if to_handle t = null then []
      else case mem (to_handle t) of Some ev \<Rightarrow> (case handle ev of Coroutine_alt co \<Rightarrow> [co] | _ \<Rightarrow> []) | None \<Rightarrow> [])"

definition timer_fds :: "timer_object \<Rightarrow> int list" where
  "timer_fds t = (if timer_fd (to_service t) = 0 then [] else [timer_fd (to_service t)])"

definition destroyable :: "(addr \<rightharpoonup> io_event) \<Rightarrow> timer_object \<Rightarrow> bool" where
  "destroyable mem t \<longleftrightarrow> to_handle t = null \<or>
     (\<exists>ev co. mem (to_handle t) = Some ev \<and> handle ev = Coroutine_alt co)"

lemma destroy_timer_releases:
  "destroyable mem t \<Longrightarrow> destroy_timer mem t rel =
     Inr \<lparr>r_frames = r_frames rel @ pending_frame mem t, r_fds = r_fds rel @ timer_fds t\<rparr>"
  by (auto simp: destroy_timer_def destroyable_def pending_frame_def timer_fds_def)

lemma move_timer_released:
  "timer_fds (fst (move_timer g t)) = timer_fds t" "pending_frame mem (fst (move_timer g t)) = pending_frame mem t"
  "timer_fds (snd (move_timer g t)) = []" "pending_frame mem (snd (move_timer g t)) = []"
  "destroyable mem (fst (move_timer g t)) = destroyable mem t" "destroyable mem (snd (move_timer g t))"
  "timer_inv (to_service t) \<Longrightarrow> timer_inv (to_service (fst (move_timer g t)))"
  by (simp_all add: move_timer_def timer_fds_def pending_frame_def destroyable_def timer_inv_def)

lemma clear_timers_releases:
  "\<forall>t \<in> set ts. destroyable mem t \<Longrightarrow> clear_timers mem ts rel =
     Inr \<lparr>r_frames = r_frames rel @ concat (map (pending_frame mem) ts), r_fds = r_fds rel @ concat (map timer_fds ts)\<rparr>"
  unfolding clear_timers_def
  by (induction ts arbitrary: rel) (simp_all add: destroy_timer_releases)

lemma map_moved:
  assumes "length gs = length ts" and "\<And>g t. f (fst (move_timer g t)) = f t"
  shows "map f (map fst (map (\<lambda>(g, t). move_timer g t) (zip gs ts))) = map f ts"
  using assms(1) by (induction gs ts rule: list_induct2) (auto simp: assms(2))

text \<open>Growing the vector releases nothing and keeps what every timer will release.\<close>

lemma emplace_timer_keeps:
  assumes "\<forall>g. regrow = Some g \<longrightarrow> length g = length ts"
  shows "\<exists>ts'. emplace_timer mem regrow rc (ts, rel) = Inr (ts' @ [make_timer_object rc], rel) \<and>
     map timer_fds ts' = map timer_fds ts \<and> map (pending_frame mem) ts' = map (pending_frame mem) ts \<and>
     map (destroyable mem) ts' = map (destroyable mem) ts"
proof (cases regrow)
  case (Some g)
  let ?m = "map (\<lambda>(g, t). move_timer g t) (zip g ts)"
  have len: "length g = length ts" using assms Some by simp
  have "clear_timers mem (map snd ?m) rel =
      Inr \<lparr>r_frames = r_frames rel @ concat (map (pending_frame mem) (map snd ?m)),
        r_fds = r_fds rel @ concat (map timer_fds (map snd ?m))\<rparr>"
    by (rule clear_timers_releases) (auto simp: move_timer_released)
  moreover have "map (pending_frame mem) (map snd ?m) = map (\<lambda>_. []) ?m" "map timer_fds (map snd ?m) = map (\<lambda>_. []) ?m"
    by (auto simp: move_timer_released)
  ultimately have "fold_outcome (destroy_timer mem) (map snd ?m) rel = Inr rel"
    by (simp add: clear_timers_def del: map_map)
  moreover note moved = map_moved [OF len, of timer_fds] map_moved [OF len, of "pending_frame mem"]
    map_moved [OF len, of "destroyable mem"]
  ultimately show ?thesis using Some
    by (intro exI [of _ "map fst ?m"])
      (simp add: emplace_timer_def Let_def moved(1) [OF move_timer_released(1)] moved(2) [OF move_timer_released(2)]
        moved(3) [OF move_timer_released(5)] del: map_map)
qed (simp add: emplace_timer_def)

end
