(* ===== verification/Timer_Trace.thy ===== *)
theory Timer_Trace
  imports Timer_Service "HOL-Library.Multiset"
begin

text \<open>
  The timer service over any sequence of its operations.  \<open>tr_timer\<close> is the service; the rest is history: \<open>tr_base\<close>
  is the time that had passed at the last reset of its clock, so that \<open>tr_base\<close> and the clock together are the time
  that the timer has measured; \<open>tr_waited\<close> are the events that were given to \<open>wait\<close>, each with the time at
  which it is due, and \<open>tr_resumed\<close> the events that were handed to the engine, each with the time of its mark in
  the map and the time at which it was resumed.
\<close>

section \<open>Traces\<close>

datatype timer_op =
    Op_wait thread_t tagged_event u64 thread_t
  | Op_turn int u64 int itimerspec

record timer_trace =
  tr_timer :: timer_service
  tr_base :: nat
  tr_waited :: "(nat \<times> tagged_event) list"
  tr_resumed :: "(nat \<times> nat \<times> tagged_event) list"

definition measured :: "timer_trace \<Rightarrow> nat" where
  "measured s = tr_base s + unat (current (tr_timer s))"

definition log_resume :: "tagged_event \<Rightarrow> thread_t \<Rightarrow> tagged_event list \<Rightarrow> tagged_event list outcome" where
  "log_resume h th l = Inr (l @ [h])"

text \<open>The events in the map, in order, each with the time of its mark.\<close>

definition due_list :: "nat \<Rightarrow> (u64 \<times> bucket) list \<Rightarrow> (nat \<times> tagged_event) list" where
  "due_list base m = concat (map (\<lambda>(k, hs). map (\<lambda>(h, th). (base + unat k, h)) hs) m)"

text \<open>A turn that ends the loop of \<open>run\<close> leaves the service as it is.\<close>

fun timer_do :: "timer_op \<Rightarrow> timer_trace \<Rightarrow> timer_trace outcome" where
  "timer_do (Op_wait cur h ns th) s =
     bind_outcome (wait cur h ns th (tr_timer s)) (\<lambda>t.
       Inr (s\<lparr>tr_timer := t, tr_waited := tr_waited s @ [(measured s + unat ns, h)]\<rparr>))"
| "timer_do (Op_turn rc buf grc spec) s =
     bind_outcome (run_turn log_resume rc buf grc spec (tr_timer s) []) (\<lambda>r.
       case r of
         None \<Rightarrow> Inr s
       | Some (t, hs) \<Rightarrow>
           let now = measured s + unat (interval_ns spec) * unat buf
           in Inr (s\<lparr>tr_timer := t, tr_base := now - unat (current t), 
                      tr_resumed := tr_resumed s @ map2 (\<lambda>(due, _) h. (due, now, h)) (due_list (tr_base s) (waiting (tr_timer s))) hs\<rparr>))"

text \<open>The clock is 64 bit wide: no delay and no expiration takes it past its end.  A delay of zero does not
  reach the timer.\<close>

fun op_ok :: "timer_op \<Rightarrow> timer_service \<Rightarrow> bool" where
  "op_ok (Op_wait cur h ns th) t \<longleftrightarrow> ns \<noteq> 0 \<and> unat (current t) + unat ns < 2 ^ 64"
| "op_ok (Op_turn rc buf grc spec) t \<longleftrightarrow> unat (current t) + unat (interval_ns spec) * unat buf < 2 ^ 64"

fun timer_run :: "timer_op list \<Rightarrow> timer_trace \<Rightarrow> timer_trace outcome" where
  "timer_run [] s = Inr s"
| "timer_run (x # xs) s =
     (if op_ok x (tr_timer s) then bind_outcome (timer_do x s) (timer_run xs) else Inl Assertion_failed)"

definition trace_init :: "int \<Rightarrow> timer_trace" where
  "trace_init rc = \<lparr>tr_timer = init_timer_service rc, tr_base = 0, tr_waited = [], tr_resumed = []\<rparr>"

section \<open>What is due\<close>

lemma due_list_simps [simp]:
  "due_list b [] = []"
  "due_list b ((k, hs) # m) = map (\<lambda>(h, th). (b + unat k, h)) hs @ due_list b m"
  "due_list b (m @ m') = due_list b m @ due_list b m'"
  by (simp_all add: due_list_def)

lemma due_list_insert:
  "map_of m k = None \<Longrightarrow> mset (due_list b (insert_key k [(h, th)] m)) = add_mset (b + unat k, h) (mset (due_list b m))"
  by (induction m) auto

lemma due_list_update:
  "map_of m k \<noteq> None \<Longrightarrow>
   mset (due_list b (update_key k (\<lambda>hs. hs @ [(h, th)]) m)) = add_mset (b + unat k, h) (mset (due_list b m))"
proof (induction m)
  case (Cons x m)
  obtain l hs where "x = (l, hs)" by force
  with Cons show ?case by (cases "k = l") auto
qed simp

lemma ascending_split: "ascending m \<Longrightarrow> filter (\<lambda>(k, _). k \<le> c) m @ filter (\<lambda>(k, _). c < k) m = m"
proof (induction m)
  case (Cons x m)
  obtain l hs where x: "x = (l, hs)" by force
  show ?case
  proof (cases "l \<le> c")
    case False
    with Cons.prems x have "\<forall>y \<in> set (x # m). c < fst y" by auto
    then have "filter (\<lambda>(k, _). k \<le> c) (x # m) = []" "filter (\<lambda>(k, _). c < k) (x # m) = x # m"
      by (auto simp: filter_empty_conv filter_id_conv split: prod.splits)
    then show ?thesis by simp
  qed (use Cons x in auto)
qed simp

lemma due_list_member: "x \<in> set (due_list b m) \<Longrightarrow> \<exists>k hs. (k, hs) \<in> set m \<and> fst x = b + unat k"
  by (fastforce simp: due_list_def)

lemma due_list_events: "map snd (due_list b m) = map fst (concat (map snd m))"
  by (induction m) auto

lemma log_all: "fold_outcome (\<lambda>(h, th). log_resume h th) xs l = Inr (l @ map fst xs)"
  by (induction xs arbitrary: l) (auto simp: log_resume_def)

section \<open>The invariant of a trace\<close>

definition trace_inv :: "timer_trace \<Rightarrow> bool" where
  "trace_inv s \<longleftrightarrow> timer_inv (tr_timer s) \<and>
     mset (tr_waited s) =
       mset (map (\<lambda>(due, now, h). (due, h)) (tr_resumed s)) + mset (due_list (tr_base s) (waiting (tr_timer s))) \<and>
     (\<forall>(due, now, h) \<in> set (tr_resumed s). due \<le> now \<and> now \<le> measured s)"

lemma trace_inv_init: "trace_inv (trace_init rc)"
  by (simp add: trace_inv_def trace_init_def timer_inv_init) (simp add: init_timer_service_def)

lemma trace_inv_wait:
  assumes inv: "trace_inv s" and ok: "op_ok (Op_wait cur h ns th) (tr_timer s)"
    and d: "timer_do (Op_wait cur h ns th) s = Inr s'"
  shows "trace_inv s'"
proof -
  let ?t = "tr_timer s"
  obtain t where t: "wait cur h ns th ?t = Inr t"
    "s' = s\<lparr>tr_timer := t, tr_waited := tr_waited s @ [(measured s + unat ns, h)]\<rparr>" using d by auto
  have "timer_inv t" using inv ok t(1) by (auto simp: trace_inv_def intro: wait_inv)
  moreover have cur: "current t = current ?t"
    using t(1) by (auto simp: timer_defs Let_def split: option.splits if_splits)
  moreover have k: "unat (current ?t + ns) = unat (current ?t) + unat ns"
    using ok by (intro unat_add_no_wrap) simp
  have "mset (due_list (tr_base s) (waiting t)) = add_mset (measured s + unat ns, h) (mset (due_list (tr_base s) (waiting ?t)))"
  proof (cases "map_of (waiting ?t) (current ?t + ns)")
    case None
    then have "waiting t = insert_key (current ?t + ns) [(h, cur)] (waiting ?t)"
      using t(1) by (auto simp: timer_defs Let_def split: if_splits)
    then show ?thesis using due_list_insert [OF None] k by (simp add: measured_def)
  next
    case (Some hs)
    then have "waiting t = update_key (current ?t + ns) (\<lambda>hs. hs @ [(h, th)]) (waiting ?t)"
      using t(1) by (auto simp: timer_defs Let_def)
    then show ?thesis using due_list_update [of "waiting ?t" "current ?t + ns"] Some k by (simp add: measured_def)
  qed
  ultimately show ?thesis using inv t(2) by (simp add: trace_inv_def measured_def)
qed

text \<open>What a turn of the loop does, when it reads an expiration.\<close>

lemma run_turn_log:
  assumes "timer_inv t" and "buf \<noteq> 0" and r: "run_turn log_resume rc buf grc spec t [] = Inr (Some (t', hs))"
  defines "c \<equiv> current t + interval_ns spec * buf"
  shows "waiting t' = filter (\<lambda>(k, _). c < k) (waiting t)"
    and "hs = map fst (concat (map snd (filter (\<lambda>(k, _). k \<le> c) (waiting t))))"
    and "current t' = (if waiting t' = [] then 0 else c)"
  using assms(1-3) unfolding c_def
  by (auto simp: timer_defs Let_def expire_spec timer_inv_def log_all split: if_splits)


lemma map2_prefix: "map2 f (xs @ ys) (map snd xs) = map (\<lambda>x. f x (snd x)) xs"
  by (induction xs) auto

lemma trace_inv_turn:
  assumes inv: "trace_inv s" and ok: "op_ok (Op_turn rc buf grc spec) (tr_timer s)"
    and d: "timer_do (Op_turn rc buf grc spec) s = Inr s'"
  shows "trace_inv s' \<and> measured s \<le> measured s' \<and>
     (tr_timer s' = tr_timer s \<or> measured s' = measured s + unat (interval_ns spec) * unat buf)"
proof -
  let ?t = "tr_timer s" and ?m = "waiting (tr_timer s)" and ?b = "tr_base s"
  have ti: "timer_inv ?t" and asc: "ascending ?m" using inv by (simp_all add: trace_inv_def timer_inv_def)
  consider "s' = s" | t hs where "run_turn log_resume rc buf grc spec ?t [] = Inr (Some (t, hs))" "s' \<noteq> s"
    using d by (auto split: option.splits prod.splits)
  then show ?thesis
  proof cases
    case 1
    then show ?thesis using inv by simp
  next
    case 2
    let ?c = "current ?t + interval_ns spec * buf"
    define now where "now = measured s + unat (interval_ns spec) * unat buf"
    let ?A = "due_list ?b (filter (\<lambda>(k, _). k \<le> ?c) ?m)"
    have s': "s' = s\<lparr>tr_timer := t, tr_base := now - unat (current t),
        tr_resumed := tr_resumed s @ map2 (\<lambda>(due, _) h. (due, now, h)) (due_list ?b ?m) hs\<rparr>"
      using d 2 by (simp add: now_def Let_def)
    have "buf = 0 \<or> 0 \<le> grc" using 2(1) by (auto simp: run_turn_def Let_def split: if_splits)
    then have tok: "timer_inv t" by (rule run_turn_inv [OF ti _ 2(1)])
    show ?thesis
    proof (cases "buf = 0")
      case True
      with 2 have "t = ?t\<lparr>read_buffer := 0\<rparr>" "hs = []" by (auto simp: run_turn_def split: if_splits)
      then show ?thesis using inv tok s' True by (simp add: trace_inv_def measured_def now_def)
    next
      case False
      note T = run_turn_log [OF ti False 2(1)]
      have c: "unat ?c = unat (current ?t) + unat (interval_ns spec) * unat buf"
        using ok by (simp add: unat_word_ariths)
      then have now: "now = ?b + unat ?c" by (simp add: now_def measured_def)
      have split: "due_list ?b ?m = ?A @ due_list ?b (waiting t)"
        using ascending_split [OF asc, of ?c] T(1) by (metis due_list_simps(3))
      have res: "map2 (\<lambda>(due, _) h. (due, now, h)) (due_list ?b ?m) hs = map (\<lambda>(due, h). (due, now, h)) ?A"
        unfolding split T(2) due_list_events [of ?b, symmetric] map2_prefix by (auto simp: case_prod_beta)
      have "fst x \<le> now" if "x \<in> set ?A" for x
        using due_list_member [OF that] now by (auto simp: word_le_nat_alt)
      then have le: "\<forall>(due, n, h) \<in> set (map (\<lambda>(due, h). (due, now, h)) ?A). due \<le> n \<and> n \<le> now" by auto
      have mes: "measured s' = now" using s' T(3) now by (simp add: measured_def)
      moreover have "due_list (tr_base s') (waiting t) = due_list ?b (waiting t)" using s' T(3) now by auto
      moreover have "mset (tr_waited s) = mset (map (\<lambda>(due, now, h). (due, h)) (tr_resumed s)) + mset ?A + mset (due_list ?b (waiting t))"
        using inv split by (simp add: trace_inv_def)
      moreover have "\<forall>(due, n, h) \<in> set (tr_resumed s). due \<le> n \<and> n \<le> now"
        using inv now c by (force simp: trace_inv_def measured_def)
      ultimately show ?thesis using s' tok res le now c
        by (auto simp: trace_inv_def measured_def comp_def case_prod_beta)
    qed
  qed
qed

lemma timer_run_inv:
  assumes "timer_run xs s = Inr s'" and "trace_inv s"
  shows "trace_inv s'"
  using assms
proof (induction xs arbitrary: s)
  case (Cons x xs)
  then obtain s1 where s1: "op_ok x (tr_timer s)" "timer_do x s = Inr s1" "timer_run xs s1 = Inr s'"
    by (auto split: if_splits)
  have "trace_inv s1"
  proof (cases x)
    case Op_wait
    with s1 Cons.prems(2) trace_inv_wait show ?thesis by blast
  next
    case Op_turn
    with s1 Cons.prems(2) trace_inv_turn show ?thesis by blast
  qed
  with Cons.IH s1(3) show ?case by blast
qed simp

section \<open>Expirations of the armed timer\<close>

text \<open>The timer expires once after the interval that it was set to, again and again.\<close>

fun expirations :: "nat \<Rightarrow> timer_trace \<Rightarrow> timer_trace outcome" where
  "expirations 0 s = Inr s"
| "expirations (Suc n) s =
     bind_outcome (timer_do (Op_turn 8 1 0 (timer_spec (tr_timer s))) s) (expirations n)"

lemma expiration_first_mark:
  assumes "trace_inv s" and "0 \<le> settime_rc (tr_timer s)" and w: "waiting (tr_timer s) = (k, hs) # m"
  shows "\<exists>s'. timer_do (Op_turn 8 1 0 (timer_spec (tr_timer s))) s = Inr s' \<and> trace_inv s' \<and>
     waiting (tr_timer s') = m \<and> settime_rc (tr_timer s') = settime_rc (tr_timer s) \<and> tr_waited s' = tr_waited s \<and>
     (m \<noteq> [] \<longrightarrow> tr_base s' = tr_base s) \<and>
     tr_resumed s' = tr_resumed s @ map (\<lambda>(due, h). (due, due, h)) (due_list (tr_base s) [(k, hs)])"
proof -
  let ?t = "tr_timer s" and ?b = "tr_base s"
  have ti: "timer_inv ?t" using assms(1) by (simp add: trace_inv_def)
  then have lt: "current ?t < k" using w by (auto simp: timer_inv_def)
  have "interval_ns (timer_spec ?t) = k - current ?t" using due_first_bucket(1) [OF ti w] by (simp add: algebra_simps)
  with lt have sum: "unat (current ?t) + unat (interval_ns (timer_spec ?t)) = unat k"
    by (simp add: unat_sub_le word_less_nat_alt word_le_nat_alt)
  then have ok: "op_ok (Op_turn 8 1 0 (timer_spec ?t)) ?t" using unsigned_less [of k] by simp
  let ?t' = "if m = [] then ?t\<lparr>read_buffer := 1, waiting := [], current := 0, timer_spec := disarmed\<rparr>
         else ?t\<lparr>read_buffer := 1, current := k, waiting := m, timer_spec := timer_setting (fst (hd m) - k)\<rparr>"
  have run: "run_turn log_resume 8 1 0 (timer_spec ?t) ?t [] = Inr (Some (?t', map fst hs))"
    using run_turn_first_mark [OF ti w _ assms(2), of 0 log_resume "[]"] by (simp add: log_all)
  have mes: "measured s + unat (interval_ns (timer_spec ?t)) = ?b + unat k" using sum by (simp add: measured_def)
  have res: "map2 (\<lambda>(due, _) h. (due, ?b + unat k, h)) (due_list ?b (waiting ?t)) (map fst hs) =
      map (\<lambda>(due, h). (due, due, h)) (due_list ?b [(k, hs)])"
  proof -
    have "map fst hs = map snd (due_list ?b [(k, hs)])" by auto
    moreover have "due_list ?b (waiting ?t) = due_list ?b [(k, hs)] @ due_list ?b m" using w by simp
    ultimately show ?thesis by (simp only: map2_prefix) (auto simp: case_prod_beta)
  qed
  let ?s' = "s\<lparr>tr_timer := ?t', tr_base := ?b + unat k - unat (current ?t'),
      tr_resumed := tr_resumed s @ map (\<lambda>(due, h). (due, due, h)) (due_list ?b [(k, hs)])\<rparr>"
  have d: "timer_do (Op_turn 8 1 0 (timer_spec ?t)) s = Inr ?s'"
    using run mes res by (simp add: Let_def)
  from trace_inv_turn [OF assms(1) ok d] have "trace_inv ?s'" by blast
  then show ?thesis using d by (intro exI [of _ ?s']) auto
qed

lemma expirations_drain:
  assumes "trace_inv s" and "0 \<le> settime_rc (tr_timer s)"
  shows "\<exists>s'. expirations (length (waiting (tr_timer s))) s = Inr s' \<and> trace_inv s' \<and>
     waiting (tr_timer s') = [] \<and> tr_waited s' = tr_waited s \<and>
     tr_resumed s' = tr_resumed s @ map (\<lambda>(due, h). (due, due, h)) (due_list (tr_base s) (waiting (tr_timer s)))"
  using assms
proof (induction "waiting (tr_timer s)" arbitrary: s)
  case (Cons x m)
  obtain k hs where w: "waiting (tr_timer s) = (k, hs) # m" using Cons.hyps(2) by (metis surj_pair)
  from expiration_first_mark [OF Cons.prems w] obtain s1 where
    s1: "timer_do (Op_turn 8 1 0 (timer_spec (tr_timer s))) s = Inr s1" "trace_inv s1" "waiting (tr_timer s1) = m"
    "settime_rc (tr_timer s1) = settime_rc (tr_timer s)" "tr_waited s1 = tr_waited s"
    "m \<noteq> [] \<longrightarrow> tr_base s1 = tr_base s"
    "tr_resumed s1 = tr_resumed s @ map (\<lambda>(due, h). (due, due, h)) (due_list (tr_base s) [(k, hs)])" by blast
  from Cons.hyps(1) [of s1] s1(2-4) Cons.prems(2) obtain s' where
    s': "expirations (length m) s1 = Inr s'" "trace_inv s'" "waiting (tr_timer s') = []" "tr_waited s' = tr_waited s1"
    "tr_resumed s' = tr_resumed s1 @ map (\<lambda>(due, h). (due, due, h)) (due_list (tr_base s1) m)" by auto
  have "due_list (tr_base s1) m = due_list (tr_base s) m" using s1(6) by (cases m) auto
  with s1(1,5,7) s' w show ?case by (simp del: timer_do.simps bind_outcome_eq_Inr)
qed (auto intro: sym)

section \<open>Properties\<close>

text \<open>C8: Over any sequence of waits and expirations, as long as the 64 bit clock does not overflow, the timer
  service loses no event and resumes none twice: what was given to \<open>wait\<close> is what was resumed and what is
  still in the map, each with the time at which it is due.  No event is resumed before it is due on the service's
  clock, and every event that still waits is due in the future, so each is resumed at the first expiration that
  reaches its mark.\<close>

theorem timer_resumes_exactly_due:
  assumes "timer_run xs (trace_init rc) = Inr s"
  shows "mset (tr_waited s) =
       mset (map (\<lambda>(due, now, h). (due, h)) (tr_resumed s)) + mset (due_list (tr_base s) (waiting (tr_timer s))) \<and>
     (\<forall>(due, now, h) \<in> set (tr_resumed s). due \<le> now \<and> now \<le> measured s) \<and>
     (\<forall>(due, h) \<in> set (due_list (tr_base s) (waiting (tr_timer s))). measured s < due) \<and>
     timer_inv (tr_timer s)"
proof -
  have inv: "trace_inv s" by (rule timer_run_inv [OF assms trace_inv_init])
  have "measured s < fst x" if "x \<in> set (due_list (tr_base s) (waiting (tr_timer s)))" for x
  proof -
    obtain k hs where k: "(k, hs) \<in> set (waiting (tr_timer s))" "fst x = tr_base s + unat k"
      using due_list_member [OF \<open>x \<in> _\<close>] by blast
    then have "current (tr_timer s) < k" using inv by (auto simp: trace_inv_def timer_inv_def)
    with k(2) show ?thesis by (simp add: measured_def word_less_nat_alt)
  qed
  with inv show ?thesis by (fastforce simp: trace_inv_def)
qed


section \<open>Witnesses\<close>

text \<open>Two waits for the same mark, one for an earlier one, and the first expiration.\<close>

definition demo_ops :: "timer_op list" where
  "demo_ops = [Op_wait (Thread_t 0) (Coroutine_alt 8) 9 (Thread_t 0), Op_wait (Thread_t 0) (Coroutine_alt 16) 4 (Thread_t 1),
     Op_wait (Thread_t 0) (Coroutine_alt 24) 9 (Thread_t 1), Op_turn 8 1 0 (timer_setting 4)]"

lemma demo_ops_run:
  "\<exists>s. timer_run demo_ops (trace_init 0) = Inr s \<and> tr_resumed s = [(4, 4, Coroutine_alt 16)] \<and> tr_base s = 0 \<and>
     waiting (tr_timer s) = [(9, [(Coroutine_alt 8, Thread_t 0), (Coroutine_alt 24, Thread_t 1)])] \<and>
     settime_rc (tr_timer s) = 0"
  by (simp add: demo_ops_def trace_init_def init_timer_service_def timer_defs Let_def log_resume_def measured_def
      due_list_def timer_setting_def interval_ns_def kNanoInSeconds_def)

theorem timer_resumes_exactly_due_witness:
  "\<exists>s. timer_run demo_ops (trace_init 0) = Inr s \<and>
     mset (tr_waited s) = {#(4, Coroutine_alt 16), (9, Coroutine_alt 8), (9, Coroutine_alt 24)#} \<and> measured s < 9"
proof -
  obtain s where s: "timer_run demo_ops (trace_init 0) = Inr s" "tr_resumed s = [(4, 4, Coroutine_alt 16)]" "tr_base s = 0"
    "waiting (tr_timer s) = [(9, [(Coroutine_alt 8, Thread_t 0), (Coroutine_alt 24, Thread_t 1)])]"
    using demo_ops_run by blast
  from timer_resumes_exactly_due [OF s(1)] s show ?thesis by auto
qed


end
