(* ===== verification/Latch_Steps.thy ===== *)
theory Latch_Steps
  imports Async_Latch
begin

text \<open>
  Threads that use one latch concurrently, one atomic access at a time: the counter of \<open>Async_Latch\<close> beside the
  steps of its pause token (\<open>pt_step\<close>).  A caller of \<open>count_down\<close> subtracts in one step; one that has to open the
  latch is then counted in \<open>l_openers\<close> until it calls \<open>unpause()\<close>.  The other steps of the token are those of
  coroutines that wait and of the call of \<open>unpause()\<close> on its way through its list; a latch never calls
  \<open>pause()\<close>.

  Auxiliary: how much was subtracted, and how many calls had to open.
\<close>

section \<open>Steps\<close>

record latch_conc =
  l_count :: "64 word"
  l_token :: pt_conc
  l_openers :: nat
  l_total :: int
  l_opened :: nat

text \<open>A step of the token that is neither the exchange of \<open>unpause()\<close> nor a part of \<open>pause()\<close>.\<close>

definition waiter_step :: "pt_conc \<Rightarrow> pt_conc \<Rightarrow> bool" where
  "waiter_step t t' \<longleftrightarrow> pt_step t t' \<and> (c_resuming t' = kUnpausedFlag \<longleftrightarrow> c_resuming t = kUnpausedFlag) \<and>
     (\<forall>c. Clearing c \<notin># c_agents t')"

definition unpause_exchange :: "pt_conc \<Rightarrow> pt_conc" where
  "unpause_exchange t = t\<lparr>c_resuming := kUnpausedFlag, c_stack := [],
     c_agents := (if c_resuming t = kUnpausedFlag then c_agents t
                  else add_mset (Unpausing (c_resuming t) (c_stack t)) (c_agents t))\<rparr>"

inductive latch_step :: "latch_conc \<Rightarrow> latch_conc \<Rightarrow> bool" where
  latch_count: "0 \<le> sint amount \<Longrightarrow>
     latch_step s (s\<lparr>l_count := l_count s - amount, l_total := l_total s + sint amount,
       l_openers := l_openers s + (if opens (l_count s) amount then 1 else 0),
       l_opened := l_opened s + (if opens (l_count s) amount then 1 else 0)\<rparr>)"
| latch_open: "l_openers s = Suc n \<Longrightarrow>
     latch_step s (s\<lparr>l_token := unpause_exchange (l_token s), l_openers := n\<rparr>)"
| latch_token: "waiter_step (l_token s) t \<Longrightarrow> latch_step s (s\<lparr>l_token := t\<rparr>)"

definition latch_init :: "64 word \<Rightarrow> latch_conc" where
  "latch_init start = \<lparr>l_count = start, l_token = pt_init, l_openers = 0, l_total = 0, l_opened = 0\<rparr>"

definition latch_reachable :: "64 word \<Rightarrow> latch_conc \<Rightarrow> bool" where
  "latch_reachable start s \<longleftrightarrow> latch_step\<^sup>*\<^sup>* (latch_init start) s"

section \<open>Invariant\<close>

text \<open>A token that was never unpaused: nobody has seen it open and nobody was resumed.\<close>

definition still_closed :: "pt_conc \<Rightarrow> bool" where
  "still_closed t \<longleftrightarrow> c_resuming t \<noteq> kUnpausedFlag \<and> c_resumed t = {#} \<and>
     (\<forall>a. Pausing a kUnpausedFlag \<notin># c_agents t) \<and> (\<forall>p xs. Unpausing p xs \<notin># c_agents t)"

definition latch_inv :: "64 word \<Rightarrow> latch_conc \<Rightarrow> bool" where
  "latch_inv start s \<longleftrightarrow> pt_inv (l_token s) \<and> (\<forall>c. Clearing c \<notin># c_agents (l_token s)) \<and>
     (if l_openers s < l_opened s then c_resuming (l_token s) = kUnpausedFlag
      else still_closed (l_token s) \<and> l_openers s = l_opened s) \<and> 0 \<le> l_total s \<and>
     (l_total s \<le> 2 ^ 63 \<longrightarrow> sint (l_count s) = sint start - l_total s \<and>
        l_opened s = (if sint start \<le> l_total s then 1 else 0))"

lemma aligned_not_flag: "a AND kUnpausedFlag = 0 \<Longrightarrow> a \<noteq> kUnpausedFlag"
  by (auto simp: kUnpausedFlag_def)

lemma waiter_step_closed:
  assumes "waiter_step t t'" and "still_closed t" and "pt_inv t"
  shows "still_closed t'"
proof -
  have "pt_step t t'" "c_resuming t' \<noteq> kUnpausedFlag" using assms(1,2) by (auto simp: waiter_step_def still_closed_def)
  then show ?thesis using assms(2)
    by cases (auto simp: still_closed_def)
qed

lemma latch_step_inv:
  assumes "latch_step s t" and "latch_inv start s" and "0 < sint start"
  shows "latch_inv start t"
  using assms(1)
proof cases
  case (latch_count amount)
  have num: "sint (l_count s - amount) = sint start - (l_total s + sint amount)" "sint (l_count s) = sint start - l_total s"
    if "l_total s + sint amount \<le> 2 ^ 63"
  proof -
    show c: "sint (l_count s) = sint start - l_total s" using that latch_count(2) assms(2) by (auto simp: latch_inv_def)
    have "- (2 ^ 63) \<le> sint (l_count s) - sint amount" "sint (l_count s) - sint amount < 2 ^ 63"
      using that c assms latch_count(2) sint_lt [of start] by (auto simp: latch_inv_def)
    from sint_sub_exact [OF this] c show "sint (l_count s - amount) = sint start - (l_total s + sint amount)" by simp
  qed
  have "opens (l_count s) amount \<longleftrightarrow> l_total s < sint start \<and> sint start \<le> l_total s + sint amount"
    if "l_total s + sint amount \<le> 2 ^ 63" using num(2) [OF that] by (auto simp: opens_def)
  with num latch_count assms(2) show ?thesis
    by (auto simp: latch_inv_def split: if_splits)
next
  case (latch_open n)
  have "pt_inv (unpause_exchange (l_token s))"
    using assms(2) pt_inv_unpause [of "l_token s"] by (simp add: latch_inv_def unpause_exchange_def)
  moreover have "c_resuming (unpause_exchange (l_token s)) = kUnpausedFlag"
    "\<forall>c. Clearing c \<notin># c_agents (unpause_exchange (l_token s))"
    using assms(2) by (auto simp: unpause_exchange_def latch_inv_def)
  ultimately show ?thesis using latch_open assms(2) by (auto simp: latch_inv_def split: if_splits)
next
  case (latch_token t')
  have "pt_inv t'" using latch_token assms(2) pt_step_inv by (auto simp: latch_inv_def waiter_step_def)
  then show ?thesis using latch_token assms(2) waiter_step_closed [OF latch_token(2)]
    by (auto simp: latch_inv_def waiter_step_def split: if_splits)
qed

lemma latch_init_inv: "0 < sint start \<Longrightarrow> latch_inv start (latch_init start)"
  using pt_reachable_inv [OF pt_start]
  by (simp add: latch_inv_def latch_init_def still_closed_def) (simp add: pt_init_def kUnpausedFlag_def)

lemma latch_reachable_inv:
  assumes "latch_reachable start s" and "0 < sint start"
  shows "latch_inv start s"
  using assms(1) unfolding latch_reachable_def
  by (induction rule: rtranclp_induct) (use assms(2) latch_init_inv latch_step_inv in blast)+

section \<open>An open latch lets everybody go\<close>

fun agent_work :: "pt_agent \<Rightarrow> nat" where
  "agent_work (Pausing a previous) = (if previous = kUnpausedFlag then 1 else 2)"
| "agent_work (Unpausing p xs) = Suc (length xs)"
| "agent_work (Clearing c) = 0"

definition token_work :: "pt_conc \<Rightarrow> nat" where
  "token_work t = \<Sum>\<^sub># (image_mset agent_work (c_agents t))"

lemma open_stepI:
  assumes "pt_step t t'" and "c_resuming t = kUnpausedFlag" and "c_resuming t' = kUnpausedFlag"
    and "\<forall>c. Clearing c \<notin># c_agents t'" and "token_work t' < token_work t" and "c_suspended t' = c_suspended t"
  shows "\<exists>t'. waiter_step t t' \<and> token_work t' < token_work t \<and> c_resuming t' = kUnpausedFlag \<and>
     c_suspended t' = c_suspended t"
  using assms by (intro exI [of _ t']) (auto simp: waiter_step_def)

lemma open_token_step:
  assumes inv: "pt_inv t" and r: "c_resuming t = kUnpausedFlag" and cl: "\<forall>c. Clearing c \<notin># c_agents t" and ne: "c_agents t \<noteq> {#}"
  shows "\<exists>t'. waiter_step t t' \<and> token_work t' < token_work t \<and> c_resuming t' = kUnpausedFlag \<and>
     c_suspended t' = c_suspended t"
proof -
  from ne obtain g A where A: "c_agents t = add_mset g A" by (meson multiset_cases)
  have clA: "\<forall>c. Clearing c \<notin># A" using cl A by auto
  show ?thesis
  proof (cases g)
    case (Pausing a previous)
    note g = A [unfolded Pausing]
    obtain w where w: "c_heap t a = Some w" using pt_inv_disown(7) [OF inv g] by blast
    show ?thesis
    proof (cases "previous = kUnpausedFlag")
      case True
      show ?thesis by (rule open_stepI [OF pt_reject [OF g [unfolded True]] r]) (use clA r g True in \<open>auto simp: token_work_def\<close>)
    next
      case False
      show ?thesis by (rule open_stepI [OF pt_retry [OF g False w] r]) (use clA r g False in \<open>auto simp: token_work_def\<close>)
    qed
  next
    case (Unpausing p xs)
    note g = A [unfolded Unpausing]
    have ch: "chain (pauser_next (c_heap t)) p xs null" using inv g by (simp add: pt_inv_def)
    show ?thesis
    proof (cases "p = null")
      case True
      show ?thesis by (rule open_stepI [OF pt_unpause_end [OF g [unfolded True]] r]) (use clA r g in \<open>auto simp: token_work_def\<close>)
    next
      case False
      with ch obtain ys where xs: "xs = p # ys" by (cases xs) auto
      with ch obtain w where w: "c_heap t p = Some w" by (auto simp: pauser_next_def)
      show ?thesis by (rule open_stepI [OF pt_resume [OF g False w] r]) (use clA r g xs in \<open>auto simp: token_work_def\<close>)
    qed
  next
    case (Clearing c)
    then show ?thesis using cl A by auto
  qed
qed

lemma open_token_settles:
  assumes "pt_inv t" and "c_resuming t = kUnpausedFlag" and "\<forall>c. Clearing c \<notin># c_agents t"
  shows "\<exists>t'. waiter_step\<^sup>*\<^sup>* t t' \<and> c_agents t' = {#} \<and> c_resuming t' = kUnpausedFlag \<and>
     c_suspended t' = c_suspended t \<and> c_resumed t' = c_suspended t"
  using assms
proof (induction "token_work t" arbitrary: t rule: less_induct)
  case less
  show ?case
  proof (cases "c_agents t = {#}")
    case True
    with less.prems have "c_resumed t = c_suspended t" by (simp add: pt_inv_def stack_ok_def)
    with True less.prems show ?thesis by auto
  next
    case False
    from open_token_step [OF less.prems False] obtain t1 where
      t1: "waiter_step t t1" "token_work t1 < token_work t" "c_resuming t1 = kUnpausedFlag" "c_suspended t1 = c_suspended t"
      by blast
    have "pt_inv t1" "\<forall>c. Clearing c \<notin># c_agents t1"
      using t1(1) less.prems(1) pt_step_inv by (auto simp: waiter_step_def)
    from less.hyps [OF t1(2) this(1) t1(3) this(2)] t1(1,4) show ?thesis
      by (metis converse_rtranclp_into_rtranclp)
  qed
qed

lemma latch_token_steps:
  "waiter_step\<^sup>*\<^sup>* t t' \<Longrightarrow> latch_step\<^sup>*\<^sup>* (s\<lparr>l_token := t\<rparr>) (s\<lparr>l_token := t'\<rparr>)"
proof (induction rule: rtranclp_induct)
  case (step y z)
  from latch_token [of "s\<lparr>l_token := y\<rparr>" z] step.hyps(2) have "latch_step (s\<lparr>l_token := y\<rparr>) (s\<lparr>l_token := z\<rparr>)" by simp
  with step.IH show ?case by (rule rtranclp.rtrancl_into_rtrancl)
qed simp

section \<open>Properties\<close>

text \<open>C22: However the threads interleave: a latch opens exactly when the counts subtracted from it reach the number
  it was made with, by exactly one of the calls, and not before; until then no coroutine that waits is let
  through or resumed.\<close>

theorem latch_opens_exactly_once_concurrent:
  assumes "latch_reachable start s" and "0 < sint start" and "l_total s \<le> 2 ^ 63"
  shows "l_opened s = (if sint start \<le> l_total s then 1 else 0) \<and>
     (l_total s < sint start \<longrightarrow> c_resuming (l_token s) \<noteq> kUnpausedFlag \<and> c_resumed (l_token s) = {#} \<and>
        (\<forall>a. Pausing a kUnpausedFlag \<notin># c_agents (l_token s))) \<and>
     c_resumed (l_token s) \<subseteq># c_suspended (l_token s)"
  using latch_reachable_inv [OF assms(1,2)] assms(3)
  by (auto simp: latch_inv_def still_closed_def pt_inv_def split: if_splits)

text \<open>C23: A latch that was counted down loses nobody: from any state that the threads can reach, once the count is
  used up, they can go on without a further arrival until no call is under way, and then the latch is open and
  every coroutine that it ever suspended has been resumed exactly once.\<close>

theorem latch_releases_everyone:
  assumes "latch_reachable start s" and "0 < sint start" and "l_total s \<le> 2 ^ 63" and "sint start \<le> l_total s"
  shows "\<exists>t. latch_step\<^sup>*\<^sup>* s t \<and> l_total t = l_total s \<and> l_openers t = 0 \<and> c_agents (l_token t) = {#} \<and>
     c_resuming (l_token t) = kUnpausedFlag \<and> c_resumed (l_token t) = c_suspended (l_token s)"
proof -
  note inv = latch_reachable_inv [OF assms(1,2)]
  then have one: "l_opened s = 1" using assms(3,4) by (simp add: latch_inv_def)
  have "\<exists>u. latch_step\<^sup>*\<^sup>* s u \<and> latch_inv start u \<and> l_total u = l_total s \<and> l_openers u = 0 \<and>
      c_resuming (l_token u) = kUnpausedFlag \<and> c_suspended (l_token u) = c_suspended (l_token s)"
  proof (cases "l_openers s")
    case 0
    with inv one show ?thesis by (intro exI [of _ s]) (auto simp: latch_inv_def)
  next
    case (Suc n)
    then have n: "n = 0" using inv one by (auto simp: latch_inv_def split: if_splits)
    note st = latch_open [OF Suc]
    from latch_step_inv [OF st inv assms(2)] st n show ?thesis
      by (intro exI [of _ "s\<lparr>l_token := unpause_exchange (l_token s), l_openers := n\<rparr>"])
        (auto simp: unpause_exchange_def)
  qed
  then obtain u where u: "latch_step\<^sup>*\<^sup>* s u" "latch_inv start u" "l_total u = l_total s" "l_openers u = 0"
    "c_resuming (l_token u) = kUnpausedFlag" "c_suspended (l_token u) = c_suspended (l_token s)" by blast
  from u(2) have "pt_inv (l_token u)" "\<forall>c. Clearing c \<notin># c_agents (l_token u)" by (simp_all add: latch_inv_def)
  from open_token_settles [OF this(1) u(5) this(2)] obtain t' where
    t': "waiter_step\<^sup>*\<^sup>* (l_token u) t'" "c_agents t' = {#}" "c_resuming t' = kUnpausedFlag"
    "c_resumed t' = c_suspended (l_token u)" by blast
  have "latch_step\<^sup>*\<^sup>* s (u\<lparr>l_token := t'\<rparr>)" using u(1) latch_token_steps [OF t'(1), of u] by simp
  with t' u show ?thesis by (intro exI [of _ "u\<lparr>l_token := t'\<rparr>"]) simp
qed

section \<open>Witnesses\<close>

text \<open>A latch for two, at which one of them has arrived; and one that both have counted down.\<close>

lemma demo_latch_run:
  "\<exists>s. latch_reachable 2 s \<and> l_total s = 1" "\<exists>s. latch_reachable 2 s \<and> l_total s = 2"
proof -
  let ?s1 = "(latch_init 2)\<lparr>l_count := 1, l_total := 1\<rparr>"
  have 1: "latch_step (latch_init 2) ?s1" using latch_count [of 1 "latch_init 2"] by (simp add: latch_init_def opens_def)
  then show "\<exists>s. latch_reachable 2 s \<and> l_total s = 1" unfolding latch_reachable_def by (intro exI [of _ ?s1]) auto
  from latch_count [of 1 ?s1] obtain s2 where "latch_step ?s1 s2" "l_total s2 = 2" by fastforce
  with 1 show "\<exists>s. latch_reachable 2 s \<and> l_total s = 2" unfolding latch_reachable_def
    by (metis r_into_rtranclp rtranclp.rtrancl_into_rtrancl)
qed

theorem latch_opens_exactly_once_concurrent_witness:
  "\<exists>s. latch_reachable 2 s \<and> l_total s = 1 \<and> l_opened s = 0 \<and> c_resumed (l_token s) = {#}"
proof -
  obtain s where s: "latch_reachable 2 s" "l_total s = 1" using demo_latch_run(1) by blast
  with latch_opens_exactly_once_concurrent [OF s(1)] show ?thesis by auto
qed

theorem latch_releases_everyone_witness:
  "\<exists>s t. latch_reachable 2 s \<and> l_total s = 2 \<and> latch_step\<^sup>*\<^sup>* s t \<and> c_resuming (l_token t) = kUnpausedFlag \<and>
     c_agents (l_token t) = {#}"
proof -
  obtain s where s: "latch_reachable 2 s" "l_total s = 2" using demo_latch_run(2) by blast
  with latch_releases_everyone [OF s(1)] show ?thesis by auto
qed

end
