(* ===== verification/Async_Function.thy ===== *)
theory Async_Function
  imports Events
begin

text \<open>
  \<open>includes/zab/async_function.hpp\<close> and \<open>includes/zab/execution_promise.hpp\<close>: coroutines that nobody waits for.
  The body of one is a function \<open>body\<close>: \<open>body i\<close> is what it does from its \<open>i\<close>-th suspension on (from its start,
  for \<open>0\<close>), as a change of the state \<open>'w\<close> of the program, and how that part ends: at the next suspension, at
  its return, or with an exception.  A frame is the number of the part that comes next.  The compiler calls the
  members of the promise, here \<open>initial_suspend\<close>, \<open>return_void\<close>, \<open>unhandled_exception\<close> and
  \<open>final_suspend\<close>.
\<close>

section \<open>Coroutines without a result\<close>

datatype part_end = Suspends | Returns | Throws

datatype suspend_kind = Suspend_never | Suspend_always

definition execution_initial_suspend :: suspend_kind where
  "execution_initial_suspend = Suspend_never"

definition execution_final_suspend :: suspend_kind where
  "execution_final_suspend = Suspend_never"

text \<open>Neither member does anything, so a return and an exception leave the state as it is.\<close>

definition execution_return_void :: "'w \<Rightarrow> 'w" where
  "execution_return_void w = w"

definition execution_unhandled_exception :: "'w \<Rightarrow> 'w" where
  "execution_unhandled_exception w = w"

type_synonym frames = "coro \<rightharpoonup> nat"

text \<open>The end of a body: a coroutine that does not suspend finally is freed.\<close>

definition finish_function :: "coro \<Rightarrow> frames \<Rightarrow> frames" where
  "finish_function a fr = (if execution_final_suspend = Suspend_never then fr(a := None) else fr)"

definition run_part :: "(nat \<Rightarrow> 'w \<Rightarrow> 'w \<times> part_end) \<Rightarrow> coro \<Rightarrow> nat \<Rightarrow> frames \<times> 'w \<Rightarrow> frames \<times> 'w" where
  "run_part body a i = (\<lambda>(fr, w).
     case body i w of
       (w', Suspends) \<Rightarrow> (fr(a \<mapsto> Suc i), w')
     | (w', Returns) \<Rightarrow> (finish_function a fr, execution_return_void w')
     | (w', Throws) \<Rightarrow> (finish_function a fr, execution_unhandled_exception w'))"

text \<open>A call allocates the frame \<open>a\<close> and, unless it suspends initially, runs the first part before it returns to
  the caller.\<close>

definition call_function :: "(nat \<Rightarrow> 'w \<Rightarrow> 'w \<times> part_end) \<Rightarrow> coro \<Rightarrow> frames \<times> 'w \<Rightarrow> frames \<times> 'w" where
  "call_function body a = (\<lambda>(fr, w).
     if execution_initial_suspend = Suspend_never then run_part body a 0 (fr(a \<mapsto> 0), w) else (fr(a \<mapsto> 0), w))"

definition resume_function ::
    "(nat \<Rightarrow> 'w \<Rightarrow> 'w \<times> part_end) \<Rightarrow> coro \<Rightarrow> frames \<times> 'w \<Rightarrow> (frames \<times> 'w) outcome" where
  "resume_function body a = (\<lambda>(fr, w).
     case fr a of None \<Rightarrow> Inl Bad_address | Some i \<Rightarrow> Inr (run_part body a i (fr, w)))"

section \<open>Running to the end\<close>

fun resumes :: "(nat \<Rightarrow> 'w \<Rightarrow> 'w \<times> part_end) \<Rightarrow> coro \<Rightarrow> nat \<Rightarrow> frames \<times> 'w \<Rightarrow> (frames \<times> 'w) outcome" where
  "resumes body a 0 s = Inr s"
| "resumes body a (Suc n) s = bind_outcome (resume_function body a s) (resumes body a n)"

text \<open>The state after the first \<open>n\<close> parts.\<close>

fun after_parts :: "(nat \<Rightarrow> 'w \<Rightarrow> 'w \<times> part_end) \<Rightarrow> nat \<Rightarrow> nat \<Rightarrow> 'w \<Rightarrow> 'w" where
  "after_parts body i 0 w = w"
| "after_parts body i (Suc n) w = after_parts body (Suc i) n (fst (body i w))"

text \<open>From the part \<open>i\<close> on, the body suspends \<open>n\<close> times and then ends in the way \<open>e\<close>.\<close>

fun ends_after :: "(nat \<Rightarrow> 'w \<Rightarrow> 'w \<times> part_end) \<Rightarrow> nat \<Rightarrow> nat \<Rightarrow> part_end \<Rightarrow> 'w \<Rightarrow> bool" where
  "ends_after body i 0 e w \<longleftrightarrow> snd (body i w) = e"
| "ends_after body i (Suc n) e w \<longleftrightarrow> snd (body i w) = Suspends \<and> ends_after body (Suc i) n e (fst (body i w))"

lemmas execution_defs = execution_initial_suspend_def execution_final_suspend_def execution_return_void_def
  execution_unhandled_exception_def finish_function_def

lemma run_part_suspends: "snd (body i w) = Suspends \<Longrightarrow> run_part body a i (fr, w) = (fr(a \<mapsto> Suc i), fst (body i w))"
  by (cases "body i w") (simp add: run_part_def)

lemma run_part_ends:
  "snd (body i w) \<noteq> Suspends \<Longrightarrow> run_part body a i (fr, w) = (fr(a := None), fst (body i w))"
  by (cases "body i w"; cases "snd (body i w)") (auto simp: run_part_def execution_defs)

lemma resumes_add: "resumes body a (k + l) s = bind_outcome (resumes body a k s) (resumes body a l)"
  by (induction k arbitrary: s) (simp_all add: bind_outcome_assoc cong: bind_outcome_cong)

lemma resumes_to_end:
  assumes "ends_after body i n e w" and "e \<noteq> Suspends" and "fr a = Some i"
  shows "resumes body a (Suc n) (fr, w) = Inr (fr(a := None), after_parts body i (Suc n) w)"
  using assms
proof (induction n arbitrary: i fr w)
  case 0
  then show ?case by (auto simp: resume_function_def run_part_ends)
next
  case (Suc n)
  then have "resume_function body a (fr, w) = Inr (fr(a \<mapsto> Suc i), fst (body i w))"
    by (simp add: resume_function_def run_part_suspends)
  then have "resumes body a (Suc (Suc n)) (fr, w) = resumes body a (Suc n) (fr(a \<mapsto> Suc i), fst (body i w))"
    using resumes.simps(2) [of body a "Suc n" "(fr, w)"] by (simp del: resumes.simps)
  moreover have "resumes body a (Suc n) (fr(a \<mapsto> Suc i), fst (body i w)) =
      Inr ((fr(a \<mapsto> Suc i))(a := None), after_parts body (Suc i) (Suc n) (fst (body i w)))"
    using Suc.prems by (intro Suc.IH) simp_all
  ultimately show ?case by (auto simp del: resumes.simps)
qed

section \<open>Properties\<close>

text \<open>C24: A function that returns an \<open>async_function\<close> runs its first part before the call returns and one part
  for each resumption; after its last suspension it runs to its end and frees its own frame, leaving all
  others as they are, so it needs and has no owner.  An exception that leaves its body ends it in the same way,
  silently.  A further resumption is a use of freed memory.\<close>

theorem async_function_frees_itself:
  assumes "ends_after body 0 n e w" and "e \<noteq> Suspends" and "fr a = None"
  shows "resumes body a n (call_function body a (fr, w)) = Inr (fr, after_parts body 0 (Suc n) w) \<and>
     resumes body a (Suc n) (call_function body a (fr, w)) = Inl Bad_address"
proof -
  have fr: "fr(a := None) = fr" using assms(3) by auto
  have "resumes body a n (call_function body a (fr, w)) = Inr (fr, after_parts body 0 (Suc n) w)"
  proof (cases n)
    case 0
    with fr assms show ?thesis by (simp add: call_function_def execution_initial_suspend_def run_part_ends)
  next
    case (Suc m)
    have "resumes body a (Suc m) (fr(a \<mapsto> 1), fst (body 0 w)) =
        Inr ((fr(a \<mapsto> 1))(a := None), after_parts body 1 (Suc m) (fst (body 0 w)))"
      using assms Suc by (intro resumes_to_end) simp_all
    then show ?thesis using assms(1) Suc fr
      by (simp add: call_function_def execution_initial_suspend_def run_part_suspends del: resumes.simps)
  qed
  moreover from this assms(3) have "resumes body a (n + 1) (call_function body a (fr, w)) = Inl Bad_address"
    unfolding resumes_add by (simp add: resume_function_def)
  ultimately show ?thesis by simp
qed

section \<open>Witnesses\<close>

text \<open>A coroutine that adds its parts to a log, suspends twice and then throws.\<close>

definition demo_body :: "nat \<Rightarrow> nat list \<Rightarrow> nat list \<times> part_end" where
  "demo_body i w = (w @ [i], if i < 2 then Suspends else Throws)"

theorem async_function_frees_itself_witness:
  "resumes demo_body 8 2 (call_function demo_body 8 ([16 \<mapsto> 4], [])) = Inr ([16 \<mapsto> 4], [0, 1, 2])"
proof -
  have e: "ends_after demo_body 0 2 Throws []" and p: "after_parts demo_body 0 (Suc 2) [] = [0, 1, 2]"
    by (simp_all add: demo_body_def numeral_2_eq_2)
  have "([16 \<mapsto> 4] :: frames) 8 = None" "Throws \<noteq> Suspends" by simp_all
  from async_function_frees_itself [where fr = "[16 \<mapsto> 4]" and a = 8, OF e this(2,1)] show ?thesis unfolding p by blast
qed

end
