(* ===== verification/Echo_Shutdown.thy ===== *)
theory Echo_Shutdown
  imports Echo_Server
begin

text \<open>
  How the server that logs ends (\<open>wake_connections\<close> in \<open>example/logging_echo_server.cpp\<close>): on an interrupt it shuts
  down and closes every stream of its set, releases the set and stops the engine.
\<close>

section \<open>A stream that is shut down stays the same stream\<close>

lemma deplete_keeps:
  "deplete n ret h buf rs s w = Inr (fin, s', w') \<Longrightarrow>
   net_engine (net s') = net_engine (net s) \<and> sd (net s') = sd (net s)"
proof (induction n arbitrary: rs s w)
  case (Suc n)
  then obtain s1 w1 where s1: "read_some_suspend True ret h (buf, 1028) 0 0 s w = Inr (s1, w1)" by auto
  then have k1: "net_engine (net s1) = net_engine (net s)" "sd (net s1) = sd (net s)"
    by (auto simp: read_some_suspend_def stream_defs split: if_splits)
  show ?case
  proof (cases rs)
    case Nil
    with Suc.prems s1 k1 show ?thesis by simp
  next
    case (Cons r rs')
    obtain res s2 where s2: "read_some_resume r s1 = (res, s2)" by force
    then have k2: "net_engine (net s2) = net_engine (net s1)" "sd (net s2) = sd (net s1)"
      by (auto simp: read_some_resume_def stream_defs Let_def split: if_splits)
    with Suc.prems Suc.IH [of rs' s2 w1] s1 s2 k1 Cons show ?thesis by (auto split: if_splits)
  qed
qed simp

lemma shutdown_keeps:
  assumes "shutdown ret h buf cr cw rc rs s w = Inr (fin, s', w')"
  shows "net_engine (net s') = net_engine (net s) \<and> sd (net s') = sd (net s)"
proof -
  from assms obtain s1 w1 s2 w2 where s: "await_cancel_read ret h cr s w = Inr (s1, w1)"
    "await_cancel_write ret h cw s1 w1 = Inr (s2, w2)" by (auto simp: shutdown_def)
  have "net_engine (net s1) = net_engine (net s) \<and> sd (net s1) = sd (net s)"
    using s(1) by (auto simp: await_cancel_read_def cancel_read_resume_def stream_defs split: if_splits)
  moreover have "net_engine (net s2) = net_engine (net s1) \<and> sd (net s2) = sd (net s1)"
    using s(2) by (auto simp: await_cancel_write_def cancel_write_resume_def split: if_splits)
  ultimately show ?thesis using assms s deplete_keeps by (auto simp: shutdown_def Let_def split: if_splits)
qed

section \<open>Closing every stream\<close>

text \<open>Answers that let a shutdown end and the closing succeed: the peer's data ends, or five reads complete, or the
  shutdown of the writing side fails.\<close>

definition ends_shutdown :: "shutdown_answers \<times> int \<Rightarrow> bool" where
  "ends_shutdown = (\<lambda>(a, close_rc). (sh_rc a = - 1 \<or> 5 \<le> length (sh_reads a) \<or> (\<exists>r \<in> set (sh_reads a). r \<le> 0)) \<and> close_rc = 0)"

definition connected :: "tcp_stream \<Rightarrow> bool" where
  "connected s \<longleftrightarrow> net_engine (net s) \<noteq> null \<and> 0 \<le> sd (net s)"

lemma stream_closes:
  assumes "connected s" and "ends_shutdown (a, rc)"
  shows "\<exists>s1 w1 w2. shutdown ret h buf (sh_cancel_read a) (sh_cancel_write a) (sh_rc a) (sh_reads a) s w = Inr (True, s1, w1) \<and>
     stream_close_suspend True ret h s1 w1 = Inr w2 \<and> sd (net (snd (stream_close_resume rc s1))) = kNoDescriptor \<and>
     sq (loop (nio w2)) = sq (loop (nio w1)) @ [(Prep_close (sd (net s)), ret)]"
proof -
  have e: "net_engine (net s) \<noteq> null" using assms(1) by (simp add: connected_def)
  from shutdown_returns [OF e, of ret h buf "sh_cancel_read a" "sh_cancel_write a" "sh_rc a" "sh_reads a" w] assms(2)
  obtain s1 w1 where s1: "shutdown ret h buf (sh_cancel_read a) (sh_cancel_write a) (sh_rc a) (sh_reads a) s w = Inr (True, s1, w1)"
    by (auto simp: ends_shutdown_def simp del: bind_outcome_eq_Inr)
  note k = shutdown_keeps [OF s1]
  have "\<exists>w2. stream_close_suspend True ret h s1 w1 = Inr w2 \<and>
      sq (loop (nio w2)) = sq (loop (nio w1)) @ [(Prep_close (sd (net s)), ret)]"
    using k assms(1)
    by (simp add: connected_def stream_close_suspend_def net_close_ready_def net_close_suspend_def net_defs
        close_await_def io_suspend_def close_def do_op_impl_def Let_def)
  moreover have "sd (net (snd (stream_close_resume rc s1))) = kNoDescriptor"
    using assms(2) by (simp add: ends_shutdown_def stream_close_resume_def net_close_resume_def)
  ultimately show ?thesis using s1 by blast
qed

lemma wake_streams_closes:
  assumes "distinct S" and "\<forall>a \<in> set S. \<exists>s. streams a = Some s \<and> connected s"
    and "length S \<le> length ans" and "\<forall>x \<in> set ans. ends_shutdown x"
  shows "\<exists>streams' w'. wake_streams ret co buf ans S streams w = Inr (True, streams', w') \<and>
     (\<forall>a \<in> set S. \<exists>s. streams' a = Some s \<and> sd (net s) = kNoDescriptor) \<and> (\<forall>a. a \<notin> set S \<longrightarrow> streams' a = streams a)"
  using assms
proof (induction S arbitrary: ans streams w)
  case (Cons a S)
  obtain s where s: "streams a = Some s" "connected s" using Cons.prems(2) by auto
  obtain sa rc ans' where ans: "ans = (sa, rc) # ans'" using Cons.prems(3) by (cases ans) auto
  have "ends_shutdown (sa, rc)" using Cons.prems(4) ans by simp
  from stream_closes [OF s(2) this, of ret "Coroutine_alt co" buf w] obtain s1 w1 w2 where
    1: "shutdown ret (Coroutine_alt co) buf (sh_cancel_read sa) (sh_cancel_write sa) (sh_rc sa) (sh_reads sa) s w = Inr (True, s1, w1)"
    "stream_close_suspend True ret (Coroutine_alt co) s1 w1 = Inr w2"
    "sd (net (snd (stream_close_resume rc s1))) = kNoDescriptor" by blast
  let ?st = "streams(a \<mapsto> snd (stream_close_resume rc s1))"
  have "distinct S" "\<forall>b \<in> set S. \<exists>s. ?st b = Some s \<and> connected s" "length S \<le> length ans'" "\<forall>x \<in> set ans'. ends_shutdown x"
    using Cons.prems ans by auto
  from Cons.IH [OF this, of w2] obtain streams' w' where
    2: "wake_streams ret co buf ans' S ?st w2 = Inr (True, streams', w')"
    "\<forall>b \<in> set S. \<exists>s. streams' b = Some s \<and> sd (net s) = kNoDescriptor" "\<forall>b. b \<notin> set S \<longrightarrow> streams' b = ?st b" by blast
  have "wake_streams ret co buf ans (a # S) streams w = Inr (True, streams', w')"
    using s(1) ans 1(1,2) 2(1) by simp
  moreover have "streams' a = Some (snd (stream_close_resume rc s1))" using 2(3) Cons.prems(1) by simp
  ultimately show ?case using 1(3) 2(2,3) by auto
qed simp

section \<open>Properties\<close>


section \<open>Witnesses\<close>


end
