(* ===== verification/Spec2Isabelle.thy ===== *)
theory Spec2Isabelle
  imports Binary_Semaphore_Steps Async_Mutex Counting_Semaphore Async_Barrier Spin_Lock
    Combinators Futures Tcp_Networking Async_File Signal_Handler Observable Engine_Enabled
    Generators Wait_Results Counting_Semaphore_Steps Async_Barrier_Steps Engine_Run Echo_Server
    Loop_Run Timer_Object Timer_Trace Latch_Steps Async_Function Echo_Shutdown
begin

text \<open>
  A model of zab, a C++20 library of coroutines over \<open>io_uring\<close>, with the properties that make it
  correct.  Paths below are relative to \<open>src/\<close>; headers are in \<open>includes/zab\<close>, their sources in \<open>src\<close>.

  \<^bold>\<open>The program.\<close>  An \<open>engine\<close> has one event loop and one timer service per worker thread.  A
  coroutine suspends by giving its handle to some object; that object later hands the handle, as an
  \<open>event\<close>, to the engine, which appends it to the queue of the loop of a thread (\<open>thread_resume\<close>), or
  gives it to the timer service first (\<open>delayed_resume\<close>).  The loop alternates between kernel completions
  and that queue.  Everything else is built on this: pause tokens, latches, semaphores, mutexes, barriers
  and observables resume their waiters through the engine; streams, acceptors and files await requests of the
  loop; \<open>wait_for\<close>, \<open>first_of\<close>, \<open>for_each\<close> and the future types compose coroutines.

  \<^bold>\<open>Theories.\<close>

  \<^item> \<open>Zab_Prelude\<close>: results with faults (\<open>outcome\<close>), loops that may fail, chains of linked nodes, facts on
    words and lists.
  \<^item> \<open>Strong_Types\<close>, \<open>Events\<close>: \<open>strong_types.hpp\<close>, \<open>event.hpp\<close>.  Thread ids are 16 bit words, delays 64
    bit words that wrap; an event is a function pointer with context or a coroutine handle.
  \<^item> \<open>Event_Loop\<close>: \<open>event_loop.hpp\<close>, \<open>event_loop.cpp\<close>.  Every request, its suspension, cancellation and
    completion; the completion loop; the user space queue, also as the step relation \<open>us_step\<close> of the
    dispatching threads and the loop's own coroutine.  \<open>Loop_Run\<close>: \<open>run\<close>, the two halves together.
  \<^item> \<open>Timer_Service\<close>: \<open>timer_service.hpp\<close>, \<open>timer_service.cpp\<close>.  Sleep marks in a sorted map, arming and
    expiration.  \<open>Timer_Object\<close>: the timer as an object that is moved, reads and is destroyed.  \<open>Timer_Trace\<close>:
    sleeps and expirations in any order.
  \<^item> \<open>Resume_Interface\<close>: the contract \<open>resume_service\<close> of a call that queues an event, with what its clients
    derive from it.  \<open>Engine\<close> (\<open>engine.hpp\<close>, \<open>engine.cpp\<close>, \<open>yield.hpp\<close>, \<open>pause.hpp\<close>, \<open>pause.cpp\<close>) meets it
    with \<open>thread_resume\<close>, \<open>Signal_Handler\<close> with an immediate \<open>execute\<close>.
  \<^item> \<open>Pause_Token\<close> (\<open>pause_token.hpp\<close>), \<open>Async_Latch\<close> (\<open>async_latch.hpp\<close>), with \<open>Latch_Steps\<close> for the
    concurrent callers of a latch.
  \<^item> \<open>Lock_Interface\<close>: the abstract first in, first out lock and the contract \<open>fifo_lock\<close>.
    \<open>Async_Semaphore\<close> (the binary semaphore of \<open>async_semaphore.hpp\<close>) and \<open>Async_Mutex\<close>
    (\<open>async_mutex.hpp\<close>) meet it; \<open>Binary_Semaphore_Steps\<close> has the atomic steps of concurrent callers.
    \<open>Counting_Semaphore\<close> is the general template, \<open>Counting_Semaphore_Steps\<close> its concurrent callers.
  \<^item> \<open>Async_Barrier\<close> (\<open>async_barrier.hpp\<close>) with \<open>Async_Barrier_Steps\<close> for its concurrent callers,
    \<open>Spin_Lock\<close> (\<open>spin_lock.hpp\<close>).
  \<^item> \<open>Async_Function\<close> (\<open>async_function.hpp\<close>, \<open>execution_promise.hpp\<close>): coroutines that own themselves.
  \<^item> \<open>Generic_Awaitable\<close> (\<open>generic_awaitable.hpp\<close>, \<open>stateful_awaitable.hpp\<close>), \<open>Combinators\<close>
    (\<open>wait_for.hpp\<close>, \<open>first_of.hpp\<close>), \<open>Futures\<close> (the simple, reusable, deferring and visiting promises,
    \<open>for_each.hpp\<close>), \<open>Generators\<close> (ownership of generator frames and the \<open>void\<close> generator of
    \<open>reusable_future.hpp\<close> and \<open>reusable_promise.hpp\<close>), \<open>Wait_Results\<close> (\<open>wait_for\<close> from its start to its
    results).
  \<^item> \<open>Network_Operation\<close>, \<open>Tcp_Stream\<close> (with the contract \<open>stream_transfer\<close> that reading and writing
    share), \<open>Tcp_Networking\<close>, \<open>Async_File\<close>: the headers and sources of these names.
  \<^item> \<open>Signal_Handler\<close>, \<open>Observable\<close>, \<open>Engine_Enabled\<close>: \<open>signal_handler.hpp\<close> and \<open>.cpp\<close>,
    \<open>observable.hpp\<close>, \<open>engine_enabled.hpp\<close>.
  \<^item> \<open>Engine_Run\<close>: the life of an engine, with its signal handler and timers, and the engine at work, composed of
    the steps of its loops.
  \<^item> \<open>Echo_Server\<close>: \<open>example/echo_server.cpp\<close> and \<open>example/logging_echo_server.cpp\<close>, composed of the
    components above.  \<open>Echo_Shutdown\<close>: how the second of them ends.
  \<^item> This theory: a coroutine on its way through yield or sleep, engine, timer and loop back to its resumption.

  \<^bold>\<open>Correspondence.\<close>  A class is a record of its data members, an operation a function from the state to an
  \<open>outcome\<close>: the new state, or the fault (null dereference, failed assertion, bad address, abort) in which the
  source ends.  Objects reached through pointers live in maps from addresses.  An awaitable is its parts at
  \<open>await_ready\<close>, \<open>await_suspend\<close> and \<open>await_resume\<close>.  The thread-local id of the calling thread is an
  argument.  Pointers that carry flag bits keep them, as 64 bit words.

  \<^bold>\<open>Concurrency.\<close>  Where an algorithm is lock-free, its atomic operations are the steps of an inductive
  relation and the invariants hold in every reachable state, for any number of threads: the user space
  queue, the workers of an engine, pause token, latch, binary and counting semaphore, barrier, the two spin
  locks.  The atomics are taken to be sequentially consistent.  Code that runs under a mutex is one step.

  \<^bold>\<open>Inputs.\<close>  What liburing and the kernel answer (free submission entries, completions, results of system
  calls, timer readings), and spurious failures of weak exchanges, are arguments, so a theorem holds for all
  of them or states which answers it needs.  The callbacks of the user (completion functions, members called
  by a proxy, deferred blocks) are arguments too.

  \<^bold>\<open>What is shown.\<close>
  The loop: no wake-up is lost, dispatched events run once and in order, completions reach their awaiters with
  the result, a full submission queue is reported; \<open>run\<close> executes queued events and completions once, in
  order.  After any sleeps and expirations the timer has resumed exactly what was due, once; it is armed while
  anybody sleeps, and everybody is resumed in the end.  A coroutine that yields or sleeps is resumed on the
  worker that the code chooses for it, after its delay.  The engine queues an event on the requested or the least loaded loop; through its whole life it has a
  loop for every worker and, while it runs, a timer, and each worker executes what was queued for it once, in
  order.  The token, the locks and the
  semaphores lose no waiter and resume each once, in order; the sequential operations of the binary
  semaphore and the mutex refine the abstract lock; the counting semaphore never gives out a permit that it
  does not have.  Under every
  interleaving a latch opens exactly once, when its count is spent, and releases everybody; a barrier phase takes the oldest arrivals and resumes them all,
  as long as nobody drops; with drops two coroutines can complete the same phase.  \<open>wait_for\<close> and \<open>first_of\<close> resume their coroutine once, \<open>wait_for\<close> with
  the results in the order of its arguments; futures and generators deliver their values, and no future of
  a generator is left with a freed frame; an async function frees itself at its end.  Descriptors are closed exactly once; a stream transfers all bytes in
  order within bounds or reports the error; \<open>shutdown\<close> ends.  An emission reaches every observer and the
  emitter continues after the last of them; a signal executes every function registered for it; a proxy runs
  its member on the required thread.  The echo server spreads its connections over the workers and sends back
  exactly the bytes that it read; an interrupt closes every connection and stops the engine.
  Some theorems record behaviour that its documentation does not mention: a permit lost in a race between
  \<open>release\<close> and \<open>await_suspend\<close> of the counting semaphore, delayed resumptions that ignore the thread,
  file loops that use the start of the buffer for every part, a log that keeps only its last turn.

  \<^bold>\<open>Bounds.\<close>  Loops over linked lists and loops that retry take a number of iterations, and end in the
  fault \<open>Out_of_fuel\<close> without it; each theorem about them states that a number not below the length of
  the list suffices and that the operation then returns.  \<open>drain_completions\<close> needs the number of batches,
  \<open>for_each\<close> and the proxy of a generator one more than the number of values.
  \<open>room\<close> is how many events the 64 bit counters of the loops can still count; \<open>accepts\<close> asks for at most
  65534 loops, the ids below \<open>kAnyThread\<close>.

  \<^bold>\<open>Not modelled.\<close>  \<open>hardware_interface_size.hpp\<close> and \<open>memory_type.hpp\<close> are compile-time constants and constraints.
  \<open>async_barrier::arrive\<close> with its arrival token, \<open>engine_enabled::order\<close> and the move assignment of
  \<open>observer\<close> do not compile when used.  Left out as input and output: the printing of a thread id and
  the logging of errors.  The operating system threads of the engine are represented by their steps and by the
  requests to stop them.  Of the examples, the parsing of the arguments of \<open>main\<close> and what is printed.  The
  tests use the library and are not part of it.
\<close>

section \<open>From suspension to resumption\<close>

text \<open>The thread of the worker \<open>i\<close> runs its loop when it can execute what is queued for it.\<close>

definition ready_worker :: "user_space \<Rightarrow> nat \<Rightarrow> engine \<Rightarrow> bool" where
  "ready_worker u i e \<longleftrightarrow> read_handles (loops e ! i) = [] \<and> cq (loops e ! i) = [] \<and>
     (\<forall>h \<in> set (write_handles (loops e ! i)). runnable u h)"

lemma worker_runs_queue:
  assumes "ready_worker u i e" and "co \<noteq> 0"
    and "loops e' ! i = dispatch_user_event (resume_event co) (loops e ! i)"
  shows "\<exists>t. event_loop_run False run_handle u n [] (s\<lparr>loop := loops e' ! i\<rparr>) = Inr t \<and>
     executed t = executed s @ queue_actions (write_handles (loops e ! i)) @ [Resume co] \<and> write_handles (loop t) = []"
proof -
  let ?s = "s\<lparr>loop := loops e' ! i\<rparr>"
  have q: "write_handles (loop ?s) = write_handles (loops e ! i) @ [resume_event co]" using assms(3) by simp
  have "runnable u (resume_event co)" using assms(2) by (simp add: runnable_def del: execute_event.simps)
  then have "read_handles (loop ?s) = []" "cq (loop ?s) = []" "\<forall>h \<in> set (write_handles (loop ?s)). runnable u h"
    using assms(1,3) dispatch_events(3) [of "[resume_event co]" "loops e ! i"]
    unfolding q by (auto simp: ready_worker_def)
  from event_loop_run_delivers [OF this, of "[]" n] show ?thesis using assms(2)
    unfolding q by (auto simp: queue_actions_def event_actions_def simp del: execute_event.simps)
qed



section \<open>Witnesses\<close>

definition demo_run_engine :: engine where
  "demo_run_engine = demo_engine0\<lparr>timers := [init_timer_service 0], workers := [False]\<rparr>"

lemma demo_run_engine_ready:
  "worker_thread demo_run_engine (Thread_t 0)" "ready_worker demo_user_space 0 demo_run_engine"
  "length (timers demo_run_engine) = 1" "timers demo_run_engine ! 0 = init_timer_service 0"
  "write_handles (loops demo_run_engine ! 0) = []"
  by (simp_all add: demo_run_engine_def demo_engine0_def worker_thread_def ready_worker_def thread_any_def kAnyThread_def
      init_event_loop_def)



end
